(* ===== verification/Prelude.thy ===== *)
theory Prelude
  imports Main "HOL-Library.Word" "HOL-Library.Multiset" "HOL-Library.AList"
    "HOL-Library.Char_ord" "HOL-Library.List_Lexorder"
begin

text \<open>
  Shared vocabulary of the development: the Go runtime as the model sees it (instants,
  durations, clock readings, map iteration order, run-time panics) and the generic lemmas on
  lists and association lists that several components use.

  Machine integers keep their width: a Go \<open>int64\<close> (and \<open>time.Duration\<close>) is a
  \<open>64 word\<close> read with \<open>sint\<close>. A \<open>time.Time\<close> is an \<open>int\<close>, the nanoseconds since the
  zero instant (January 1 of year 1), so that the zero value of the Go type is \<open>0\<close>.
  A Go \<open>string\<close> is the list of its bytes.
\<close>

named_theorems table_simps \<open>what the operations of a hash table do to the abstract map\<close>
named_theorems inv_intros \<open>operations keep the invariant of their component\<close>

section \<open>Panics\<close>

datatype go_panic =
    DivideByZero
  | IndexOutOfRange
  | NilDereference
  | PanicText string

type_synonym 'a res = "go_panic + 'a"

section \<open>Instants and durations\<close>

type_synonym time = int
type_synonym duration = "64 word"
type_synonym int64 = "64 word"
type_synonym uint64 = "64 word"

abbreviation time_zero :: time where
  "time_zero \<equiv> 0"

definition max_duration :: int where
  "max_duration = 2 ^ 63 - 1"

definition min_duration :: int where
  "min_duration = - (2 ^ 63)"

text \<open>\<open>t.Add(d)\<close> and \<open>t.Sub(u)\<close>; the difference saturates at the ends of \<open>Duration\<close>.\<close>

definition time_add :: "time \<Rightarrow> duration \<Rightarrow> time" where
  "time_add t d = t + sint d"

definition time_sub :: "time \<Rightarrow> time \<Rightarrow> duration" where
  "time_sub t u = word_of_int (max min_duration (min max_duration (t - u)))"

lemma sint_in_duration: "min_duration \<le> sint (d :: duration)" "sint (d :: duration) \<le> max_duration"
  using sint_ge [of d] sint_lt [of d] by (simp_all add: min_duration_def max_duration_def)

lemma sint_word_of_int_in_range:
  assumes "min_duration \<le> i" and "i \<le> max_duration"
  shows "sint (word_of_int i :: 64 word) = i"
  using assms
  by (simp add: sint_sbintrunc' signed_take_bit_int_eq_self min_duration_def max_duration_def)

lemma uint_nonneg_sint: "0 \<le> sint w \<Longrightarrow> uint (w :: 64 word) = sint w"
proof -
  assume nonneg: "0 \<le> sint w"
  have "uint w = uint (word_of_int (sint w) :: 64 word)" by simp
  also have "\<dots> = sint w mod 2 ^ 64" by (simp only: uint_word_of_int) simp
  also have "\<dots> = sint w" using nonneg sint_lt [of w] by simp
  finally show ?thesis .
qed

lemma unat_nonneg_sint: "0 \<le> sint w \<Longrightarrow> unat (w :: 64 word) = nat (sint w)"
  by (simp add: uint_nonneg_sint flip: nat_uint_eq)

lemma sint_time_sub: "sint (time_sub t u) = max min_duration (min max_duration (t - u))"
  unfolding time_sub_def
  by (rule sint_word_of_int_in_range) (auto simp: min_duration_def max_duration_def)

lemma time_add_sub:
  assumes "min_duration \<le> t - u" and "t - u \<le> max_duration"
  shows "time_add u (time_sub t u) = t"
  using assms by (simp add: time_add_def sint_time_sub)

section \<open>The runtime an operation sees\<close>

text \<open>
  The readings \<open>time.Now()\<close> returns during one operation, numbered by the calls in the order
  of the source (a branch that is not taken leaves its reading unused), and the order in which
  a \<open>range\<close> over a map visits its keys. Go promises of the latter only that every key is
  visited exactly once. \<open>float_text\<close> is the shortest decimal form \<open>strconv\<close> gives a double,
  which appears in texts only: no property depends on it.
\<close>

record runtime =
  now_at :: "nat \<Rightarrow> time"
  range_order :: "string list \<Rightarrow> string list"
  float_text :: "64 word \<Rightarrow> string"

definition rt_ok :: "runtime \<Rightarrow> bool" where
  "rt_ok rt \<longleftrightarrow> (\<forall>xs. mset (range_order rt xs) = mset xs)"

lemma set_range_order: "rt_ok rt \<Longrightarrow> set (range_order rt xs) = set xs"
  by (metis rt_ok_def set_mset_mset)

lemma distinct_range_order: "rt_ok rt \<Longrightarrow> distinct xs \<Longrightarrow> distinct (range_order rt xs)"
  by (metis distinct_count_atmost_1 rt_ok_def set_range_order)

text \<open>A runtime for evaluation: a clock that stands at \<open>t\<close>, and maps visited as stored.\<close>

definition rt_at :: "time \<Rightarrow> runtime" where
  "rt_at t = \<lparr>now_at = (\<lambda>_. t), range_order = (\<lambda>xs. xs), float_text = (\<lambda>_. ''?'')\<rparr>"

lemma rt_at_sel [simp]: "now_at (rt_at t) = (\<lambda>_. t)" "range_order (rt_at t) = (\<lambda>xs. xs)"
  by (simp_all add: rt_at_def)

lemma rt_ok_rt_at [simp]: "rt_ok (rt_at t)"
  by (simp add: rt_ok_def)

section \<open>Association lists\<close>

lemma map_of_alist_update [simp]:
  "map_of (AList.update k v al) = (map_of al)(k \<mapsto> v)"
  by (rule update_conv')

lemma map_of_alist_delete [simp]:
  "map_of (AList.delete k al) = (map_of al)(k := None)"
  by (rule delete_conv')

lemma fst_set_map_of: "k \<in> fst ` set al \<longleftrightarrow> map_of al k \<noteq> None"
  by (simp add: map_of_eq_None_iff)

lemma dom_map_of_keys: "dom (map_of al) = set (map fst al)"
  by (simp add: dom_map_of_conv_image_fst)

section \<open>All or nothing over a list\<close>

lemma those_Some: "those xs = Some ys \<longleftrightarrow> xs = map Some ys"
  by (induction xs arbitrary: ys) (auto split: option.splits)

lemma those_map_Some: "those (map f xs) = Some ys \<longleftrightarrow> list_all2 (\<lambda>x y. f x = Some y) xs ys"
  unfolding those_Some
  by (auto simp: list_all2_conv_all_nth list_eq_iff_nth_eq)

lemma those_map_id: "(\<And>x. x \<in> set xs \<Longrightarrow> f x = Some (g x)) \<Longrightarrow> those (map f xs) = Some (map g xs)"
  by (induction xs) auto

lemma those_ex: "(\<And>x. x \<in> set xs \<Longrightarrow> \<exists>y. f x = Some y) \<Longrightarrow> \<exists>ys. those (map f xs) = Some ys"
  by (induction xs) fastforce+

lemma alist_update_fresh: "k \<notin> fst ` set al \<Longrightarrow> AList.update k v al = al @ [(k, v)]"
  by (induction al) auto

lemma alist_fold_distinct:
  "distinct (map fst (al @ kvs)) \<Longrightarrow> fold (\<lambda>(k, v). AList.update k v) kvs al = al @ kvs"
proof (induction kvs arbitrary: al)
  case (Cons p kvs)
  obtain k v where p: "p = (k, v)" by (cases p)
  with Cons.prems have "AList.update k v al = al @ [(k, v)]"
    by (intro alist_update_fresh) auto
  with Cons.IH [of "al @ [(k, v)]"] Cons.prems p show ?case by simp
qed simp

end
