(* ===== verification/Go_Value.thy ===== *)
theory Go_Value
  imports Prelude
begin

text \<open>
  The values an \<open>interface{}\<close> holds in this program, with their dynamic types: what
  \<open>encoding/json\<close> decodes (nil, bool, float64, string, \<open>[]interface{}\<close>,
  \<open>map[string]interface{}\<close>) and what the Go side stores directly (integers, \<open>[]string\<close>,
  maps with other key types). \<open>VFloat\<close> carries the bits of an IEEE double. The part of
  package \<open>reflect\<close> that the requests use (\<open>TypeOf\<close>, \<open>Kind\<close>, \<open>MapIndex\<close>) is written
  out, run-time panics included.
\<close>

section \<open>Types and values\<close>

datatype gotype =
    TyBool | TyInt | TyFloat64 | TyString | TyInterface
  | TySlice gotype
  | TyMap gotype gotype

datatype goval =
    VNil
  | VBool bool
  | VInt int64
  | VFloat "64 word"
  | VString string
  | VSlice gotype "goval list"
  | VMap gotype gotype "(goval \<times> goval) list"

datatype gokind = KBool | KInt | KFloat64 | KString | KInterface | KSlice | KMap

text \<open>\<open>reflect.TypeOf\<close>: the nil interface has no type (a nil \<open>reflect.Type\<close>).\<close>

fun type_of :: "goval \<Rightarrow> gotype option" where
  "type_of VNil = None"
| "type_of (VBool _) = Some TyBool"
| "type_of (VInt _) = Some TyInt"
| "type_of (VFloat _) = Some TyFloat64"
| "type_of (VString _) = Some TyString"
| "type_of (VSlice t _) = Some (TySlice t)"
| "type_of (VMap k t _) = Some (TyMap k t)"

fun kind_of_type :: "gotype \<Rightarrow> gokind" where
  "kind_of_type TyBool = KBool"
| "kind_of_type TyInt = KInt"
| "kind_of_type TyFloat64 = KFloat64"
| "kind_of_type TyString = KString"
| "kind_of_type TyInterface = KInterface"
| "kind_of_type (TySlice _) = KSlice"
| "kind_of_type (TyMap _ _) = KMap"

text \<open>\<open>reflect.TypeOf(v).Kind()\<close>: a method call on a nil interface panics.\<close>

definition kind_of :: "goval \<Rightarrow> gokind res" where
  "kind_of v = (case type_of v of None \<Rightarrow> Inl NilDereference | Some t \<Rightarrow> Inr (kind_of_type t))"

lemma kind_of_simps [simp]:
  "kind_of VNil = Inl NilDereference"
  "kind_of (VBool b) = Inr KBool"
  "kind_of (VInt i) = Inr KInt"
  "kind_of (VFloat f) = Inr KFloat64"
  "kind_of (VString s) = Inr KString"
  "kind_of (VSlice t xs) = Inr KSlice"
  "kind_of (VMap k t kvs) = Inr KMap"
  by (simp_all add: kind_of_def)

section \<open>Keys of maps\<close>

text \<open>Equality of doubles: NaN equals nothing, the two zeros are equal.\<close>

definition float_is_nan :: "64 word \<Rightarrow> bool" where
  "float_is_nan f \<longleftrightarrow> take_bit 63 (uint f) > 0x7FF0000000000000"

definition float_eq :: "64 word \<Rightarrow> 64 word \<Rightarrow> bool" where
  "float_eq a b \<longleftrightarrow> \<not> float_is_nan a \<and> \<not> float_is_nan b \<and>
     (a = b \<or> (take_bit 63 (uint a) = 0 \<and> take_bit 63 (uint b) = 0))"

fun key_eq :: "goval \<Rightarrow> goval \<Rightarrow> bool" where
  "key_eq (VFloat a) (VFloat b) = float_eq a b"
| "key_eq a b = (a = b)"

text \<open>Slices and maps have no hash: a lookup with one of them panics.\<close>

fun hashable :: "goval \<Rightarrow> bool" where
  "hashable (VSlice _ _) = False"
| "hashable (VMap _ _ _) = False"
| "hashable _ = True"

fun entry_lookup :: "(goval \<times> goval) list \<Rightarrow> goval \<Rightarrow> goval option" where
  "entry_lookup [] k = None"
| "entry_lookup ((k', v) # kvs) k = (if key_eq k' k then Some v else entry_lookup kvs k)"

text \<open>
  \<open>reflect.Value.MapIndex\<close> on a map with key type \<open>kt\<close>. The zero \<open>reflect.Value\<close> (made from
  a nil interface) fails in \<open>assignTo\<close> by a nil dereference, a key of another type by a string
  panic, an unhashable key in the lookup itself (which an empty map never starts). \<open>Inr None\<close>
  is the zero Value that stands for a missing key.
\<close>

definition reflect_map_index :: "gotype \<Rightarrow> (goval \<times> goval) list \<Rightarrow> goval \<Rightarrow> goval option res" where
  "reflect_map_index kt kvs k =
     (case type_of k of
        None \<Rightarrow> Inl NilDereference
      | Some t \<Rightarrow>
          if t \<noteq> kt \<and> kt \<noteq> TyInterface then
            Inl (PanicText ''reflect.Value.MapIndex: value is not assignable to the key type'')
          else if kvs \<noteq> [] \<and> \<not> hashable k then
            Inl (PanicText ''runtime error: hash of unhashable type'')
          else Inr (entry_lookup kvs k))"

lemma map_index_string_key:
  "reflect_map_index TyString kvs (VString s) = Inr (entry_lookup kvs (VString s))"
  by (simp add: reflect_map_index_def)

end
