(* ===== verification/Hash_Table.thy ===== *)
theory Hash_Table
  imports Go_Value
begin

text \<open>
  Component \<open>container/hash/hash.go\<close>: records with their metadata and \<open>unsafeHash\<close>, the map
  with a cached list of keys. The map itself is an association list with distinct keys; the
  \<open>dirty\<close> flag and the list \<open>keys\<close> are fields as in the code. The interface \<open>hash.Hash\<close> is a
  record of operations (an interface value), and the locale \<open>hash_impl\<close> says what its clients
  may rely on; \<open>unsafeHash\<close> provides it here, the store with expiration in its own theory.
\<close>

section \<open>Records\<close>

record meta =
  index :: int64
  expire_time :: duration
  accessed_at :: time
  created_at :: time
  updated_at :: time

record hrecord =
  rmeta :: meta
  rdata :: goval

definition meta_zero :: meta where
  "meta_zero = \<lparr>index = 0, expire_time = 0, accessed_at = time_zero,
     created_at = time_zero, updated_at = time_zero\<rparr>"

definition record_zero :: hrecord where
  "record_zero = \<lparr>rmeta = meta_zero, rdata = VNil\<rparr>"

definition is_permanent :: "hrecord \<Rightarrow> bool" where
  "is_permanent r \<longleftrightarrow> sint (expire_time (rmeta r)) \<le> 0"

definition is_expired :: "time \<Rightarrow> hrecord \<Rightarrow> bool" where
  "is_expired now r =
     (if is_permanent r then False
      else let live = time_sub now (created_at (rmeta r))
           in sint live > sint (expire_time (rmeta r)))"

definition expires_at :: "hrecord \<Rightarrow> time" where
  "expires_at r = time_add (created_at (rmeta r)) (expire_time (rmeta r))"

section \<open>The table\<close>

record unsafe_hash =
  records :: "(string \<times> hrecord) list"
  hkeys :: "string list"
  dirty :: bool

definition new_unsafe_hash :: "unsafe_hash" where
  "new_unsafe_hash = \<lparr>records = [], hkeys = [], dirty = False\<rparr>"

definition unsafe_keys :: "runtime \<Rightarrow> unsafe_hash \<Rightarrow> unsafe_hash \<times> string list" where
  "unsafe_keys rt h =
     (if \<not> dirty h then (h, hkeys h)
      else let ks = range_order rt (map fst (records h))
           in (h\<lparr>hkeys := ks, dirty := False\<rparr>, ks))"

definition unsafe_load :: "runtime \<Rightarrow> unsafe_hash \<Rightarrow> string \<Rightarrow> hrecord option" where
  "unsafe_load rt h key =
     (case map_of (records h) key of
        None \<Rightarrow> None
      | Some rec \<Rightarrow> Some (rec\<lparr>rmeta := (rmeta rec)\<lparr>accessed_at := now_at rt 0\<rparr>\<rparr>))"

definition unsafe_store ::
    "runtime \<Rightarrow> unsafe_hash \<Rightarrow> string \<Rightarrow> hrecord \<Rightarrow> unsafe_hash \<times> hrecord" where
  "unsafe_store rt h key rec =
     (let prevrec = (case map_of (records h) key of
                       Some r \<Rightarrow> r
                     | None \<Rightarrow> record_zero\<lparr>rmeta := meta_zero\<lparr>created_at := now_at rt 0\<rparr>\<rparr>);
          h = (if \<not> dirty h then h\<lparr>hkeys := hkeys h @ [key]\<rparr> else h);
          prevrec = prevrec\<lparr>
            rmeta := (rmeta prevrec)\<lparr>
              index := index (rmeta prevrec) + 1,
              updated_at := now_at rt 1,
              expire_time := expire_time (rmeta rec)\<rparr>,
            rdata := rdata rec\<rparr>
      in (h\<lparr>records := AList.update key prevrec (records h)\<rparr>, prevrec))"

definition unsafe_delete :: "unsafe_hash \<Rightarrow> string \<Rightarrow> unsafe_hash" where
  "unsafe_delete h key =
     (let h = (case map_of (records h) key of Some _ \<Rightarrow> h\<lparr>dirty := True\<rparr> | None \<Rightarrow> h)
      in h\<lparr>records := AList.delete key (records h)\<rparr>)"

section \<open>What the operations do to the map\<close>

definition hash_abs :: "unsafe_hash \<Rightarrow> string \<Rightarrow> hrecord option" where
  "hash_abs h = map_of (records h)"

text \<open>The record a store leaves under a key, given what was there and the two readings.\<close>

definition stored :: "time \<Rightarrow> time \<Rightarrow> hrecord option \<Rightarrow> hrecord \<Rightarrow> hrecord" where
  "stored created updated prev rec =
     \<lparr>rmeta = \<lparr>index = (case prev of None \<Rightarrow> 1 | Some r \<Rightarrow> index (rmeta r) + 1),
               expire_time = expire_time (rmeta rec),
               accessed_at = (case prev of None \<Rightarrow> time_zero | Some r \<Rightarrow> accessed_at (rmeta r)),
               created_at = (case prev of None \<Rightarrow> created | Some r \<Rightarrow> created_at (rmeta r)),
               updated_at = updated\<rparr>,
      rdata = rdata rec\<rparr>"

text \<open>What a load changes in the copy it returns (the table keeps the record as it was).\<close>

definition touch :: "time \<Rightarrow> hrecord \<Rightarrow> hrecord" where
  "touch t r = r\<lparr>rmeta := (rmeta r)\<lparr>accessed_at := t\<rparr>\<rparr>"

lemma touch_sel [simp]:
  "rdata (touch t r) = rdata r"
  "index (rmeta (touch t r)) = index (rmeta r)"
  "expire_time (rmeta (touch t r)) = expire_time (rmeta r)"
  "created_at (rmeta (touch t r)) = created_at (rmeta r)"
  "updated_at (rmeta (touch t r)) = updated_at (rmeta r)"
  "accessed_at (rmeta (touch t r)) = t"
  by (simp_all add: touch_def)

lemma touch_expiry [simp]:
  "is_permanent (touch t r) = is_permanent r"
  "is_expired now (touch t r) = is_expired now r"
  "expires_at (touch t r) = expires_at r"
  by (simp_all add: is_permanent_def is_expired_def expires_at_def)

lemma stored_sel [simp]:
  "rdata (stored c u prev r) = rdata r"
  "expire_time (rmeta (stored c u prev r)) = expire_time (rmeta r)"
  "updated_at (rmeta (stored c u prev r)) = u"
  "is_permanent (stored c u prev r) = is_permanent r"
  by (simp_all add: stored_def is_permanent_def)

definition hash_inv :: "unsafe_hash \<Rightarrow> bool" where
  "hash_inv h \<longleftrightarrow> distinct (map fst (records h)) \<and>
     (\<not> dirty h \<longrightarrow> set (hkeys h) = dom (hash_abs h))"

lemma abs_new [table_simps]: "hash_abs new_unsafe_hash = Map.empty"
  by (simp add: hash_abs_def new_unsafe_hash_def)

lemma abs_keys [table_simps]: "hash_abs (fst (unsafe_keys rt h)) = hash_abs h"
  by (simp add: hash_abs_def unsafe_keys_def Let_def)

lemma stored_unsafe_store:
  "snd (unsafe_store rt h k r) = stored (now_at rt 0) (now_at rt 1) (hash_abs h k) r"
  by (simp add: unsafe_store_def stored_def hash_abs_def Let_def record_zero_def meta_zero_def
      split: option.splits)

lemma abs_store [table_simps]:
  "hash_abs (fst (unsafe_store rt h k r)) =
     (hash_abs h)(k \<mapsto> stored (now_at rt 0) (now_at rt 1) (hash_abs h k) r)"
  unfolding stored_unsafe_store [symmetric]
  by (simp add: hash_abs_def unsafe_store_def Let_def)

lemma abs_delete [table_simps]: "hash_abs (unsafe_delete h k) = (hash_abs h)(k := None)"
  by (auto simp: hash_abs_def unsafe_delete_def Let_def split: option.splits)

lemma unsafe_load_abs:
  "unsafe_load rt h k =
     map_option (touch (now_at rt 0)) (hash_abs h k)"
  by (simp add: unsafe_load_def hash_abs_def touch_def split: option.splits)

lemma inv_new [inv_intros]: "hash_inv new_unsafe_hash"
  by (simp add: hash_inv_def new_unsafe_hash_def hash_abs_def)

lemma inv_keys [inv_intros]: "rt_ok rt \<Longrightarrow> hash_inv h \<Longrightarrow> hash_inv (fst (unsafe_keys rt h))"
  by (auto simp: hash_inv_def unsafe_keys_def Let_def set_range_order hash_abs_def dom_map_of_keys)

lemma inv_store [inv_intros]: "hash_inv h \<Longrightarrow> hash_inv (fst (unsafe_store rt h k r))"
  by (auto simp: hash_inv_def table_simps)
     (auto simp: unsafe_store_def Let_def distinct_update split: if_splits)

lemma inv_delete [inv_intros]: "hash_inv h \<Longrightarrow> hash_inv (unsafe_delete h k)"
  by (auto simp: hash_inv_def table_simps)
     (auto simp: unsafe_delete_def Let_def distinct_delete hash_abs_def split: option.splits)

lemma keys_set:
  "rt_ok rt \<Longrightarrow> hash_inv h \<Longrightarrow> set (snd (unsafe_keys rt h)) = dom (hash_abs h)"
  by (auto simp: hash_inv_def unsafe_keys_def Let_def set_range_order hash_abs_def dom_map_of_keys)

section \<open>The interface hash.Hash\<close>

text \<open>
  An interface value of type \<open>hash.Hash\<close>: its four methods. The methods of a pointer receiver
  may change the state, so each returns the new one.
\<close>

record 's hash_ops =
  op_keys :: "runtime \<Rightarrow> 's \<Rightarrow> 's \<times> string list"
  op_load :: "runtime \<Rightarrow> 's \<Rightarrow> string \<Rightarrow> 's \<times> hrecord option"
  op_store :: "runtime \<Rightarrow> 's \<Rightarrow> string \<Rightarrow> hrecord \<Rightarrow> 's \<times> hrecord"
  op_delete :: "'s \<Rightarrow> string \<Rightarrow> 's"

definition unsafe_hash_ops :: "unsafe_hash hash_ops" where
  "unsafe_hash_ops =
     \<lparr>op_keys = unsafe_keys,
      op_load = (\<lambda>rt h k. (h, unsafe_load rt h k)),
      op_store = unsafe_store,
      op_delete = unsafe_delete\<rparr>"

text \<open>
  What the clients of the interface rely on. A missed load may remove the key it missed (the
  store drops an expired record), never another one; a permanent record is always found.
\<close>

locale hash_impl =
  fixes ops :: "'s hash_ops"
    and inv :: "'s \<Rightarrow> bool"
    and abs :: "'s \<Rightarrow> string \<Rightarrow> hrecord option"
  assumes keys_abs: "abs (fst (op_keys ops rt s)) = abs s"
    and keys_dom: "rt_ok rt \<Longrightarrow> inv s \<Longrightarrow> set (snd (op_keys ops rt s)) = dom (abs s)"
    and load_hit: "snd (op_load ops rt s k) = Some r \<Longrightarrow>
        abs (fst (op_load ops rt s k)) = abs s \<and>
        (\<exists>r0. abs s k = Some r0 \<and> r = touch (now_at rt 0) r0)"
    and load_miss: "snd (op_load ops rt s k) = None \<Longrightarrow>
        abs (fst (op_load ops rt s k)) = (abs s)(k := None)"
    and load_permanent: "abs s k = Some r \<Longrightarrow> is_permanent r \<Longrightarrow>
        snd (op_load ops rt s k) = Some (touch (now_at rt 0) r)"
    and store_abs: "abs (fst (op_store ops rt s k r)) =
        (abs s)(k \<mapsto> stored (now_at rt 0) (now_at rt 1) (abs s k) r)"
    and store_result: "snd (op_store ops rt s k r) =
        stored (now_at rt 0) (now_at rt 1) (abs s k) r"
    and delete_abs: "abs (op_delete ops s k) = (abs s)(k := None)"
    and keys_inv: "rt_ok rt \<Longrightarrow> inv s \<Longrightarrow> inv (fst (op_keys ops rt s))"
    and load_inv: "inv s \<Longrightarrow> inv (fst (op_load ops rt s k))"
    and store_inv: "inv s \<Longrightarrow> inv (fst (op_store ops rt s k r))"
    and delete_inv: "inv s \<Longrightarrow> inv (op_delete ops s k)"
begin

lemmas laws_abs = keys_abs store_abs delete_abs
lemmas laws_inv = keys_inv load_inv store_inv delete_inv

lemma load_absent:
  assumes "abs s k = None"
  shows "snd (op_load ops rt s k) = None"
  using assms load_hit [of rt s k] by (cases "snd (op_load ops rt s k)") auto

lemma load_other: "k' \<noteq> k \<Longrightarrow> abs (fst (op_load ops rt s k)) k' = abs s k'"
  using load_hit [of rt s k] load_miss [of rt s k]
  by (cases "snd (op_load ops rt s k)") auto

lemma load_after_store:
  assumes "is_permanent r"
  shows "snd (op_load ops rt' (fst (op_store ops rt s k r)) k) =
           Some (touch (now_at rt' 0) (stored (now_at rt 0) (now_at rt 1) (abs s k) r))"
  by (rule load_permanent) (simp_all add: store_abs assms)

lemma load_after_delete: "snd (op_load ops rt (op_delete ops s k) k) = None"
  by (rule load_absent) (simp add: delete_abs)

end

text \<open>An implementation that also finds every record it holds, permanent or not.\<close>

locale hash_impl_exact = hash_impl +
  assumes load_total: "abs s k = Some r \<Longrightarrow>
      snd (op_load ops rt s k) = Some (touch (now_at rt 0) r)"
begin

lemma load_exact: "snd (op_load ops rt s k) = map_option (touch (now_at rt 0)) (abs s k)"
  by (cases "abs s k") (simp_all add: load_absent load_total)

lemma load_keeps: "abs (fst (op_load ops rt s k)) = abs s"
proof (cases "abs s k")
  case None
  then show ?thesis using load_miss [of rt s k] by (simp add: load_absent fun_upd_idem)
next
  case (Some r)
  then show ?thesis using load_hit [of rt s k] by (simp add: load_total)
qed

end

interpretation uh: hash_impl_exact unsafe_hash_ops hash_inv hash_abs
proof unfold_locales
  fix rt :: runtime and s k r
  show "hash_abs (fst (op_keys unsafe_hash_ops rt s)) = hash_abs s"
    by (simp add: unsafe_hash_ops_def table_simps)
  show "hash_abs (fst (op_store unsafe_hash_ops rt s k r)) =
      (hash_abs s)(k \<mapsto> stored (now_at rt 0) (now_at rt 1) (hash_abs s k) r)"
    by (simp add: unsafe_hash_ops_def table_simps)
qed (auto simp: unsafe_hash_ops_def table_simps keys_set stored_unsafe_store unsafe_load_abs
       intro: inv_intros)

section \<open>Sequences of operations\<close>

datatype hash_op = HKeys | HLoad string | HStore string hrecord | HDelete string

datatype hash_out = OKeys "string list" | OLoad "hrecord option" | OStored hrecord | ODeleted

fun hash_exec :: "'s hash_ops \<Rightarrow> runtime \<Rightarrow> hash_op \<Rightarrow> 's \<Rightarrow> 's \<times> hash_out" where
  "hash_exec ops rt HKeys s = (let (s', ks) = op_keys ops rt s in (s', OKeys ks))"
| "hash_exec ops rt (HLoad k) s = (let (s', r) = op_load ops rt s k in (s', OLoad r))"
| "hash_exec ops rt (HStore k r) s = (let (s', r') = op_store ops rt s k r in (s', OStored r'))"
| "hash_exec ops rt (HDelete k) s = (op_delete ops s k, ODeleted)"

fun hash_run :: "'s hash_ops \<Rightarrow> (runtime \<times> hash_op) list \<Rightarrow> 's \<Rightarrow> 's \<times> hash_out list" where
  "hash_run ops [] s = (s, [])"
| "hash_run ops ((rt, x) # xs) s =
     (let (s', out) = hash_exec ops rt x s; (s'', outs) = hash_run ops xs s' in (s'', out # outs))"

text \<open>
  The abstract table: a partial map. Listing the keys promises the set of keys and nothing about
  order or multiplicity.
\<close>

fun spec_step ::
    "(string \<Rightarrow> hrecord option) \<Rightarrow> runtime \<Rightarrow> hash_op \<Rightarrow> hash_out \<Rightarrow> (string \<Rightarrow> hrecord option) \<Rightarrow> bool"
where
  "spec_step m rt HKeys out m' = (m' = m \<and> (\<exists>ks. out = OKeys ks \<and> set ks = dom m))"
| "spec_step m rt (HLoad k) out m' = (m' = m \<and> out = OLoad (map_option (touch (now_at rt 0)) (m k)))"
| "spec_step m rt (HStore k r) out m' =
     (let r' = stored (now_at rt 0) (now_at rt 1) (m k) r in m' = m(k \<mapsto> r') \<and> out = OStored r')"
| "spec_step m rt (HDelete k) out m' = (m' = m(k := None) \<and> out = ODeleted)"

fun spec_run ::
    "(string \<Rightarrow> hrecord option) \<Rightarrow> (runtime \<times> hash_op) list \<Rightarrow> hash_out list \<Rightarrow>
     (string \<Rightarrow> hrecord option) \<Rightarrow> bool"
where
  "spec_run m [] [] m' = (m' = m)"
| "spec_run m ((rt, x) # xs) (out # outs) m' =
     (\<exists>m1. spec_step m rt x out m1 \<and> spec_run m1 xs outs m')"
| "spec_run m _ _ m' = False"

definition runs_ok :: "(runtime \<times> hash_op) list \<Rightarrow> bool" where
  "runs_ok xs \<longleftrightarrow> list_all (\<lambda>(rt, _). rt_ok rt) xs"

lemma runs_ok_simps [simp]:
  "runs_ok []" "runs_ok ((rt, x) # xs) \<longleftrightarrow> rt_ok rt \<and> runs_ok xs"
  by (simp_all add: runs_ok_def)

context hash_impl
begin

lemma exec_inv: "rt_ok rt \<Longrightarrow> inv s \<Longrightarrow> inv (fst (hash_exec ops rt x s))"
  by (cases x) (auto simp: split_beta intro: laws_inv)

lemma run_inv: "runs_ok xs \<Longrightarrow> inv s \<Longrightarrow> inv (fst (hash_run ops xs s))"
  by (induction xs arbitrary: s) (auto simp: split_beta exec_inv)

end

context hash_impl_exact
begin

lemma exec_refines:
  "rt_ok rt \<Longrightarrow> inv s \<Longrightarrow>
     spec_step (abs s) rt x (snd (hash_exec ops rt x s)) (abs (fst (hash_exec ops rt x s)))"
  by (cases x) (auto simp: split_beta laws_abs keys_dom load_exact load_keeps store_result)

lemma run_refines:
  "runs_ok xs \<Longrightarrow> inv s \<Longrightarrow>
     spec_run (abs s) xs (snd (hash_run ops xs s)) (abs (fst (hash_run ops xs s)))"
proof (induction xs arbitrary: s)
  case (Cons p xs)
  obtain rt x where p: "p = (rt, x)" by (cases p)
  from Cons.prems p have ok: "rt_ok rt" "runs_ok xs" by simp_all
  have "spec_run (abs (fst (hash_exec ops rt x s))) xs
          (snd (hash_run ops xs (fst (hash_exec ops rt x s))))
          (abs (fst (hash_run ops xs (fst (hash_exec ops rt x s)))))"
    by (rule Cons.IH [OF ok(2) exec_inv [OF ok(1) Cons.prems(2)]])
  with exec_refines [OF ok(1) Cons.prems(2), of x] show ?case
    by (auto simp: p split_beta)
qed simp

end

text \<open>Stores only: the cached list of keys grows by every store, new key or not.\<close>

abbreviation stores_of :: "(runtime \<times> string \<times> hrecord) list \<Rightarrow> (runtime \<times> hash_op) list" where
  "stores_of xs \<equiv> map (\<lambda>(rt, k, r). (rt, HStore k r)) xs"

abbreviation run_hash :: "(runtime \<times> hash_op) list \<Rightarrow> unsafe_hash \<Rightarrow> unsafe_hash" where
  "run_hash xs h \<equiv> fst (hash_run unsafe_hash_ops xs h)"

lemma unsafe_store_clean:
  "\<not> dirty h \<Longrightarrow> \<not> dirty (fst (unsafe_store rt h k r)) \<and> hkeys (fst (unsafe_store rt h k r)) = hkeys h @ [k]"
  by (simp add: unsafe_store_def Let_def)

lemma run_stores_clean:
  "\<not> dirty h \<Longrightarrow> \<not> dirty (run_hash (stores_of xs) h) \<and>
     hkeys (run_hash (stores_of xs) h) = hkeys h @ map (\<lambda>(rt, k, r). k) xs"
proof (induction xs arbitrary: h)
  case (Cons p xs)
  obtain rt k r where p: "p = (rt, k, r)" by (cases p)
  from Cons.IH [of "fst (unsafe_store rt h k r)"] unsafe_store_clean [OF Cons.prems, of rt k r]
  show ?case by (simp add: p split_beta unsafe_hash_ops_def)
qed simp

lemma run_same_key:
  assumes "rs \<noteq> []"
  shows "\<exists>rec. hash_abs (run_hash (map (\<lambda>(rt, r). (rt, HStore k r)) rs) h) k = Some rec \<and>
     index (rmeta rec) = (case hash_abs h k of None \<Rightarrow> 0 | Some r \<Rightarrow> index (rmeta r)) + of_nat (length rs) \<and>
     created_at (rmeta rec) =
       (case hash_abs h k of None \<Rightarrow> now_at (fst (hd rs)) 0 | Some r \<Rightarrow> created_at (rmeta r)) \<and>
     updated_at (rmeta rec) = now_at (fst (last rs)) 1 \<and>
     expire_time (rmeta rec) = expire_time (rmeta (snd (last rs))) \<and>
     rdata rec = rdata (snd (last rs))"
  using assms
proof (induction rs arbitrary: h)
  case (Cons p rs)
  obtain rt r where p: "p = (rt, r)" by (cases p)
  let ?h = "fst (unsafe_store rt h k r)"
  have abs: "hash_abs ?h k = Some (stored (now_at rt 0) (now_at rt 1) (hash_abs h k) r)"
    by (simp add: table_simps)
  show ?case
  proof (cases "rs = []")
    case True
    then show ?thesis using abs
      by (simp add: p unsafe_hash_ops_def split_beta stored_def split: option.splits)
  next
    case False
    from Cons.IH [OF this, of ?h] abs show ?thesis using False
      by (auto simp: p unsafe_hash_ops_def split_beta stored_def ac_simps split: option.splits)
  qed
qed simp

lemma exec_accessed_zero:
  assumes "\<And>k r. hash_abs h k = Some r \<Longrightarrow> accessed_at (rmeta r) = time_zero"
    and "hash_abs (fst (hash_exec unsafe_hash_ops rt x h)) k = Some r"
  shows "accessed_at (rmeta r) = time_zero"
  using assms
  by (cases x) (auto simp: unsafe_hash_ops_def split_beta table_simps stored_def
      split: if_splits option.splits)

lemma run_accessed_zero:
  assumes "\<And>k r. hash_abs h k = Some r \<Longrightarrow> accessed_at (rmeta r) = time_zero"
    and "hash_abs (run_hash xs h) k = Some r"
  shows "accessed_at (rmeta r) = time_zero"
  using assms
proof (induction xs arbitrary: h)
  case (Cons p xs)
  obtain rt x where p: "p = (rt, x)" by (cases p)
  show ?case
  proof (rule Cons.IH)
    show "accessed_at (rmeta r') = time_zero"
      if "hash_abs (fst (hash_exec unsafe_hash_ops rt x h)) k' = Some r'" for k' r'
      using exec_accessed_zero [OF Cons.prems(1) that] .
    show "hash_abs (run_hash xs (fst (hash_exec unsafe_hash_ops rt x h))) k = Some r"
      using Cons.prems(2) by (simp add: p split_beta)
  qed
qed simp

section \<open>Properties\<close>

text \<open>C17. Any sequence of operations on a new table behaves as the same sequence on a partial
  map: every load returns what was stored last, every store and delete changes only its key, and
  the listing has exactly the keys of the map.\<close>

theorem hash_refines_map:
  assumes "runs_ok xs"
  shows "spec_run Map.empty xs (snd (hash_run unsafe_hash_ops xs new_unsafe_hash))
     (hash_abs (run_hash xs new_unsafe_hash))"
  using uh.run_refines [OF assms inv_new] by (simp add: abs_new)

definition sample_record :: "goval \<Rightarrow> hrecord" where
  "sample_record v = record_zero\<lparr>rdata := v\<rparr>"

definition sample_ops :: "(runtime \<times> hash_op) list" where
  "sample_ops =
     [(rt_at 10, HStore ''a'' (sample_record (VBool True))), (rt_at 20, HLoad ''a''),
      (rt_at 30, HStore ''b'' (sample_record VNil)), (rt_at 40, HDelete ''a''),
      (rt_at 50, HKeys), (rt_at 60, HLoad ''a'')]"

theorem hash_refines_map_witness:
  "spec_run Map.empty sample_ops (snd (hash_run unsafe_hash_ops sample_ops new_unsafe_hash))
     (hash_abs (run_hash sample_ops new_unsafe_hash))"
  by (rule hash_refines_map) (simp add: sample_ops_def)

text \<open>Once a key was deleted, the keys are listed again from the map: each of them once.\<close>

theorem keys_after_delete:
  assumes "rt_ok rt" and "hash_inv h" and "hash_abs h k \<noteq> None"
  shows "distinct (snd (unsafe_keys rt (unsafe_delete h k))) \<and>
     set (snd (unsafe_keys rt (unsafe_delete h k))) = dom (hash_abs h) - {k}"
proof
  have "dirty (unsafe_delete h k)"
    using assms(3) by (auto simp: unsafe_delete_def hash_abs_def)
  moreover have "distinct (map fst (records (unsafe_delete h k)))"
    using inv_delete [OF assms(2), of k] by (simp add: hash_inv_def)
  ultimately show "distinct (snd (unsafe_keys rt (unsafe_delete h k)))"
    by (simp add: unsafe_keys_def Let_def distinct_range_order [OF assms(1)])
  show "set (snd (unsafe_keys rt (unsafe_delete h k))) = dom (hash_abs h) - {k}"
    using keys_set [OF assms(1) inv_delete [OF assms(2)], of k] by (simp add: abs_delete)
qed

definition sample_hash :: unsafe_hash where
  "sample_hash = run_hash (take 3 sample_ops) new_unsafe_hash"

theorem keys_after_delete_witness:
  "distinct (snd (unsafe_keys (rt_at 0) (unsafe_delete sample_hash ''a''))) \<and>
   set (snd (unsafe_keys (rt_at 0) (unsafe_delete sample_hash ''a''))) = dom (hash_abs sample_hash) - {''a''}"
proof (rule keys_after_delete)
  show "hash_inv sample_hash"
    unfolding sample_hash_def by (rule uh.run_inv [OF _ inv_new]) (simp add: sample_ops_def)
  show "hash_abs sample_hash ''a'' \<noteq> None"
    by (simp add: sample_hash_def sample_ops_def unsafe_hash_ops_def split_beta table_simps)
qed simp

text \<open>Until a key is deleted, the listing holds one entry for every store, so a key stored
  twice is listed twice.\<close>

theorem keys_list_every_store:
  "snd (unsafe_keys rt (run_hash (stores_of xs) new_unsafe_hash)) = map (\<lambda>(rt, k, r). k) xs"
  using run_stores_clean [of new_unsafe_hash xs] by (simp add: unsafe_keys_def new_unsafe_hash_def)

text \<open>The metadata of a key after stores to it: the index counts them (modulo the width), the
  creation time is that of the first and never changes, update time, expiration and data are
  those of the last, and the access time is never recorded.\<close>

theorem same_key_metadata:
  assumes "rs \<noteq> []"
  shows "\<exists>rec. hash_abs (run_hash (map (\<lambda>(rt, r). (rt, HStore k r)) rs) new_unsafe_hash) k = Some rec \<and>
     index (rmeta rec) = of_nat (length rs) \<and>
     created_at (rmeta rec) = now_at (fst (hd rs)) 0 \<and>
     updated_at (rmeta rec) = now_at (fst (last rs)) 1 \<and>
     accessed_at (rmeta rec) = time_zero \<and>
     expire_time (rmeta rec) = expire_time (rmeta (snd (last rs))) \<and>
     rdata rec = rdata (snd (last rs))"
proof -
  have "accessed_at (rmeta r) = time_zero" if "hash_abs (run_hash xs new_unsafe_hash) k = Some r" for xs r
    using run_accessed_zero [OF _ that] by (simp add: abs_new)
  then show ?thesis using run_same_key [OF assms, where h = new_unsafe_hash and k = k] by (fastforce simp: abs_new)
qed

theorem same_key_metadata_witness:
  "\<exists>rec. hash_abs (run_hash (map (\<lambda>(rt, r). (rt, HStore ''k'' r))
        [(rt_at 5, sample_record VNil), (rt_at 9, sample_record (VBool True))]) new_unsafe_hash) ''k'' = Some rec \<and>
     index (rmeta rec) = 2 \<and> created_at (rmeta rec) = 5 \<and> updated_at (rmeta rec) = 9 \<and>
     accessed_at (rmeta rec) = time_zero \<and> rdata rec = VBool True"
  using same_key_metadata [of "[(rt_at 5, sample_record VNil), (rt_at 9, sample_record (VBool True))]" "''k''"]
  by (auto simp: sample_record_def)

end
