(* ===== verification/Go_Text.thy ===== *)
theory Go_Text
  imports Go_Value
begin

text \<open>
  The texts the program produces with package \<open>fmt\<close>: decimal integers (\<open>%d\<close>), interface
  values (\<open>%v\<close>) and durations (\<open>Duration.String\<close>, which \<open>%s\<close> calls), byte by byte.
\<close>

section \<open>Decimal integers\<close>

definition digit :: "nat \<Rightarrow> char" where
  "digit d = char_of (48 + d)"

fun nat_text :: "nat \<Rightarrow> string" where
  "nat_text n = (if n < 10 then [digit n] else nat_text (n div 10) @ [digit (n mod 10)])"

declare nat_text.simps [simp del]

definition int_text :: "int \<Rightarrow> string" where
  "int_text i = (if i < 0 then ''-'' @ nat_text (nat (- i)) else nat_text (nat i))"

section \<open>Interface values\<close>

fun join_text :: "string \<Rightarrow> string list \<Rightarrow> string" where
  "join_text sep [] = []"
| "join_text sep [x] = x"
| "join_text sep (x # xs) = x @ sep @ join_text sep xs"

text \<open>\<open>%v\<close>; entries of a map are shown as stored (Go leaves their order open).\<close>

fun fmt_v :: "(64 word \<Rightarrow> string) \<Rightarrow> goval \<Rightarrow> string" where
  "fmt_v ft VNil = ''<nil>''"
| "fmt_v ft (VBool b) = (if b then ''true'' else ''false'')"
| "fmt_v ft (VInt i) = int_text (sint i)"
| "fmt_v ft (VFloat f) = ft f"
| "fmt_v ft (VString s) = s"
| "fmt_v ft (VSlice t xs) = ''['' @ join_text '' '' (map (fmt_v ft) xs) @ '']''"
| "fmt_v ft (VMap kt t kvs) =
     ''map['' @ join_text '' '' (map (\<lambda>(k, v). fmt_v ft k @ '':'' @ fmt_v ft v) kvs) @ '']''"

section \<open>Durations\<close>

text \<open>
  \<open>fmtFrac\<close>: the fraction \<open>v / 10 ^ prec\<close> without trailing zeros, and without the point when
  nothing is left of it. The digits are produced from the last one, as the code fills its
  buffer from the end; \<open>shown\<close> says that a non-zero digit has been written.
\<close>

fun fmt_frac_loop :: "nat \<Rightarrow> nat \<Rightarrow> bool \<Rightarrow> string \<Rightarrow> bool \<times> string \<times> nat" where
  "fmt_frac_loop 0 v shown buf = (shown, buf, v)"
| "fmt_frac_loop (Suc prec) v shown buf =
     (let d = v mod 10; shown = (shown \<or> d \<noteq> 0)
      in fmt_frac_loop prec (v div 10) shown (if shown then digit d # buf else buf))"

definition fmt_frac :: "nat \<Rightarrow> nat \<Rightarrow> string \<Rightarrow> string \<times> nat" where
  "fmt_frac v prec buf =
     (let (shown, buf, v) = fmt_frac_loop prec v False buf
      in (if shown then CHR ''.'' # buf else buf, v))"

definition micro_sign :: string where
  "micro_sign = [char_of (0xC2 :: nat), char_of (0xB5 :: nat)]"

definition duration_nat_text :: "nat \<Rightarrow> string" where
  "duration_nat_text u =
     (if u = 0 then ''0s''
      else if u < 1000 then nat_text u @ ''ns''
      else if u < 1000000 then
        (let (buf, v) = fmt_frac u 3 (micro_sign @ ''s'') in nat_text v @ buf)
      else if u < 1000000000 then
        (let (buf, v) = fmt_frac u 6 ''ms'' in nat_text v @ buf)
      else
        (let (buf, v) = fmt_frac u 9 ''s'';
             buf = nat_text (v mod 60) @ buf; v = v div 60
         in if v = 0 then buf
            else let buf = nat_text (v mod 60) @ ''m'' @ buf; v = v div 60
                 in if v = 0 then buf else nat_text v @ ''h'' @ buf))"

definition duration_text :: "duration \<Rightarrow> string" where
  "duration_text d =
     (let i = sint d in if i < 0 then ''-'' @ duration_nat_text (nat (- i)) else duration_nat_text (nat i))"

end
