(* ===== verification/Requests.thy ===== *)
theory Requests
  imports Hash_Table Go_Text
begin

text \<open>
  Components \<open>container/store/request.go\<close> and \<open>container/store/error.go\<close>: the six requests,
  the table of their constructors by action name, their routing keys, texts and processing.
  \<open>Process\<close> takes any implementation of \<open>hash.Hash\<close>, so it takes the record of operations;
  its result is a panic, or the pair (record, error) of the code as a sum.
\<close>

section \<open>Errors\<close>

datatype store_error = ErrInternal string | ErrConflict string | ErrMissing string

fun error_text :: "store_error \<Rightarrow> string" where
  "error_text (ErrInternal t) = t"
| "error_text (ErrConflict t) = t"
| "error_text (ErrMissing t) = t"

section \<open>Requests\<close>

datatype request =
    RequestKeys (req_id: string)
  | RequestLoad (req_id: string) (req_key: string)
  | RequestStore (req_id: string) (req_expire: duration) (req_key: string) (req_data: goval)
  | RequestDelete (req_id: string) (req_key: string)
  | RequestListIndex (req_id: string) (req_key: string) (req_index: uint64)
  | RequestDictItem (req_id: string) (req_key: string) (req_item: goval)

abbreviation action_keys :: string where "action_keys \<equiv> ''keys''"
abbreviation action_load :: string where "action_load \<equiv> ''load''"
abbreviation action_store :: string where "action_store \<equiv> ''store''"
abbreviation action_delete :: string where "action_delete \<equiv> ''delete''"
abbreviation action_list_index :: string where "action_list_index \<equiv> ''index''"
abbreviation action_dict_item :: string where "action_dict_item \<equiv> ''item''"

definition request_map :: "(string \<times> request) list" where
  "request_map =
     [(action_keys, RequestKeys []),
      (action_load, RequestLoad [] []),
      (action_store, RequestStore [] 0 [] VNil),
      (action_delete, RequestDelete [] []),
      (action_list_index, RequestListIndex [] [] 0),
      (action_dict_item, RequestDictItem [] [] VNil)]"

definition make_request :: "string \<Rightarrow> string + request" where
  "make_request action =
     (case map_of request_map action of
        None \<Rightarrow> Inl (''store: invalid action '' @ action)
      | Some r \<Rightarrow> Inr r)"

fun req_action :: "request \<Rightarrow> string" where
  "req_action (RequestKeys _) = action_keys"
| "req_action (RequestLoad _ _) = action_load"
| "req_action (RequestStore _ _ _ _) = action_store"
| "req_action (RequestDelete _ _) = action_delete"
| "req_action (RequestListIndex _ _ _) = action_list_index"
| "req_action (RequestDictItem _ _ _) = action_dict_item"

fun req_hash :: "request \<Rightarrow> string" where
  "req_hash (RequestKeys _) = ''''"
| "req_hash (RequestLoad _ key) = key"
| "req_hash (RequestStore _ _ key _) = key"
| "req_hash (RequestDelete _ key) = key"
| "req_hash (RequestListIndex _ key _) = key"
| "req_hash (RequestDictItem _ key _) = key"

fun req_string :: "runtime \<Rightarrow> request \<Rightarrow> string" where
  "req_string rt (RequestKeys i) = ''id: '' @ i @ '', type: keys''"
| "req_string rt (RequestLoad i key) = ''id: '' @ i @ '', type: load, key: '' @ key"
| "req_string rt (RequestStore i expire key data) =
     ''id: '' @ i @ '', type: store, key: '' @ key @ '', data: '' @ fmt_v (float_text rt) data @
     '', expire_time: '' @ duration_text expire"
| "req_string rt (RequestDelete i key) = ''id: '' @ i @ '', type: delete, key: '' @ key"
| "req_string rt (RequestListIndex i key ix) =
     ''id: '' @ i @ '', type: list index, key: '' @ key @ '', index: '' @ nat_text (unat ix)"
| "req_string rt (RequestDictItem i key item) =
     ''id: '' @ i @ '', type: dict item, key: '' @ key @ '', item: '' @ fmt_v (float_text rt) item"

section \<open>Processing\<close>

text \<open>\<open>reflect.Value.Index\<close> on a slice; the Value of an element is always valid.\<close>

definition reflect_index :: "goval list \<Rightarrow> int \<Rightarrow> goval option res" where
  "reflect_index xs i =
     (if i < 0 \<or> int (length xs) \<le> i then Inl (PanicText ''reflect: slice index out of range'')
      else Inr (Some (xs ! nat i)))"

text \<open>The recovered panic of \<open>mapIndex\<close>: run-time errors are errors, other panics are strings.\<close>

fun panic_text :: "go_panic \<Rightarrow> string" where
  "panic_text DivideByZero = ''runtime error: integer divide by zero''"
| "panic_text IndexOutOfRange = ''runtime error: index out of range''"
| "panic_text NilDereference = ''runtime error: invalid memory address or nil pointer dereference''"
| "panic_text (PanicText t) = t"

definition map_index :: "gotype \<Rightarrow> (goval \<times> goval) list \<Rightarrow> goval \<Rightarrow> string + goval option" where
  "map_index kt kvs key =
     (case reflect_map_index kt kvs key of Inl p \<Rightarrow> Inl (panic_text p) | Inr v \<Rightarrow> Inr v)"

abbreviation missing_error :: "string \<Rightarrow> store_error" where
  "missing_error key \<equiv> ErrMissing (key @ '' does not exist'')"

definition select_index :: "string \<Rightarrow> uint64 \<Rightarrow> hrecord \<Rightarrow> (store_error + hrecord) res" where
  "select_index key ix rec =
     (case kind_of (rdata rec) of
        Inl p \<Rightarrow> Inl p
      | Inr _ \<Rightarrow>
          (case rdata rec of
             VSlice t xs \<Rightarrow>
               if word_of_nat (length xs) \<le> ix then
                 Inr (Inl (ErrConflict (''position '' @ nat_text (unat ix) @ '' is out of range'')))
               else
                 (case reflect_index xs (sint ix) of
                    Inl p \<Rightarrow> Inl p
                  | Inr None \<Rightarrow>
                      Inr (Inl (ErrInternal (''unexpected value at position '' @ nat_text (unat ix))))
                  | Inr (Some v) \<Rightarrow> Inr (Inr (rec\<lparr>rdata := v\<rparr>)))
           | _ \<Rightarrow> Inr (Inl (ErrConflict (key @ '' is not a list'')))))"

definition select_item ::
    "runtime \<Rightarrow> string \<Rightarrow> goval \<Rightarrow> hrecord \<Rightarrow> (store_error + hrecord) res" where
  "select_item rt key item rec =
     (case kind_of (rdata rec) of
        Inl p \<Rightarrow> Inl p
      | Inr _ \<Rightarrow>
          (case rdata rec of
             VMap kt t kvs \<Rightarrow>
               (case map_index kt kvs item of
                  Inl err \<Rightarrow>
                    Inr (Inl (ErrConflict (''item '' @ fmt_v (float_text rt) item @ '' is invalid'')))
                | Inr None \<Rightarrow>
                    Inr (Inl (ErrInternal (''unexpected value at key '' @ fmt_v (float_text rt) item)))
                | Inr (Some v) \<Rightarrow> Inr (Inr (rec\<lparr>rdata := v\<rparr>)))
           | _ \<Rightarrow> Inr (Inl (ErrConflict (key @ '' is not a dictionary'')))))"

type_synonym outcome = "(store_error + hrecord) res"

definition keys_process :: "'s hash_ops \<Rightarrow> runtime \<Rightarrow> 's \<Rightarrow> 's \<times> outcome" where
  "keys_process h rt s =
     (let (s', ks) = op_keys h rt s
      in (s', Inr (Inr (record_zero\<lparr>rdata := VSlice TyString (map VString ks)\<rparr>))))"

definition store_process ::
    "'s hash_ops \<Rightarrow> runtime \<Rightarrow> duration \<Rightarrow> string \<Rightarrow> goval \<Rightarrow> 's \<Rightarrow> 's \<times> outcome" where
  "store_process h rt expire key data s =
     (let (s', rec) = op_store h rt s key
            (record_zero\<lparr>rdata := data, rmeta := meta_zero\<lparr>expire_time := expire\<rparr>\<rparr>)
      in (s', Inr (Inr rec)))"

definition load_process :: "'s hash_ops \<Rightarrow> runtime \<Rightarrow> string \<Rightarrow> 's \<Rightarrow> 's \<times> outcome" where
  "load_process h rt key s =
     (case op_load h rt s key of
        (s', None) \<Rightarrow> (s', Inr (Inl (missing_error key)))
      | (s', Some rec) \<Rightarrow> (s', Inr (Inr rec)))"

definition delete_process :: "'s hash_ops \<Rightarrow> string \<Rightarrow> 's \<Rightarrow> 's \<times> outcome" where
  "delete_process h key s = (op_delete h s key, Inr (Inr record_zero))"

definition list_index_process ::
    "'s hash_ops \<Rightarrow> runtime \<Rightarrow> string \<Rightarrow> uint64 \<Rightarrow> 's \<Rightarrow> 's \<times> outcome" where
  "list_index_process h rt key ix s =
     (case op_load h rt s key of
        (s', None) \<Rightarrow> (s', Inr (Inl (missing_error key)))
      | (s', Some rec) \<Rightarrow> (s', select_index key ix rec))"

definition dict_item_process ::
    "'s hash_ops \<Rightarrow> runtime \<Rightarrow> string \<Rightarrow> goval \<Rightarrow> 's \<Rightarrow> 's \<times> outcome" where
  "dict_item_process h rt key item s =
     (case op_load h rt s key of
        (s', None) \<Rightarrow> (s', Inr (Inl (missing_error key)))
      | (s', Some rec) \<Rightarrow> (s', select_item rt key item rec))"

text \<open>The method call \<open>r.Process(h)\<close> on the interface (\<open>Store.Serve\<close> is this call).\<close>

fun process :: "'s hash_ops \<Rightarrow> runtime \<Rightarrow> request \<Rightarrow> 's \<Rightarrow> 's \<times> outcome" where
  "process h rt (RequestKeys _) s = keys_process h rt s"
| "process h rt (RequestStore _ expire key data) s = store_process h rt expire key data s"
| "process h rt (RequestLoad _ key) s = load_process h rt key s"
| "process h rt (RequestDelete _ key) s = delete_process h key s"
| "process h rt (RequestListIndex _ key ix) s = list_index_process h rt key ix s"
| "process h rt (RequestDictItem _ key item) s = dict_item_process h rt key item s"

lemmas process_defs = keys_process_def store_process_def load_process_def delete_process_def
  list_index_process_def dict_item_process_def

declare process_defs [simp]

section \<open>Any implementation of hash.Hash\<close>

lemma make_request_action: "\<exists>proto. make_request (req_action r) = Inr proto \<and> req_action proto = req_action r"
  by (cases r) (simp_all add: make_request_def request_map_def)

abbreviation stored_request :: "runtime \<Rightarrow> hrecord option \<Rightarrow> duration \<Rightarrow> goval \<Rightarrow> hrecord" where
  "stored_request rt prev expire data \<equiv>
     stored (now_at rt 0) (now_at rt 1) prev
       (record_zero\<lparr>rdata := data, rmeta := meta_zero\<lparr>expire_time := expire\<rparr>\<rparr>)"

context hash_impl
begin

lemma process_inv: "rt_ok rt \<Longrightarrow> inv s \<Longrightarrow> inv (fst (process ops rt req s))"
proof (cases req)
  case (RequestLoad i key)
  then show "inv s \<Longrightarrow> ?thesis" using load_inv [of s rt key]
    by (auto split: prod.splits option.splits)
next
  case (RequestListIndex i key ix)
  then show "inv s \<Longrightarrow> ?thesis" using load_inv [of s rt key]
    by (auto split: prod.splits option.splits)
next
  case (RequestDictItem i key item)
  then show "inv s \<Longrightarrow> ?thesis" using load_inv [of s rt key]
    by (auto split: prod.splits option.splits)
qed (auto simp: split_beta intro: laws_inv)

text \<open>A request touches no record but the one under its routing key.\<close>

lemma process_frame:
  assumes "k \<noteq> req_hash req"
  shows "abs (fst (process ops rt req s)) k = abs s k"
proof (cases req)
  case (RequestLoad i key)
  then show ?thesis using assms load_other [of k key rt s]
    by (auto split: prod.splits option.splits)
next
  case (RequestListIndex i key ix)
  then show ?thesis using assms load_other [of k key rt s]
    by (auto split: prod.splits option.splits)
next
  case (RequestDictItem i key item)
  then show ?thesis using assms load_other [of k key rt s]
    by (auto split: prod.splits option.splits)
qed (use assms in \<open>auto simp: split_beta laws_abs\<close>)

lemma process_store:
  "snd (process ops rt (RequestStore i expire key data) s) =
     Inr (Inr (stored_request rt (abs s key) expire data))"
  "abs (fst (process ops rt (RequestStore i expire key data) s)) =
     (abs s)(key \<mapsto> stored_request rt (abs s key) expire data)"
  by (simp_all add: split_beta store_result store_abs)

lemma process_delete:
  "snd (process ops rt (RequestDelete i key) s) = Inr (Inr record_zero)"
  "abs (fst (process ops rt (RequestDelete i key) s)) = (abs s)(key := None)"
  by (simp_all add: delete_abs)

text \<open>The three reading requests on a key, by what the load finds.\<close>

lemma process_found:
  assumes "snd (op_load ops rt s key) = Some rec"
  shows "snd (process ops rt (RequestLoad i key) s) = Inr (Inr rec)"
    and "snd (process ops rt (RequestListIndex i key ix) s) = select_index key ix rec"
    and "snd (process ops rt (RequestDictItem i key item) s) = select_item rt key item rec"
  using assms by (auto split: prod.splits)

lemma process_missing:
  assumes "snd (op_load ops rt s key) = None"
  shows "snd (process ops rt (RequestLoad i key) s) = Inr (Inl (missing_error key))"
    and "snd (process ops rt (RequestListIndex i key ix) s) = Inr (Inl (missing_error key))"
    and "snd (process ops rt (RequestDictItem i key item) s) = Inr (Inl (missing_error key))"
  using assms by (auto split: prod.splits)

lemma process_load_permanent:
  assumes "abs s key = Some r" and "is_permanent r"
  shows "snd (process ops rt (RequestLoad i key) s) = Inr (Inr (touch (now_at rt 0) r))"
  by (rule process_found(1)) (rule load_permanent [OF assms])

lemma process_keys:
  assumes "rt_ok rt" and "inv s"
  shows "\<exists>ks. snd (process ops rt (RequestKeys i) s) =
       Inr (Inr (record_zero\<lparr>rdata := VSlice TyString (map VString ks)\<rparr>)) \<and> set ks = dom (abs s)"
  using keys_dom [OF assms] by (auto simp: split_beta)

end

section \<open>Selections\<close>

text \<open>The bound test keeps the conversion to \<open>int\<close> and the indexing safe.\<close>

lemma select_index_slice:
  assumes "rdata rec = VSlice t xs" and "length xs < 2 ^ 63"
  shows "select_index key ix rec =
     (if unat ix < length xs then Inr (Inr (rec\<lparr>rdata := xs ! unat ix\<rparr>))
      else Inr (Inl (ErrConflict (''position '' @ nat_text (unat ix) @ '' is out of range''))))"
proof -
  have len: "unat (word_of_nat (length xs) :: 64 word) = length xs"
    using assms(2) by (simp add: unat_of_nat)
  have le: "(word_of_nat (length xs) :: 64 word) \<le> ix \<longleftrightarrow> \<not> unat ix < length xs"
    by (simp add: word_le_nat_alt len not_less)
  have "sint ix = int (unat ix)" if "unat ix < length xs"
  proof -
    have "unat ix < 2 ^ 63" using that assms(2) by simp
    then have "int (unat ix) < int (2 ^ 63)" by (simp only: of_nat_less_iff)
    then have "uint ix < 2 ^ 63" by simp
    then have "signed_take_bit 63 (uint ix) = uint ix"
      by (intro signed_take_bit_int_eq_self) (use uint_ge_0 [of ix] in \<open>simp_all add: order_trans [of _ 0]\<close>)
    then show ?thesis by (simp add: sint_uint)
  qed
  then have "reflect_index xs (sint ix) = Inr (Some (xs ! n))" if "n = unat ix" "n < length xs" for n
    using that by (simp add: reflect_index_def del: of_nat_unat)
  then show ?thesis
    by (auto simp: select_index_def assms(1) le)
qed

lemma select_index_other:
  "rdata rec = VNil \<Longrightarrow> select_index key ix rec = Inl NilDereference"
  "rdata rec \<noteq> VNil \<Longrightarrow> (\<forall>t xs. rdata rec \<noteq> VSlice t xs) \<Longrightarrow>
     select_index key ix rec = Inr (Inl (ErrConflict (key @ '' is not a list'')))"
  by (cases "rdata rec"; simp add: select_index_def)+

lemma select_item_json:
  assumes "rdata rec = VMap TyString t kvs"
  shows "select_item rt key (VString s) rec =
     (case entry_lookup kvs (VString s) of
        Some v \<Rightarrow> Inr (Inr (rec\<lparr>rdata := v\<rparr>))
      | None \<Rightarrow> Inr (Inl (ErrInternal (''unexpected value at key '' @ s))))"
  by (simp add: select_item_def assms map_index_def map_index_string_key split: option.splits)

lemma select_item_not_string:
  assumes "rdata rec = VMap TyString t kvs" and "\<forall>s. item \<noteq> VString s"
  shows "select_item rt key item rec =
     Inr (Inl (ErrConflict (''item '' @ fmt_v (float_text rt) item @ '' is invalid'')))"
  using assms by (cases item) (simp_all add: select_item_def map_index_def reflect_map_index_def)

lemma select_item_panics: "select_item rt key item rec = Inl p \<longleftrightarrow> rdata rec = VNil \<and> p = NilDereference"
  by (cases "rdata rec") (auto simp: select_item_def split: sum.splits option.splits)

lemma select_index_panics:
  assumes "\<And>t xs. rdata rec = VSlice t xs \<Longrightarrow> length xs < 2 ^ 63"
  shows "select_index key ix rec = Inl p \<longleftrightarrow> rdata rec = VNil \<and> p = NilDereference"
  by (cases "rdata rec") (auto simp: select_index_slice [OF _ assms] select_index_other)

end
