(* ===== verification/Time_Heap.thy ===== *)
theory Time_Heap
  imports Prelude
begin

text \<open>
  Component \<open>container/store/time.go\<close>, first half: \<open>timeHeap\<close>, the slice of expiration entries
  that \<open>container/heap\<close> orders through \<open>Len\<close>, \<open>Less\<close>, \<open>Swap\<close>, \<open>Push\<close> and \<open>Pop\<close>. The
  store calls \<open>heap.Push\<close> (append and sift up), but reads with the method \<open>Peek\<close> and removes
  with the method \<open>Pop\<close>, which both work on the last slot of the slice.
\<close>

section \<open>The slice and its methods\<close>

record 'd elem =
  etime :: time
  edata :: 'd

type_synonym 'd theap = "'d elem list"

definition new_time_heap :: "'d theap" where
  "new_time_heap = []"

definition heap_len :: "'d theap \<Rightarrow> nat" where
  "heap_len h = length h"

definition heap_less :: "'d theap \<Rightarrow> nat \<Rightarrow> nat \<Rightarrow> bool" where
  "heap_less h i j = (etime (h ! i) < etime (h ! j))"

definition heap_swap :: "'d theap \<Rightarrow> nat \<Rightarrow> nat \<Rightarrow> 'd theap" where
  "heap_swap h i j = h[i := h ! j, j := h ! i]"

definition heap_peek :: "'d theap \<Rightarrow> 'd elem option" where
  "heap_peek h = (if heap_len h \<noteq> 0 then Some (h ! (length h - 1)) else None)"

definition heap_append :: "'d theap \<Rightarrow> 'd elem \<Rightarrow> 'd theap" where
  "heap_append h v = h @ [v]"

definition heap_pop :: "'d theap \<Rightarrow> ('d theap \<times> 'd elem) res" where
  "heap_pop h =
     (let n = length h
      in if n = 0 then Inl IndexOutOfRange else Inr (take (n - 1) h, h ! (n - 1)))"

section \<open>heap.Push of the standard library\<close>

abbreviation parent :: "nat \<Rightarrow> nat" where
  "parent j \<equiv> (j - 1) div 2"

function heap_up :: "'d theap \<Rightarrow> nat \<Rightarrow> 'd theap" where
  "heap_up h j =
     (let i = parent j
      in if i = j \<or> \<not> heap_less h j i then h else heap_up (heap_swap h i j) i)"
  by pat_completeness auto
termination
  by (relation "measure snd") (auto simp: Let_def)

declare heap_up.simps [simp del]

definition heap_push :: "'d theap \<Rightarrow> 'd elem \<Rightarrow> 'd theap" where
  "heap_push h x = (let h' = heap_append h x in heap_up h' (heap_len h' - 1))"

section \<open>The heap property\<close>

definition heap_inv :: "'d theap \<Rightarrow> bool" where
  "heap_inv h \<longleftrightarrow> (\<forall>i < length h. 0 < i \<longrightarrow> etime (h ! parent i) \<le> etime (h ! i))"

text \<open>A heap with one defect, at slot \<open>j\<close>, which may be smaller than its parent.\<close>

definition up_inv :: "'d theap \<Rightarrow> nat \<Rightarrow> bool" where
  "up_inv h j \<longleftrightarrow> j < length h \<and>
     (\<forall>i < length h. 0 < i \<longrightarrow> i \<noteq> j \<longrightarrow> etime (h ! parent i) \<le> etime (h ! i)) \<and>
     (\<forall>i < length h. 0 < i \<longrightarrow> parent i = j \<longrightarrow> 0 < j \<longrightarrow> etime (h ! parent j) \<le> etime (h ! i))"

lemma length_heap_swap [simp]: "length (heap_swap h i j) = length h"
  by (simp add: heap_swap_def)

lemma nth_heap_swap:
  "i < length h \<Longrightarrow> j < length h \<Longrightarrow> k < length h \<Longrightarrow>
     heap_swap h i j ! k = (if k = j then h ! i else if k = i then h ! j else h ! k)"
  by (auto simp: heap_swap_def nth_list_update)

lemma mset_heap_swap: "i < length h \<Longrightarrow> j < length h \<Longrightarrow> mset (heap_swap h i j) = mset h"
  by (auto simp: heap_swap_def intro: mset_swap)

lemma parent_less: "0 < j \<Longrightarrow> parent j < j"
  by auto

lemma up_inv_swap:
  assumes inv: "up_inv h j" and j: "0 < j" and less: "heap_less h j (parent j)"
  shows "up_inv (heap_swap h (parent j) j) (parent j)"
proof -
  let ?p = "parent j" and ?h = "heap_swap h (parent j) j"
  have jl: "j < length h" and pl: "?p < length h" and pj: "?p < j"
    using inv j parent_less [OF j] by (auto simp: up_inv_def)
  have nth: "?h ! k = (if k = j then h ! ?p else if k = ?p then h ! j else h ! k)" if "k < length h" for k
    using nth_heap_swap [OF pl jl that] .
  have lt: "etime (h ! j) < etime (h ! ?p)" using less by (simp add: heap_less_def)
  have ord: "etime (h ! parent i) \<le> etime (h ! i)" if "i < length h" "0 < i" "i \<noteq> j" for i
    using inv that by (simp add: up_inv_def)
  have grand: "etime (h ! ?p) \<le> etime (h ! i)" if "i < length h" "0 < i" "parent i = j" for i
    using inv j that unfolding up_inv_def by blast
  have par: "parent i < length h" if "i < length h" for i using that by auto
  have one: "etime (?h ! parent i) \<le> etime (?h ! i)" if i: "i < length h" "0 < i" "i \<noteq> ?p" for i
  proof (cases "i = j")
    case True
    then show ?thesis using nth [OF pl] nth [OF jl] lt pj by simp
  next
    case False
    have nparent: "parent i \<noteq> i" using i(2) parent_less [of i] by simp
    consider (child) "parent i = j" | (sibling) "parent i = ?p" | (other) "parent i \<noteq> j" "parent i \<noteq> ?p"
      by blast
    then show ?thesis
    proof cases
      case child
      then show ?thesis using nth [OF i(1)] nth [OF jl] grand [OF i(1,2)] i False by simp
    next
      case sibling
      then show ?thesis using nth [OF i(1)] nth [OF pl] ord [OF i(1,2) False] lt i False pj by simp
    next
      case other
      then show ?thesis
        using nth [OF i(1)] nth [OF par [OF i(1)]] ord [OF i(1,2) False] i False by simp
    qed
  qed
  have two: "etime (?h ! parent ?p) \<le> etime (?h ! i)"
    if i: "i < length h" "0 < i" "parent i = ?p" "0 < ?p" for i
  proof -
    have pp: "parent ?p < ?p" by (rule parent_less [OF i(4)])
    have g: "etime (h ! parent ?p) \<le> etime (h ! ?p)" using ord [OF pl i(4)] pj by simp
    have gi: "etime (h ! ?p) \<le> etime (h ! i)" if "i \<noteq> j" using ord [OF i(1,2) that] i(3) by simp
    have "?h ! parent ?p = h ! parent ?p" using nth [of "parent ?p"] pp pj pl by simp
    moreover have "?h ! i = (if i = j then h ! ?p else h ! i)"
      using nth [OF i(1)] i(3) parent_less [OF i(2)] by auto
    ultimately show ?thesis using g gi by auto
  qed
  show ?thesis unfolding up_inv_def using pl one two by auto
qed

lemma heap_up_inv: "up_inv h j \<Longrightarrow> heap_inv (heap_up h j) \<and> mset (heap_up h j) = mset h"
proof (induction h j rule: heap_up.induct)
  case (1 h j)
  show ?case
  proof (cases "parent j = j \<or> \<not> heap_less h j (parent j)")
    case True
    then have "heap_inv h"
      using "1.prems" by (auto simp: up_inv_def heap_inv_def heap_less_def)
    with True show ?thesis by (simp add: heap_up.simps [of h j] Let_def)
  next
    case False
    then have j: "0 < j" by (cases j) auto
    have "up_inv (heap_swap h (parent j) j) (parent j)"
      using up_inv_swap [OF "1.prems" j] False by simp
    moreover have "mset (heap_swap h (parent j) j) = mset h"
      using "1.prems" parent_less [OF j] by (auto simp: up_inv_def intro: mset_heap_swap)
    ultimately show ?thesis
      using "1.IH" False by (simp add: heap_up.simps [of h j] Let_def)
  qed
qed

lemma heap_push_inv:
  assumes "heap_inv h"
  shows "heap_inv (heap_push h x)" and "mset (heap_push h x) = add_mset x (mset h)"
proof -
  have "up_inv (h @ [x]) (length h)"
    unfolding up_inv_def
  proof (intro conjI allI impI)
    fix i assume "i < length (h @ [x])" "0 < i" "i \<noteq> length h"
    then have "i < length h" "parent i < length h" by auto
    with \<open>0 < i\<close> assms show "etime ((h @ [x]) ! parent i) \<le> etime ((h @ [x]) ! i)"
      by (simp add: nth_append heap_inv_def)
  next
    fix i assume "i < length (h @ [x])" "0 < i" "parent i = length h"
    then show "etime ((h @ [x]) ! parent (length h)) \<le> etime ((h @ [x]) ! i)" by auto
  qed simp
  from heap_up_inv [OF this]
  show "heap_inv (heap_push h x)" "mset (heap_push h x) = add_mset x (mset h)"
    by (simp_all add: heap_push_def heap_append_def heap_len_def)
qed

lemma set_heap_push: "heap_inv h \<Longrightarrow> set (heap_push h x) = insert x (set h)"
  using heap_push_inv(2) [of h x] by (metis set_mset_add_mset_insert set_mset_mset)

lemma heap_inv_butlast: "heap_inv h \<Longrightarrow> heap_inv (butlast h)"
  by (auto simp: heap_inv_def nth_butlast)

lemma heap_inv_new: "heap_inv new_time_heap"
  by (simp add: heap_inv_def new_time_heap_def)

lemma heap_root_min:
  assumes "heap_inv h" and "i < length h"
  shows "etime (h ! 0) \<le> etime (h ! i)"
  using assms(2)
proof (induction i rule: less_induct)
  case (less i)
  show ?case
  proof (cases "i = 0")
    case False
    with less have "etime (h ! 0) \<le> etime (h ! parent i)" by auto
    also have "\<dots> \<le> etime (h ! i)" using assms(1) less.prems False by (simp add: heap_inv_def)
    finally show ?thesis .
  qed simp
qed

lemma heap_peek_simps [simp]:
  "heap_peek [] = None"
  "heap_peek (h @ [x]) = Some x"
  by (simp_all add: heap_peek_def heap_len_def)

lemma heap_peek_last: "h \<noteq> [] \<Longrightarrow> heap_peek h = Some (last h)"
  by (simp add: heap_peek_def heap_len_def last_conv_nth)

lemma heap_pop_simps [simp]:
  "heap_pop [] = Inl IndexOutOfRange"
  "heap_pop (h @ [x]) = Inr (h, x)"
  by (simp_all add: heap_pop_def)

section \<open>The contract of the expiration queue\<close>

text \<open>
  What the sweeps of the store rely on: an entry pushed is an entry of the queue, \<open>pop\<close> takes
  out the very entry that \<open>peek\<close> showed, and \<open>peek\<close> is nil exactly when nothing is queued.
  That the entry is the earliest one is not part of the contract: it does not hold.
\<close>

locale expiry_queue =
  fixes push :: "'q \<Rightarrow> 'e \<Rightarrow> 'q"
    and peek :: "'q \<Rightarrow> 'e option"
    and pop :: "'q \<Rightarrow> ('q \<times> 'e) res"
    and inv :: "'q \<Rightarrow> bool"
    and contents :: "'q \<Rightarrow> 'e multiset"
  assumes push_inv: "inv q \<Longrightarrow> inv (push q x)"
    and push_contents: "inv q \<Longrightarrow> contents (push q x) = add_mset x (contents q)"
    and peek_None: "peek q = None \<longleftrightarrow> contents q = {#}"
    and peek_pop: "peek q = Some x \<Longrightarrow>
        \<exists>q'. pop q = Inr (q', x) \<and> contents q = add_mset x (contents q') \<and> (inv q \<longrightarrow> inv q')"
begin

lemma pop_shrinks:
  assumes "peek q = Some x" and "pop q = Inr (q', y)"
  shows "size (contents q') < size (contents q)"
  using peek_pop [OF assms(1)] assms(2) by auto

lemma pop_subset:
  assumes "peek q = Some x" and "pop q = Inr (q', y)"
  shows "set_mset (contents q') \<subseteq> set_mset (contents q)"
  using peek_pop [OF assms(1)] assms(2) by auto

lemma pop_no_panic: "peek q = Some x \<Longrightarrow> pop q \<noteq> Inl p"
  using peek_pop [of q x] by auto

lemma peek_queued: "peek q = Some x \<Longrightarrow> x \<in># contents q"
  using peek_pop [of q x] by auto

end

interpretation eq: expiry_queue heap_push heap_peek heap_pop heap_inv mset
proof unfold_locales
  fix q :: "'a theap" and x
  show "heap_inv q \<Longrightarrow> heap_inv (heap_push q x)"
    and "heap_inv q \<Longrightarrow> mset (heap_push q x) = add_mset x (mset q)"
    by (rule heap_push_inv, assumption)+
  show "heap_peek q = None \<longleftrightarrow> mset q = {#}"
    by (simp add: heap_peek_def heap_len_def)
  assume "heap_peek q = Some x"
  then show "\<exists>q'. heap_pop q = Inr (q', x) \<and> mset q = add_mset x (mset q') \<and>
      (heap_inv q \<longrightarrow> heap_inv q')"
    using heap_inv_butlast [of q] by (cases q rule: rev_cases) auto
qed

section \<open>Properties\<close>

text \<open>Pushing keeps the slice a heap of the same entries and the new one, whose first slot is
  the earliest of all.\<close>

theorem heap_push_correct:
  assumes "heap_inv h"
  shows "heap_inv (heap_push h x) \<and> mset (heap_push h x) = add_mset x (mset h) \<and>
     (\<forall>e \<in> set (heap_push h x). etime (heap_push h x ! 0) \<le> etime e)"
proof -
  have "etime (heap_push h x ! 0) \<le> etime e" if "e \<in> set (heap_push h x)" for e
    using that heap_root_min [OF eq.push_inv [OF assms, of x]] by (auto simp: in_set_conv_nth)
  with eq.push_inv [OF assms] eq.push_contents [OF assms] show ?thesis by blast
qed

definition sample_heap :: "string theap" where
  "sample_heap = [\<lparr>etime = 10, edata = ''a''\<rparr>, \<lparr>etime = 30, edata = ''b''\<rparr>, \<lparr>etime = 20, edata = ''c''\<rparr>]"

lemma sample_heap_inv: "heap_inv sample_heap"
  by (auto simp: heap_inv_def sample_heap_def less_Suc_eq)

theorem heap_push_correct_witness:
  "heap_inv (heap_push sample_heap \<lparr>etime = 5, edata = ''d''\<rparr>) \<and>
   mset (heap_push sample_heap \<lparr>etime = 5, edata = ''d''\<rparr>) =
     add_mset \<lparr>etime = 5, edata = ''d''\<rparr> (mset sample_heap) \<and>
   etime (heap_push sample_heap \<lparr>etime = 5, edata = ''d''\<rparr> ! 0) \<le> 5"
  using heap_push_correct [OF sample_heap_inv, of "\<lparr>etime = 5, edata = ''d''\<rparr>"]
  by (simp add: set_heap_push [OF sample_heap_inv])

text \<open>\<open>Peek\<close>, and \<open>Pop\<close> with it, takes the last slot of the slice, which is never the
  earliest entry of a heap of two or more entries with different times.\<close>

theorem peek_not_earliest:
  assumes "heap_inv h" and "2 \<le> length h" and "distinct (map etime h)"
  shows "\<exists>e q. heap_peek h = Some e \<and> heap_pop h = Inr (q, e) \<and> hd h \<in> set q \<and> etime (hd h) < etime e"
proof -
  from assms(2) obtain q e where h: "h = q @ [e]" by (cases h rule: rev_cases) auto
  with assms(2) have q: "q \<noteq> []" by auto
  then have hd: "hd h = h ! 0" "hd h \<in> set q" by (simp add: h hd_conv_nth, simp add: h)
  have "etime (h ! 0) \<le> etime (h ! length q)" by (rule heap_root_min [OF assms(1)]) (simp add: h)
  moreover have "etime (hd h) \<noteq> etime e" using assms(3) imageI [OF hd(2), of etime] by (auto simp: h)
  ultimately show ?thesis using hd by (simp add: h)
qed

theorem peek_not_earliest_witness:
  "\<exists>e q. heap_peek sample_heap = Some e \<and> heap_pop sample_heap = Inr (q, e) \<and>
     hd sample_heap \<in> set q \<and> etime (hd sample_heap) < etime e"
  by (rule peek_not_earliest [OF sample_heap_inv]) (simp_all add: sample_heap_def)

end
