(* ===== verification/Timer.thy ===== *)
theory Timer
  imports Prelude
begin

text \<open>
  Component \<open>container/store/time.go\<close>, second half: \<open>refreshTimer\<close>. A \<open>time.Timer\<close> made by
  \<open>time.AfterFunc(d, fn)\<close> is armed with the instant \<open>now + d\<close> at which its callback becomes
  due; \<open>Stop\<close> disarms it; a timer that fired or was stopped is \<open>Idle\<close>. Callbacks are data of
  type \<open>'f\<close> (the closures of the store capture only an instant).
\<close>

datatype 'f timer = NoTimer | Armed time 'f | Idle

fun timer_stop :: "'f timer \<Rightarrow> 'f timer" where
  "timer_stop NoTimer = NoTimer"
| "timer_stop (Armed due f) = Idle"
| "timer_stop Idle = Idle"

definition time_after_func :: "time \<Rightarrow> duration \<Rightarrow> 'f \<Rightarrow> 'f timer" where
  "time_after_func now d f = Armed (time_add now d) f"

record 'f refresh_timer =
  timer :: "'f timer"
  cutoff :: time

definition new_refresh_timer :: "'f refresh_timer" where
  "new_refresh_timer = \<lparr>timer = NoTimer, cutoff = time_zero\<rparr>"

definition after_func :: "time \<Rightarrow> time \<Rightarrow> 'f \<Rightarrow> 'f refresh_timer \<Rightarrow> 'f refresh_timer" where
  "after_func now t f rt =
     (if cutoff rt \<noteq> time_zero \<and> cutoff rt < t \<and> now < cutoff rt then rt
      else let rt = (if timer rt \<noteq> NoTimer then rt\<lparr>timer := timer_stop (timer rt)\<rparr> else rt);
               rt = rt\<lparr>cutoff := t\<rparr>
           in rt\<lparr>timer := time_after_func now (time_sub t now) f\<rparr>)"

text \<open>The runtime fires an armed timer at some instant not before it is due.\<close>

definition timer_fire :: "time \<Rightarrow> 'f refresh_timer \<Rightarrow> ('f \<times> 'f refresh_timer) option" where
  "timer_fire now rt =
     (case timer rt of
        Armed due f \<Rightarrow> if due \<le> now then Some (f, rt\<lparr>timer := Idle\<rparr>) else None
      | _ \<Rightarrow> None)"

section \<open>A planned run is never lost\<close>

definition armed :: "'f refresh_timer \<Rightarrow> bool" where
  "armed rt \<longleftrightarrow> (\<exists>due f. timer rt = Armed due f)"

text \<open>While the recorded cutoff lies ahead, a timer for that very instant is armed.\<close>

definition timer_inv :: "time \<Rightarrow> 'f refresh_timer \<Rightarrow> bool" where
  "timer_inv now rt \<longleftrightarrow> (now < cutoff rt \<longrightarrow> (\<exists>f. timer rt = Armed (cutoff rt) f))"

lemma timer_inv_new: "0 \<le> now \<Longrightarrow> timer_inv now new_refresh_timer"
  by (simp add: timer_inv_def new_refresh_timer_def)

lemma timer_inv_later: "timer_inv now rt \<Longrightarrow> now \<le> now' \<Longrightarrow> timer_inv now' rt"
  by (simp add: timer_inv_def)

lemma timer_inv_fire:
  assumes "timer_inv now rt" and "timer_fire now rt = Some (f, rt')"
  shows "timer_inv now rt'"
  using assms by (auto simp: timer_inv_def timer_fire_def split: timer.splits if_splits)

lemma after_func_cases:
  obtains (keep) "cutoff rt < t" "now < cutoff rt" "after_func now t f rt = rt"
  | (arm) "after_func now t f rt = \<lparr>timer = Armed (time_add now (time_sub t now)) f, cutoff = t\<rparr>"
proof (cases "cutoff rt \<noteq> time_zero \<and> cutoff rt < t \<and> now < cutoff rt")
  case True
  with keep show thesis by (simp add: after_func_def)
next
  case False
  then have "after_func now t f rt = \<lparr>timer = Armed (time_add now (time_sub t now)) f, cutoff = t\<rparr>"
    by (auto simp: after_func_def time_after_func_def Let_def)
  with arm show thesis .
qed

lemma due_no_saturation:
  assumes "t - now \<le> max_duration"
  shows "time_add now (time_sub t now) \<le> max now t"
    and "now < t \<Longrightarrow> time_add now (time_sub t now) = t"
  using assms by (auto simp: time_add_def sint_time_sub max_duration_def min_duration_def)

lemma timer_inv_after_func:
  assumes "timer_inv now rt" and "t - now \<le> max_duration"
  shows "timer_inv now (after_func now t f rt)"
  using assms(1) due_no_saturation(2) [OF assms(2)]
  by (cases rule: after_func_cases [where rt = rt and t = t and now = now and f = f])
     (simp_all add: timer_inv_def)

lemma armed_after_func: "timer_inv now rt \<Longrightarrow> armed (after_func now t f rt)"
  by (cases rule: after_func_cases [where rt = rt and t = t and now = now and f = f])
     (auto simp: timer_inv_def armed_def)

lemma after_func_due:
  assumes "timer_inv now rt" and "t - now \<le> max_duration"
  shows "\<exists>due g. timer (after_func now t f rt) = Armed due g \<and> due \<le> max now t"
  using assms(1) due_no_saturation(1) [OF assms(2)]
  by (cases rule: after_func_cases [where rt = rt and t = t and now = now and f = f])
     (auto simp: timer_inv_def)

end
