(* ===== verification/Store.thy ===== *)
theory Store
  imports Requests Time_Heap Timer
begin

text \<open>
  Component \<open>container/store/store.go\<close>: the hash table with expiration. Every exported method
  takes the lock \<open>worldMu\<close> for its whole body, so each is one atomic function of the state;
  \<open>deleteAfter\<close>, which takes the lock twice, is two functions. The closures given to the
  timer capture the cutoff they were scheduled for, which is the callback here.
\<close>

section \<open>State and operations\<close>

record store =
  hash_map :: unsafe_hash
  expire_heap :: "string theap"
  expire_timer :: "time refresh_timer"

text \<open>\<open>make\<close> with a negative capacity panics.\<close>

definition new_store :: "int64 \<Rightarrow> store res" where
  "new_store capacity =
     (if sint capacity < 0 then Inl (PanicText ''runtime error: makeslice: cap out of range'')
      else Inr \<lparr>hash_map = new_unsafe_hash, expire_heap = new_time_heap,
                expire_timer = new_refresh_timer\<rparr>)"

definition store_keys :: "runtime \<Rightarrow> store \<Rightarrow> store \<times> string list" where
  "store_keys rt s = (let (h, ks) = unsafe_keys rt (hash_map s) in (s\<lparr>hash_map := h\<rparr>, ks))"

definition store_load :: "runtime \<Rightarrow> store \<Rightarrow> string \<Rightarrow> store \<times> hrecord option" where
  "store_load rt s key =
     (case unsafe_load rt (hash_map s) key of
        None \<Rightarrow> (s, None)
      | Some rec \<Rightarrow>
          if is_expired (now_at rt 1) rec then
            (s\<lparr>hash_map := unsafe_delete (hash_map s) key\<rparr>, None)
          else (s, Some rec))"

definition store_store :: "runtime \<Rightarrow> store \<Rightarrow> string \<Rightarrow> hrecord \<Rightarrow> store \<times> hrecord" where
  "store_store rt s key rec =
     (let (h, rec) = unsafe_store rt (hash_map s) key rec;
          s = s\<lparr>hash_map := h\<rparr>
      in if is_permanent rec then (s, rec)
         else let till = expires_at rec;
                  s = s\<lparr>expire_heap := heap_push (expire_heap s) \<lparr>etime = till, edata = key\<rparr>\<rparr>;
                  s = s\<lparr>expire_timer := after_func (now_at rt 2) till till (expire_timer s)\<rparr>
              in (s, rec))"

definition store_delete :: "store \<Rightarrow> string \<Rightarrow> store" where
  "store_delete s key = s\<lparr>hash_map := unsafe_delete (hash_map s) key\<rparr>"

text \<open>The loop of \<open>DeleteExpiredKeys\<close>.\<close>

function (sequential) sweep ::
    "time \<Rightarrow> unsafe_hash \<Rightarrow> string theap \<Rightarrow> (unsafe_hash \<times> string theap) res" where
  "sweep till h q =
     (case heap_peek q of
        None \<Rightarrow> Inr (h, q)
      | Some next \<Rightarrow>
          if till < etime next then Inr (h, q)
          else let h' = unsafe_delete h (edata next)
               in (case heap_pop q of
                     Inl p \<Rightarrow> Inl p
                   | Inr (q', _) \<Rightarrow> sweep till h' q'))"
  by pat_completeness auto
termination
  by (relation "measure (\<lambda>(till, h, q). size (mset q))") (auto dest: eq.pop_shrinks simp del: size_mset)

declare sweep.simps [simp del]

definition delete_expired_keys :: "time \<Rightarrow> store \<Rightarrow> store res" where
  "delete_expired_keys till s =
     (case sweep till (hash_map s) (expire_heap s) of
        Inl p \<Rightarrow> Inl p
      | Inr (h, q) \<Rightarrow> Inr (s\<lparr>hash_map := h, expire_heap := q\<rparr>))"

text \<open>The second critical section of \<open>deleteAfter\<close>.\<close>

definition reschedule :: "time \<Rightarrow> store \<Rightarrow> store res" where
  "reschedule now s =
     (if heap_len (expire_heap s) = 0 then Inr s
      else case heap_peek (expire_heap s) of
             None \<Rightarrow> Inl NilDereference
           | Some elem \<Rightarrow>
               Inr (s\<lparr>expire_timer := after_func now (etime elem) (etime elem) (expire_timer s)\<rparr>))"

definition delete_after :: "time \<Rightarrow> time \<Rightarrow> store \<Rightarrow> store res" where
  "delete_after now till s =
     (case delete_expired_keys till s of Inl p \<Rightarrow> Inl p | Inr s' \<Rightarrow> reschedule now s')"

definition store_ops :: "store hash_ops" where
  "store_ops =
     \<lparr>op_keys = store_keys, op_load = store_load, op_store = store_store, op_delete = store_delete\<rparr>"

section \<open>The sweep\<close>

text \<open>
  The sweep takes entries from the end of the slice for as long as they are not after the
  cutoff: the entries taken are the longest such suffix.
\<close>

abbreviation due_suffix :: "time \<Rightarrow> 'd theap \<Rightarrow> 'd theap" where
  "due_suffix till q \<equiv> takeWhile (\<lambda>e. etime e \<le> till) (rev q)"

abbreviation kept_prefix :: "time \<Rightarrow> 'd theap \<Rightarrow> 'd theap" where
  "kept_prefix till q \<equiv> rev (dropWhile (\<lambda>e. etime e \<le> till) (rev q))"

lemma sweep_Nil: "sweep till h [] = Inr (h, [])"
  by (simp add: sweep.simps)

lemma sweep_snoc:
  "sweep till h (q @ [x]) =
     (if till < etime x then Inr (h, q @ [x]) else sweep till (unsafe_delete h (edata x)) q)"
  by (simp add: sweep.simps [of till h "q @ [x]"])

lemma sweep_result:
  "\<exists>h'. sweep till h q = Inr (h', kept_prefix till q) \<and>
     hash_abs h' = hash_abs h |` (- edata ` set (due_suffix till q)) \<and>
     (hash_inv h \<longrightarrow> hash_inv h')"
proof (induction q arbitrary: h rule: rev_induct)
  case Nil
  then show ?case by (simp add: sweep_Nil)
next
  case (snoc x q)
  show ?case
  proof (cases "till < etime x")
    case True
    then show ?thesis by (simp add: sweep_snoc)
  next
    case False
    obtain h' where h': "sweep till (unsafe_delete h (edata x)) q = Inr (h', kept_prefix till q)"
      "hash_abs h' = hash_abs (unsafe_delete h (edata x)) |` (- edata ` set (due_suffix till q))"
      "hash_inv (unsafe_delete h (edata x)) \<longrightarrow> hash_inv h'"
      using snoc.IH [of "unsafe_delete h (edata x)"] by blast
    have "hash_abs h' = hash_abs h |` (- edata ` set (due_suffix till (q @ [x])))"
      using h'(2) False by (auto simp: table_simps restrict_map_def fun_eq_iff)
    with h' False show ?thesis by (auto simp: sweep_snoc intro: inv_delete)
  qed
qed

lemma set_kept_prefix: "set (kept_prefix till q) \<subseteq> set q"
  by (auto dest: set_dropWhileD)

lemma kept_prefix_split: "q = kept_prefix till q @ rev (due_suffix till q)"
  by (simp flip: rev_append)

lemma heap_inv_prefix: "heap_inv (xs @ ys) \<Longrightarrow> heap_inv xs"
  by (induction ys rule: rev_induct) (auto dest: heap_inv_butlast simp flip: append_assoc)

lemma heap_inv_kept: "heap_inv q \<Longrightarrow> heap_inv (kept_prefix till q)"
  by (rule heap_inv_prefix [where ys = "rev (due_suffix till q)"]) (simp flip: kept_prefix_split)

lemma kept_last_after:
  assumes "kept_prefix till q \<noteq> []"
  shows "till < etime (last (kept_prefix till q))"
  using hd_dropWhile [of "\<lambda>e. etime e \<le> till" "rev q"] assms by (simp add: last_rev)

section \<open>The store as a hash table\<close>

definition store_abs :: "store \<Rightarrow> string \<Rightarrow> hrecord option" where
  "store_abs s = hash_abs (hash_map s)"

text \<open>Every temporary record is scheduled: its key and its expiration are queued.\<close>

definition scheduled :: "store \<Rightarrow> bool" where
  "scheduled s \<longleftrightarrow> (\<forall>k r. store_abs s k = Some r \<longrightarrow> \<not> is_permanent r \<longrightarrow>
     \<lparr>etime = expires_at r, edata = k\<rparr> \<in> set (expire_heap s))"

definition store_inv :: "store \<Rightarrow> bool" where
  "store_inv s \<longleftrightarrow> hash_inv (hash_map s) \<and> heap_inv (expire_heap s) \<and> scheduled s"

lemma store_abs_keys [table_simps]: "store_abs (fst (store_keys rt s)) = store_abs s"
  by (simp add: store_abs_def store_keys_def split_beta table_simps)

lemma store_keys_result: "snd (store_keys rt s) = snd (unsafe_keys rt (hash_map s))"
  by (simp add: store_keys_def split_beta)

lemma store_load_result:
  "snd (store_load rt s k) =
     (case store_abs s k of
        None \<Rightarrow> None
      | Some r \<Rightarrow> if is_expired (now_at rt 1) r then None else Some (touch (now_at rt 0) r))"
  by (simp add: store_load_def store_abs_def unsafe_load_abs split: option.splits)

lemma store_abs_load [table_simps]:
  "store_abs (fst (store_load rt s k)) =
     (if snd (store_load rt s k) = None then (store_abs s)(k := None) else store_abs s)"
  by (auto simp: store_load_def store_abs_def unsafe_load_abs table_simps fun_upd_idem split: option.splits)

lemma store_store_result [table_simps]:
  "snd (store_store rt s k r) = stored (now_at rt 0) (now_at rt 1) (store_abs s k) r"
  by (simp add: store_store_def store_abs_def split_beta Let_def stored_unsafe_store)

lemma store_abs_store [table_simps]:
  "store_abs (fst (store_store rt s k r)) =
     (store_abs s)(k \<mapsto> stored (now_at rt 0) (now_at rt 1) (store_abs s k) r)"
  by (simp add: store_store_def store_abs_def split_beta Let_def table_simps)

lemma store_abs_delete [table_simps]: "store_abs (store_delete s k) = (store_abs s)(k := None)"
  by (simp add: store_delete_def store_abs_def table_simps)

text \<open>The queue and the table after a store, in one view.\<close>

lemma store_store_fields:
  "hash_map (fst (store_store rt s k r)) = fst (unsafe_store rt (hash_map s) k r)"
  "expire_heap (fst (store_store rt s k r)) =
     (if is_permanent r then expire_heap s
      else heap_push (expire_heap s)
             \<lparr>etime = expires_at (snd (store_store rt s k r)), edata = k\<rparr>)"
  "expire_timer (fst (store_store rt s k r)) =
     (if is_permanent r then expire_timer s
      else let till = expires_at (snd (store_store rt s k r))
           in after_func (now_at rt 2) till till (expire_timer s))"
  by (simp_all add: store_store_def split_beta Let_def stored_unsafe_store)

lemma store_frame [simp]:
  "expire_heap (fst (store_keys rt s)) = expire_heap s"
  "expire_timer (fst (store_keys rt s)) = expire_timer s"
  "expire_heap (fst (store_load rt s k)) = expire_heap s"
  "expire_timer (fst (store_load rt s k)) = expire_timer s"
  "expire_heap (store_delete s k) = expire_heap s"
  "expire_timer (store_delete s k) = expire_timer s"
  by (auto simp: store_keys_def store_load_def store_delete_def split_beta split: option.splits)

lemma timer_frame [simp]:
  "store_abs (s\<lparr>expire_timer := tm\<rparr>) = store_abs s"
  "store_inv (s\<lparr>expire_timer := tm\<rparr>) = store_inv s"
  by (simp_all add: store_abs_def store_inv_def scheduled_def)

lemma store_inv_new: "new_store c = Inr s \<Longrightarrow> store_inv s"
  by (auto simp: new_store_def store_inv_def scheduled_def store_abs_def inv_new heap_inv_new
      table_simps split: if_splits)

lemma store_inv_keys: "rt_ok rt \<Longrightarrow> store_inv s \<Longrightarrow> store_inv (fst (store_keys rt s))"
  by (auto simp: store_inv_def scheduled_def table_simps)
     (auto simp: store_keys_def split_beta intro: inv_intros)

lemma store_inv_load: "store_inv s \<Longrightarrow> store_inv (fst (store_load rt s k))"
  by (auto simp: store_inv_def scheduled_def table_simps split: if_splits)
     (auto simp: store_load_def intro: inv_intros split: option.splits)

lemma store_inv_store:
  assumes "store_inv s"
  shows "store_inv (fst (store_store rt s k r))"
proof -
  from assms have h: "heap_inv (expire_heap s)" and sch: "scheduled s"
    by (simp_all add: store_inv_def)
  have "scheduled (fst (store_store rt s k r))"
    using sch unfolding scheduled_def
    by (auto simp: store_store_fields store_abs_store store_store_result set_heap_push [OF h])
  with assms show ?thesis
    by (auto simp: store_inv_def store_store_fields intro: inv_intros heap_push_inv)
qed

lemma store_inv_delete: "store_inv s \<Longrightarrow> store_inv (store_delete s k)"
  by (auto simp: store_inv_def scheduled_def table_simps)
     (auto simp: store_delete_def intro: inv_intros)

interpretation st: hash_impl store_ops store_inv store_abs
proof unfold_locales
  fix rt :: runtime and s k r
  show "rt_ok rt \<Longrightarrow> store_inv s \<Longrightarrow> set (snd (op_keys store_ops rt s)) = dom (store_abs s)"
    by (simp add: store_ops_def store_keys_result keys_set store_inv_def store_abs_def)
  show "store_abs s k = Some r \<Longrightarrow> is_permanent r \<Longrightarrow>
      snd (op_load store_ops rt s k) = Some (touch (now_at rt 0) r)"
    by (simp add: store_ops_def store_load_result is_expired_def)
qed (auto simp: store_ops_def table_simps store_load_result
       intro: store_inv_keys store_inv_load store_inv_store store_inv_delete
       split: option.splits if_splits)

section \<open>Expiration\<close>

lemma delete_expired_result:
  "\<exists>s'. delete_expired_keys till s = Inr s' \<and>
     expire_heap s' = kept_prefix till (expire_heap s) \<and>
     expire_timer s' = expire_timer s \<and>
     store_abs s' = store_abs s |` (- edata ` set (due_suffix till (expire_heap s))) \<and>
     (store_inv s \<longrightarrow> store_inv s')"
proof -
  obtain h where h: "sweep till (hash_map s) (expire_heap s) = Inr (h, kept_prefix till (expire_heap s))"
    "hash_abs h = hash_abs (hash_map s) |` (- edata ` set (due_suffix till (expire_heap s)))"
    "hash_inv (hash_map s) \<longrightarrow> hash_inv h"
    using sweep_result [of till "hash_map s" "expire_heap s"] by blast
  let ?s = "s\<lparr>hash_map := h, expire_heap := kept_prefix till (expire_heap s)\<rparr>"
  have "scheduled ?s" if "scheduled s"
    unfolding scheduled_def
  proof (intro allI impI)
    fix k r assume a: "store_abs ?s k = Some r" "\<not> is_permanent r"
    let ?e = "\<lparr>etime = expires_at r, edata = k\<rparr>"
    from a h(2) have "store_abs s k = Some r" and k: "k \<notin> edata ` set (due_suffix till (expire_heap s))"
      by (auto simp: store_abs_def restrict_map_def split: if_splits)
    with that a(2) have "?e \<in> set (expire_heap s)"
      by (simp add: scheduled_def)
    then have "?e \<in> set (kept_prefix till (expire_heap s)) \<union> set (due_suffix till (expire_heap s))"
      using arg_cong [OF kept_prefix_split [of "expire_heap s" till], of set] by auto
    with k show "?e \<in> set (expire_heap ?s)" by force
  qed
  then have "store_inv s \<longrightarrow> store_inv ?s"
    using h(3) by (auto simp: store_inv_def intro: heap_inv_kept)
  with h show ?thesis by (auto simp: delete_expired_keys_def store_abs_def)
qed

lemma reschedule_result:
  "reschedule now s =
     Inr (if expire_heap s = [] then s
          else s\<lparr>expire_timer := after_func now (etime (last (expire_heap s)))
                   (etime (last (expire_heap s))) (expire_timer s)\<rparr>)"
  by (simp add: reschedule_def heap_len_def heap_peek_last)

lemma delete_after_total: "\<exists>s'. delete_after now till s = Inr s'"
  using delete_expired_result [of till s] by (auto simp: delete_after_def reschedule_result)

section \<open>Properties\<close>

text \<open>C25. A sweep with a cutoff that no queued entry is after empties the queue and leaves no
  temporary record; a record whose key was not queued is never touched.\<close>

theorem sweep_complete:
  assumes "store_inv s" and "\<forall>e \<in> set (expire_heap s). etime e \<le> till"
  shows "\<exists>s'. delete_expired_keys till s = Inr s' \<and> expire_heap s' = [] \<and>
     (\<forall>k r. store_abs s' k = Some r \<longrightarrow> is_permanent r \<and> store_abs s k = Some r) \<and>
     (\<forall>k. k \<notin> edata ` set (expire_heap s) \<longrightarrow> store_abs s' k = store_abs s k)"
proof -
  have due: "due_suffix till (expire_heap s) = rev (expire_heap s)"
    "kept_prefix till (expire_heap s) = []" using assms(2) by simp_all
  obtain s' where s': "delete_expired_keys till s = Inr s'" "expire_heap s' = []"
    "store_abs s' = store_abs s |` (- edata ` set (expire_heap s))" "store_inv s'"
    using delete_expired_result [of till s] assms(1) unfolding due by auto
  have "is_permanent r" if "store_abs s' k = Some r" for k r
    using s'(2,4) that by (auto simp: store_inv_def scheduled_def)
  with s' show ?thesis by (auto simp: restrict_map_def split: if_splits)
qed

definition fresh_store :: store where
  "fresh_store = \<lparr>hash_map = new_unsafe_hash, expire_heap = [], expire_timer = new_refresh_timer\<rparr>"

lemma fresh_store_new: "new_store 4 = Inr fresh_store"
  by (simp add: new_store_def fresh_store_def new_time_heap_def)

lemma abs_fresh: "store_abs fresh_store = Map.empty"
  by (simp add: store_abs_def fresh_store_def abs_new)

definition temp_record :: "duration \<Rightarrow> hrecord" where
  "temp_record d = record_zero\<lparr>rmeta := meta_zero\<lparr>expire_time := d\<rparr>\<rparr>"

definition sample_store :: store where
  "sample_store = fst (store_store (rt_at 100) fresh_store ''a'' (temp_record 50))"

lemma sample_store_inv: "store_inv sample_store"
  unfolding sample_store_def by (intro store_inv_store store_inv_new [OF fresh_store_new])

lemma temp_record_sel [simp]:
  "expire_time (rmeta (temp_record d)) = d" "is_permanent (temp_record d) \<longleftrightarrow> sint d \<le> 0"
  by (simp_all add: temp_record_def is_permanent_def)

lemma sample_store_heap: "expire_heap sample_store = [\<lparr>etime = 150, edata = ''a''\<rparr>]"
  by (simp add: sample_store_def store_store_fields fresh_store_def store_store_result stored_def
      store_abs_def table_simps heap_push_def heap_append_def heap_len_def heap_up.simps Let_def
      expires_at_def time_add_def)

theorem sweep_complete_witness:
  "\<exists>s'. delete_expired_keys 150 sample_store = Inr s' \<and> expire_heap s' = [] \<and>
     (\<forall>k r. store_abs s' k = Some r \<longrightarrow> is_permanent r \<and> store_abs sample_store k = Some r) \<and>
     (\<forall>k. k \<notin> edata ` set (expire_heap sample_store) \<longrightarrow> store_abs s' k = store_abs sample_store k)"
  by (rule sweep_complete [OF sample_store_inv]) (simp add: sample_store_heap)

text \<open>A key written again with an expiration shorter than its age is gone at once: the
  expiration counts from the first creation, which the second store leaves in the record.\<close>

theorem rewritten_key_expires_at_once:
  assumes "store_abs s k = Some old" and "0 < sint (expire_time (rmeta r))"
    and "sint (expire_time (rmeta r)) < now_at rt' 1 - created_at (rmeta old)"
    and "sint (expire_time (rmeta r)) < max_duration"
  shows "snd (store_load rt' (fst (store_store rt s k r)) k) = None"
proof -
  let ?r = "stored (now_at rt 0) (now_at rt 1) (store_abs s k) r"
  have c: "created_at (rmeta ?r) = created_at (rmeta old)" by (simp add: stored_def assms(1))
  have "is_expired (now_at rt' 1) ?r"
    unfolding is_expired_def c using assms(2-4)
    by (simp add: is_permanent_def sint_time_sub min_duration_def max_duration_def)
  then show ?thesis by (simp add: store_load_result store_abs_store)
qed

theorem rewritten_key_expires_at_once_witness:
  "snd (store_load (rt_at 200)
     (fst (store_store (rt_at 200)
        (fst (store_store (rt_at 100) fresh_store ''k'' record_zero)) ''k'' (temp_record 50))) ''k'') = None"
  by (rule rewritten_key_expires_at_once [where old = "stored 100 100 None record_zero"])
     (simp_all add: store_abs_store abs_fresh, simp_all add: stored_def max_duration_def)

text \<open>C34. A key written again without an expiration can be deleted all the same: in any store, after a
  record with an expiration the same key is stored for good, and the record is permanent then; but a
  sweep whose cutoff no queued entry is after deletes it, for the entry of the first store is still
  in the queue.\<close>

theorem stale_sweep_deletes_permanent:
  fixes k :: string and rt1 rt2 :: runtime
  assumes "store_inv s0" and "\<not> is_permanent r1" and "is_permanent r2"
  defines "s \<equiv> fst (store_store rt2 (fst (store_store rt1 s0 k r1)) k r2)"
  assumes "\<forall>e \<in> set (expire_heap s). etime e \<le> till"
  shows "(\<exists>rec. store_abs s k = Some rec \<and> is_permanent rec \<and> rdata rec = rdata r2) \<and>
     (\<exists>s'. delete_expired_keys till s = Inr s' \<and> store_abs s' k = None)"
proof
  show "\<exists>rec. store_abs s k = Some rec \<and> is_permanent rec \<and> rdata rec = rdata r2"
    using assms(3) by (simp add: s_def store_abs_store stored_def is_permanent_def)
  have "heap_inv (expire_heap s0)" using assms(1) by (simp add: store_inv_def)
  then have "k \<in> edata ` set (expire_heap s)"
    using assms(2,3) by (simp add: s_def store_store_fields set_heap_push)
  moreover have due: "due_suffix till (expire_heap s) = rev (expire_heap s)" using assms(5) by simp
  ultimately have k: "k \<in> edata ` set (due_suffix till (expire_heap s))" unfolding due by (simp only: set_rev)
  obtain s' where "delete_expired_keys till s = Inr s'"
    "store_abs s' = store_abs s |` (- edata ` set (due_suffix till (expire_heap s)))"
    using delete_expired_result [of till s] by blast
  with k show "\<exists>s'. delete_expired_keys till s = Inr s' \<and> store_abs s' k = None"
    by (simp only: restrict_map_def) auto
qed

text \<open>Another key with an earlier expiration is queued as well.\<close>

abbreviation rewritten_store :: store where
  "rewritten_store \<equiv> fst (store_store (rt_at 101) (fst (store_store (rt_at 100) sample_store ''k'' (temp_record 50))) ''k'' record_zero)"

lemma rewritten_store_heap: "list_all (\<lambda>e. etime e \<le> 1000) (expire_heap rewritten_store)"
  by code_simp

theorem stale_sweep_deletes_permanent_witness:
  "(\<exists>rec. store_abs rewritten_store ''k'' = Some rec \<and> is_permanent rec) \<and>
   (\<exists>s'. delete_expired_keys 1000 rewritten_store = Inr s' \<and> store_abs s' ''k'' = None)"
proof -
  have "\<not> is_permanent (temp_record 50)" "is_permanent record_zero"
    by (simp_all add: is_permanent_def record_zero_def meta_zero_def)
  moreover have "\<forall>e \<in> set (expire_heap rewritten_store). etime e \<le> 1000"
    using rewritten_store_heap by (simp add: list_all_iff)
  ultimately show ?thesis using stale_sweep_deletes_permanent [OF sample_store_inv, of "temp_record 50" record_zero] by blast
qed

text \<open>An expired key can outlive the sweep scheduled for it: when a key with a later
  expiration was stored first, the sweep looks at that one only and stops.\<close>

theorem sweep_misses_expired_key:
  fixes k :: string and t :: time
  assumes "0 < sint d" and "sint d < sint d'" and "k \<noteq> k'"
  defines "s \<equiv> fst (store_store (rt_at t) (fst (store_store (rt_at t) fresh_store k' (temp_record d'))) k (temp_record d))"
  shows "delete_expired_keys (time_add t d) s = Inr s \<and> store_abs s k \<noteq> None \<and>
     snd (store_load (rt_at (t + sint d + 1)) s k) = None"
proof -
  have exp: "expires_at (stored t t None (temp_record e)) = time_add t e" for e
    by (simp add: expires_at_def stored_def)
  have "expire_heap s = [\<lparr>etime = time_add t d, edata = k\<rparr>, \<lparr>etime = time_add t d', edata = k'\<rparr>]"
    using assms(1-3)
    by (simp add: s_def store_store_fields store_store_result store_abs_store abs_fresh exp)
       (simp add: fresh_store_def heap_push_def heap_append_def heap_len_def heap_up.simps
         heap_less_def heap_swap_def Let_def time_add_def)
  then have "sweep (time_add t d) (hash_map s) (expire_heap s) = Inr (hash_map s, expire_heap s)"
    using assms(2) sweep_snoc [of "time_add t d" "hash_map s" "[\<lparr>etime = time_add t d, edata = k\<rparr>]"]
    by (simp add: time_add_def)
  then have "delete_expired_keys (time_add t d) s = Inr s" by (simp add: delete_expired_keys_def)
  moreover have "store_abs s k = Some (stored t t None (temp_record d))"
    using assms(3) by (simp add: s_def store_abs_store abs_fresh)
  moreover have "is_expired (t + sint d + 1) (stored t t None (temp_record d))"
    using assms(1,2) sint_in_duration(2) [of d']
    by (simp add: is_expired_def stored_def sint_time_sub min_duration_def max_duration_def)
       (simp add: is_permanent_def)
  ultimately show ?thesis by (simp add: store_load_result)
qed

theorem sweep_misses_expired_key_witness:
  "\<exists>s. delete_expired_keys 110 s = Inr s \<and> store_abs s ''b'' \<noteq> None \<and> snd (store_load (rt_at 111) s ''b'') = None"
  using sweep_misses_expired_key [of 10 3600 "''b''" "''a''" 100] by (auto simp: time_add_def)

end
