(* ===== verification/Store_Machine.thy ===== *)
theory Store_Machine
  imports Store
begin

text \<open>
  The store as a state machine (\<open>container/store/store.go\<close> with its timer goroutines). Each
  critical section of the lock \<open>worldMu\<close> is one step: a call of \<open>Keys\<close>, \<open>Load\<close>, \<open>Store\<close>
  or \<open>Delete\<close>, and the two halves of \<open>deleteAfter\<close>, between which any other step may come.
  The runtime fires the armed timer at some instant not before it is due, which starts one more
  goroutine. Time only advances along a run.
\<close>

section \<open>Steps\<close>

datatype callback = Sweep time | Resched

record sys =
  sys_store :: store
  clock :: time
  running :: "callback multiset"

datatype event =
    EOp runtime hash_op
  | EFire
  | ESweep time
  | EResched time

text \<open>The readings one operation takes, in order and between the instants it spans.\<close>

definition clock_ok :: "runtime \<Rightarrow> time \<Rightarrow> time \<Rightarrow> bool" where
  "clock_ok rt t t' \<longleftrightarrow> t \<le> now_at rt 0 \<and> now_at rt 0 \<le> now_at rt 1 \<and>
     now_at rt 1 \<le> now_at rt 2 \<and> now_at rt 2 \<le> t'"

inductive sys_step :: "sys \<Rightarrow> event \<Rightarrow> sys \<Rightarrow> bool" where
  op: "rt_ok rt \<Longrightarrow> clock_ok rt (clock s) t' \<Longrightarrow>
     sys_step s (EOp rt x)
       (s\<lparr>sys_store := fst (hash_exec store_ops rt x (sys_store s)), clock := t'\<rparr>)"
| fire: "clock s \<le> t' \<Longrightarrow> timer_fire t' (expire_timer (sys_store s)) = Some (c, tm) \<Longrightarrow>
     sys_step s EFire
       (s\<lparr>sys_store := (sys_store s)\<lparr>expire_timer := tm\<rparr>, clock := t',
          running := add_mset (Sweep c) (running s)\<rparr>)"
| sweep: "Sweep c \<in># running s \<Longrightarrow> delete_expired_keys c (sys_store s) = Inr st' \<Longrightarrow>
     sys_step s (ESweep c)
       (s\<lparr>sys_store := st', running := add_mset Resched (running s - {#Sweep c#})\<rparr>)"
| resched: "Resched \<in># running s \<Longrightarrow> clock s \<le> now \<Longrightarrow> reschedule now (sys_store s) = Inr st' \<Longrightarrow>
     sys_step s (EResched now)
       (s\<lparr>sys_store := st', clock := now, running := running s - {#Resched#}\<rparr>)"

inductive_cases stepE [consumes 1, case_names op fire sweep resched]: "sys_step s e s'"
inductive_simps step_op_simp: "sys_step s (EOp rt x) s'"

inductive sys_run :: "sys \<Rightarrow> event list \<Rightarrow> sys \<Rightarrow> bool" where
  run_nil: "sys_run s [] s"
| run_snoc: "sys_run s es s' \<Longrightarrow> sys_step s' e s'' \<Longrightarrow> sys_run s (es @ [e]) s''"

definition sys_init :: "store \<Rightarrow> time \<Rightarrow> sys" where
  "sys_init st t = \<lparr>sys_store = st, clock = t, running = {#}\<rparr>"

section \<open>The invariant of the machine\<close>

definition created_past :: "time \<Rightarrow> store \<Rightarrow> bool" where
  "created_past t st \<longleftrightarrow> (\<forall>k r. store_abs st k = Some r \<longrightarrow> created_at (rmeta r) \<le> t)"

definition queue_near :: "time \<Rightarrow> store \<Rightarrow> bool" where
  "queue_near t st \<longleftrightarrow> (\<forall>e \<in> set (expire_heap st). etime e - t \<le> max_duration)"

definition sys_inv :: "sys \<Rightarrow> bool" where
  "sys_inv s \<longleftrightarrow> store_inv (sys_store s) \<and> created_past (clock s) (sys_store s) \<and>
     queue_near (clock s) (sys_store s) \<and> timer_inv (clock s) (expire_timer (sys_store s)) \<and>
     (expire_heap (sys_store s) \<noteq> [] \<longrightarrow>
        armed (expire_timer (sys_store s)) \<or> running s \<noteq> {#})"

lemma created_past_later: "created_past t st \<Longrightarrow> t \<le> t' \<Longrightarrow> created_past t' st"
  by (fastforce simp: created_past_def)

lemma queue_near_later: "queue_near t st \<Longrightarrow> t \<le> t' \<Longrightarrow> queue_near t' st"
  by (fastforce simp: queue_near_def)

lemma timer_only [simp]:
  "created_past t (st\<lparr>expire_timer := tm\<rparr>) = created_past t st"
  "queue_near t (st\<lparr>expire_timer := tm\<rparr>) = queue_near t st"
  by (simp_all add: created_past_def queue_near_def)

lemmas later = created_past_later queue_near_later timer_inv_later

lemma expires_at_near: "created_at (rmeta r) \<le> t \<Longrightarrow> expires_at r - t \<le> max_duration"
  using sint_in_duration(2) [of "expire_time (rmeta r)"] by (simp add: expires_at_def time_add_def)

lemma sys_inv_init: "new_store c = Inr st \<Longrightarrow> 0 \<le> t \<Longrightarrow> sys_inv (sys_init st t)"
  using store_inv_new [of c st]
  by (auto simp: sys_inv_def sys_init_def created_past_def queue_near_def new_store_def store_abs_def
      table_simps new_time_heap_def timer_inv_new split: if_splits)

text \<open>What an operation leaves unchanged when it schedules nothing.\<close>

lemma exec_quiet:
  assumes "\<And>k r. x = HStore k r \<Longrightarrow> is_permanent r"
  shows "expire_heap (fst (hash_exec store_ops rt x st)) = expire_heap st"
    and "expire_timer (fst (hash_exec store_ops rt x st)) = expire_timer st"
  using assms by (cases x; simp add: store_ops_def split_beta store_store_fields)+

lemma created_past_exec:
  assumes "created_past t st" and "t \<le> now_at rt 0"
  shows "created_past (now_at rt 0) (fst (hash_exec store_ops rt x st))"
  using created_past_later [OF assms] unfolding created_past_def
  by (cases x)
     (auto simp: store_ops_def split_beta table_simps stored_def split: if_splits option.splits)

lemma exec_op_inv:
  assumes inv: "sys_inv s" and rt: "rt_ok rt" and ck: "clock_ok rt (clock s) t'"
  shows "sys_inv (s\<lparr>sys_store := fst (hash_exec store_ops rt x (sys_store s)), clock := t'\<rparr>)"
proof -
  let ?st = "sys_store s" and ?st' = "fst (hash_exec store_ops rt x (sys_store s))"
  from ck have t: "clock s \<le> now_at rt 0" "now_at rt 0 \<le> now_at rt 2" "now_at rt 2 \<le> t'"
    "clock s \<le> now_at rt 2" "clock s \<le> t'" "now_at rt 0 \<le> t'"
    by (simp_all add: clock_ok_def)
  from inv have si: "store_inv ?st" and cp: "created_past (clock s) ?st"
    and qn: "queue_near (clock s) ?st" and ti: "timer_inv (clock s) (expire_timer ?st)"
    by (simp_all add: sys_inv_def)
  have si': "store_inv ?st'" by (rule st.exec_inv [OF rt si])
  have cp0: "created_past (now_at rt 0) ?st'" by (rule created_past_exec [OF cp t(1)])
  show ?thesis
  proof (cases "\<exists>k r. x = HStore k r \<and> \<not> is_permanent r")
    case False
    then have "expire_heap ?st' = expire_heap ?st" "expire_timer ?st' = expire_timer ?st"
      using exec_quiet by blast+
    with inv si' cp0 t show ?thesis
      by (auto simp: sys_inv_def queue_near_def intro: later dest: queue_near_later [OF _ t(5)])
  next
    case True
    then obtain k r where x: "x = HStore k r" and temp: "\<not> is_permanent r" by blast
    let ?r = "snd (store_store rt ?st k r)"
    have st': "?st' = fst (store_store rt ?st k r)" by (simp add: x store_ops_def split_beta)
    have "store_abs ?st' k = Some ?r" by (simp add: st' table_simps)
    with cp0 have "created_at (rmeta ?r) \<le> now_at rt 0" unfolding created_past_def by blast
    then have near: "expires_at ?r - now_at rt 2 \<le> max_duration"
      using t(2) by (intro expires_at_near) simp
    have ti2: "timer_inv (now_at rt 2) (expire_timer ?st)" by (rule timer_inv_later [OF ti t(4)])
    have tm: "expire_timer ?st' = after_func (now_at rt 2) (expires_at ?r) (expires_at ?r) (expire_timer ?st)"
      using temp by (simp add: st' store_store_fields Let_def)
    have q: "set (expire_heap ?st') = insert \<lparr>etime = expires_at ?r, edata = k\<rparr> (set (expire_heap ?st))"
      using temp si by (simp add: st' store_store_fields set_heap_push store_inv_def)
    have "queue_near (now_at rt 2) ?st'"
      using queue_near_later [OF qn t(4)] near by (simp add: queue_near_def q)
    moreover have "armed (expire_timer ?st')" and "timer_inv (now_at rt 2) (expire_timer ?st')"
      using armed_after_func [OF ti2] timer_inv_after_func [OF ti2 near] by (simp_all add: tm)
    ultimately show ?thesis
      using si' cp0 t by (auto simp: sys_inv_def intro: later)
  qed
qed

lemma fire_inv:
  assumes inv: "sys_inv s" and t: "clock s \<le> t'"
    and fire: "timer_fire t' (expire_timer (sys_store s)) = Some (c, tm)"
  shows "sys_inv (s\<lparr>sys_store := (sys_store s)\<lparr>expire_timer := tm\<rparr>, clock := t',
           running := add_mset (Sweep c) (running s)\<rparr>)"
proof -
  have "timer_inv t' tm"
    using timer_inv_fire [OF timer_inv_later [OF _ t] fire] inv by (simp add: sys_inv_def)
  then show ?thesis
    using inv by (auto simp: sys_inv_def intro: later [OF _ t])
qed

lemma sweep_inv:
  assumes inv: "sys_inv s" and d: "delete_expired_keys c (sys_store s) = Inr st'"
  shows "sys_inv (s\<lparr>sys_store := st', running := add_mset Resched (running s - {#Sweep c#})\<rparr>)"
proof -
  from delete_expired_result [of c "sys_store s"] d
  have q: "expire_heap st' = kept_prefix c (expire_heap (sys_store s))"
    and tm: "expire_timer st' = expire_timer (sys_store s)"
    and abs: "store_abs st' = store_abs (sys_store s) |` (- edata ` set (due_suffix c (expire_heap (sys_store s))))"
    and si: "store_inv (sys_store s) \<longrightarrow> store_inv st'"
    by auto
  have "created_past (clock s) st'"
    using inv by (auto simp: sys_inv_def created_past_def abs restrict_map_def split: if_splits)
  moreover have "queue_near (clock s) st'"
    using inv set_kept_prefix [of c "expire_heap (sys_store s)"]
    unfolding sys_inv_def queue_near_def q by blast
  ultimately show ?thesis
    using inv si by (simp add: sys_inv_def tm)
qed

lemma resched_inv:
  assumes inv: "sys_inv s" and t: "clock s \<le> now"
    and r: "reschedule now (sys_store s) = Inr st'"
  shows "sys_inv (s\<lparr>sys_store := st', clock := now, running := running s - {#Resched#}\<rparr>)"
proof (cases "expire_heap (sys_store s) = []")
  case True
  then have "st' = sys_store s" using r by (simp add: reschedule_result)
  with True inv show ?thesis
    by (auto simp: sys_inv_def intro: later [OF _ t])
next
  case False
  let ?q = "expire_heap (sys_store s)" and ?tm = "expire_timer (sys_store s)"
  let ?tm' = "after_func now (etime (last ?q)) (etime (last ?q)) ?tm"
  from False r have st': "st' = (sys_store s)\<lparr>expire_timer := ?tm'\<rparr>"
    by (simp add: reschedule_result)
  have near: "etime (last ?q) - now \<le> max_duration"
    using queue_near_later [OF _ t, of "sys_store s"] inv last_in_set [OF False]
    by (simp add: sys_inv_def queue_near_def)
  have ti: "timer_inv now ?tm" using inv timer_inv_later [OF _ t, of ?tm] by (simp add: sys_inv_def)
  show ?thesis
    using inv armed_after_func [OF ti] timer_inv_after_func [OF ti near]
    by (auto simp: st' sys_inv_def intro: later [OF _ t])
qed

lemma sys_step_inv: "sys_step s e s' \<Longrightarrow> sys_inv s \<Longrightarrow> sys_inv s'"
  by (erule stepE) (auto intro: exec_op_inv fire_inv sweep_inv resched_inv)

lemma sys_run_inv: "sys_run s es s' \<Longrightarrow> sys_inv s \<Longrightarrow> sys_inv s'"
  by (induction rule: sys_run.induct) (auto intro: sys_step_inv)

section \<open>Keys that are never given an expiration\<close>

text \<open>An event that stores \<open>k\<close> with a positive expiration, or that may change it at all.\<close>

fun stores_temp :: "string \<Rightarrow> event \<Rightarrow> bool" where
  "stores_temp k (EOp rt (HStore k' r)) = (k' = k \<and> \<not> is_permanent r)"
| "stores_temp k _ = False"

fun writes_key :: "string \<Rightarrow> event \<Rightarrow> bool" where
  "writes_key k (EOp rt (HStore k' r)) = (k' = k)"
| "writes_key k (EOp rt (HDelete k')) = (k' = k)"
| "writes_key k _ = False"

definition unqueued :: "string \<Rightarrow> sys \<Rightarrow> bool" where
  "unqueued k s \<longleftrightarrow> store_inv (sys_store s) \<and> k \<notin> edata ` set (expire_heap (sys_store s))"

lemma heap_exec_subset:
  assumes "store_inv st"
  shows "set (expire_heap (fst (hash_exec store_ops rt x st))) \<subseteq>
     set (expire_heap st) \<union> {e. \<exists>r. x = HStore (edata e) r \<and> \<not> is_permanent r}"
proof -
  have "heap_inv (expire_heap st)" using assms by (simp add: store_inv_def)
  then show ?thesis
    by (cases x) (auto simp: store_ops_def split_beta store_store_fields set_heap_push)
qed

lemma unqueued_step:
  assumes step: "sys_step s e s'" and u: "unqueued k s" and e: "\<not> stores_temp k e"
  shows "unqueued k s'"
  using step
proof (cases rule: stepE)
  case (op rt t' x)
  have "store_inv (sys_store s)" using u by (simp add: unqueued_def)
  from heap_exec_subset [OF this, of rt x] st.exec_inv [OF op(3) this, of x] u e show ?thesis
    by (auto simp: unqueued_def op)
next
  case (fire t' c tm)
  with u show ?thesis by (simp add: unqueued_def)
next
  case (sweep c st')
  with u delete_expired_result [of c "sys_store s"]
    set_kept_prefix [of c "expire_heap (sys_store s)"]
  show ?thesis by (auto simp: unqueued_def)
next
  case (resched now st')
  with u show ?thesis
    by (auto simp: unqueued_def reschedule_result split: if_splits)
qed

lemma exec_other_key:
  assumes "\<not> writes_key k (EOp rt x)" and "store_abs st k = Some r" and "is_permanent r"
  shows "store_abs (fst (hash_exec store_ops rt x st)) k = Some r"
proof (cases x)
  case (HLoad k')
  then show ?thesis
    using assms(2,3) by (auto simp: store_ops_def split_beta table_simps store_load_result is_expired_def)
qed (use assms in \<open>auto simp: store_ops_def split_beta table_simps\<close>)

lemma permanent_step:
  assumes step: "sys_step s e s'" and u: "unqueued k s" and e: "\<not> writes_key k e"
    and r: "store_abs (sys_store s) k = Some r" "is_permanent r"
  shows "store_abs (sys_store s') k = Some r"
  using step
proof (cases rule: stepE)
  case (op rt t' x)
  with exec_other_key [OF _ r] e show ?thesis by simp
next
  case (fire t' c tm)
  with r show ?thesis by simp
next
  case (sweep c st')
  have "k \<notin> edata ` set (due_suffix c (expire_heap (sys_store s)))"
    using u by (auto simp: unqueued_def dest: set_takeWhileD)
  with sweep r delete_expired_result [of c "sys_store s"] show ?thesis
    by (auto simp: restrict_map_def)
next
  case (resched now st')
  with r show ?thesis by (auto simp: reschedule_result)
qed

lemma writes_stores_temp: "stores_temp k e \<Longrightarrow> writes_key k e"
  by (induction k e rule: stores_temp.induct) auto

lemma unqueued_run:
  "sys_run s es s' \<Longrightarrow> unqueued k s \<Longrightarrow> (\<forall>e \<in> set es. \<not> stores_temp k e) \<Longrightarrow> unqueued k s'"
  by (induction rule: sys_run.induct) (auto intro: unqueued_step)

lemma permanent_run:
  "sys_run s es s' \<Longrightarrow> unqueued k s \<Longrightarrow> (\<forall>e \<in> set es. \<not> writes_key k e) \<Longrightarrow>
     store_abs (sys_store s) k = Some r \<Longrightarrow> is_permanent r \<Longrightarrow>
     store_abs (sys_store s') k = Some r"
proof (induction rule: sys_run.induct)
  case (run_snoc s es s' e s'')
  have "unqueued k s'"
    using unqueued_run [OF run_snoc.hyps(1) run_snoc.prems(1)] run_snoc.prems(2) writes_stores_temp
    by auto
  with permanent_step [OF run_snoc.hyps(2)] run_snoc show ?case by simp
qed simp

lemma unqueued_init: "new_store c = Inr st \<Longrightarrow> unqueued k (sys_init st t)"
  using store_inv_new [of c st]
  by (auto simp: unqueued_def sys_init_def new_store_def new_time_heap_def split: if_splits)

section \<open>Properties\<close>

text \<open>C14. A permanent record is never lost: whatever operations, timer runs and sweeps follow, a
  record of a key that was never given an expiration stays until that very key is stored or
  deleted again.\<close>

theorem permanent_durable:
  assumes "new_store c = Inr st" and "sys_run (sys_init st t) es s1"
    and "\<forall>e \<in> set es. \<not> stores_temp k e"
    and "store_abs (sys_store s1) k = Some r" and "is_permanent r"
    and "sys_run s1 es' s2" and "\<forall>e \<in> set es'. \<not> writes_key k e"
  shows "store_abs (sys_store s2) k = Some r"
  using permanent_run [OF assms(6) unqueued_run [OF assms(2) unqueued_init [OF assms(1)] assms(3)] assms(7,4,5)] .

text \<open>C15. Temporary records are never forgotten by the sweeper: in every reachable state that
  holds one, the timer is armed or a sweep or its rescheduling is still to run.\<close>

theorem sweeper_alive:
  assumes "new_store c = Inr st" and "0 \<le> t" and "sys_run (sys_init st t) es s"
    and "store_abs (sys_store s) k = Some r" and "\<not> is_permanent r"
  shows "armed (expire_timer (sys_store s)) \<or> running s \<noteq> {#}"
proof -
  have inv: "sys_inv s" by (rule sys_run_inv [OF assms(3) sys_inv_init [OF assms(1,2)]])
  then have "\<lparr>etime = expires_at r, edata = k\<rparr> \<in> set (expire_heap (sys_store s))"
    using assms(4,5) by (simp add: sys_inv_def store_inv_def scheduled_def)
  with inv show ?thesis by (auto simp: sys_inv_def)
qed

text \<open>A run: a permanent record, a temporary one, and the sweep of the latter.\<close>

definition demo_perm :: sys where
  "demo_perm = (sys_init fresh_store 0)\<lparr>sys_store := fst (store_store (rt_at 0) fresh_store ''p'' record_zero)\<rparr>"

definition demo_temp :: sys where
  "demo_temp = demo_perm\<lparr>sys_store := fst (store_store (rt_at 0) (sys_store demo_perm) ''t'' (temp_record 5))\<rparr>"

lemma run_one: "sys_step s e s' \<Longrightarrow> sys_run s [e] s'"
  using run_snoc [OF run_nil] by simp

lemma clock_ok_at: "t \<le> t' \<Longrightarrow> clock_ok (rt_at t') t t'"
  by (simp add: clock_ok_def)

lemma demo_perm_run: "sys_run (sys_init fresh_store 0) [EOp (rt_at 0) (HStore ''p'' record_zero)] demo_perm"
  by (rule run_one)
     (simp add: step_op_simp demo_perm_def store_ops_def split_beta sys_init_def clock_ok_def exI [of _ 0])

lemma demo_temp_step: "sys_step demo_perm (EOp (rt_at 0) (HStore ''t'' (temp_record 5))) demo_temp"
  by (simp add: step_op_simp demo_temp_def demo_perm_def store_ops_def split_beta sys_init_def clock_ok_def
      exI [of _ 0])

lemma demo_temp_timer: "expire_timer (sys_store demo_temp) = \<lparr>timer = Armed 5 5, cutoff = 5\<rparr>"
  by (simp add: demo_temp_def demo_perm_def sys_init_def store_store_fields store_store_result
      store_abs_store abs_fresh stored_def expires_at_def time_add_def is_permanent_def record_zero_def meta_zero_def)
     (simp add: fresh_store_def new_refresh_timer_def after_func_def time_after_func_def time_add_def
      sint_time_sub min_duration_def max_duration_def)

lemma demo_fire:
  "sys_step demo_temp EFire
     (demo_temp\<lparr>sys_store := (sys_store demo_temp)\<lparr>expire_timer := \<lparr>timer = Idle, cutoff = 5\<rparr>\<rparr>,
        clock := 5, running := {#Sweep 5#}\<rparr>)"
  using fire [of demo_temp 5 5 "\<lparr>timer = Idle, cutoff = 5\<rparr>"]
  by (simp add: demo_temp_timer timer_fire_def) (simp add: demo_temp_def demo_perm_def sys_init_def)

theorem permanent_durable_witness:
  "\<exists>s2. sys_run demo_perm [EOp (rt_at 0) (HStore ''t'' (temp_record 5)), EFire, ESweep 5] s2 \<and>
     store_abs (sys_store s2) ''p'' = Some (stored 0 0 None record_zero)"
proof -
  let ?s = "demo_temp\<lparr>sys_store := (sys_store demo_temp)\<lparr>expire_timer := \<lparr>timer = Idle, cutoff = 5\<rparr>\<rparr>,
        clock := 5, running := {#Sweep 5#}\<rparr>"
  obtain st' where st': "delete_expired_keys 5 (sys_store ?s) = Inr st'"
    using delete_expired_result by blast
  have run: "sys_run demo_perm ((([] @ [EOp (rt_at 0) (HStore ''t'' (temp_record 5))]) @ [EFire]) @ [ESweep 5])
      (?s\<lparr>sys_store := st', running := add_mset Resched (running ?s - {#Sweep 5#})\<rparr>)"
    by (rule run_snoc, rule run_snoc, rule run_snoc, rule run_nil, rule demo_temp_step, rule demo_fire,
        rule sweep [OF _ st']) simp
  have "store_abs (sys_store demo_perm) ''p'' = Some (stored 0 0 None record_zero)"
    by (simp add: demo_perm_def store_abs_store abs_fresh)
  from permanent_durable [OF fresh_store_new demo_perm_run _ this _ run]
  have "store_abs st' ''p'' = Some (stored 0 0 None record_zero)"
    by (simp add: is_permanent_def record_zero_def meta_zero_def)
  with run show ?thesis by fastforce
qed

theorem sweeper_alive_witness: "armed (expire_timer (sys_store demo_temp))"
proof -
  have run: "sys_run (sys_init fresh_store 0)
      ([EOp (rt_at 0) (HStore ''p'' record_zero)] @ [EOp (rt_at 0) (HStore ''t'' (temp_record 5))]) demo_temp"
    by (rule run_snoc [OF demo_perm_run demo_temp_step])
  have "store_abs (sys_store demo_temp) ''t'' = Some (stored 0 0 None (temp_record 5))"
    by (simp add: demo_temp_def demo_perm_def store_abs_store abs_fresh)
  from sweeper_alive [OF fresh_store_new _ run this] show ?thesis
    by (simp add: demo_temp_def demo_perm_def sys_init_def)
qed

end
