(* ===== verification/Ring.thy ===== *)
theory Ring
  imports Prelude
begin

text \<open>
  Component \<open>container/ring/ring.go\<close>: a ring of \<open>ratio\<close> partitions, each mapped to one of the
  inserted elements. Elements are the values they carry (\<open>Element.Value\<close>, any comparable type).
  The divisions and indexings that panic in Go are errors of the result type. \<open>fnvSum32\<close> is
  FNV-1 over 32-bit words, as \<open>hash/fnv\<close> computes it.
\<close>

section \<open>Hashing\<close>

unbundle bit_operations_syntax

definition fnv_offset32 :: "32 word" where
  "fnv_offset32 = 2166136261"

definition fnv_prime32 :: "32 word" where
  "fnv_prime32 = 16777619"

definition fnv_sum32 :: "string \<Rightarrow> 32 word" where
  "fnv_sum32 b = fold (\<lambda>c h. (h * fnv_prime32) XOR word_of_nat (of_char c)) b fnv_offset32"

text \<open>\<open>StringHasher(s).Hash()\<close>.\<close>

definition string_hasher_hash :: "string \<Rightarrow> 32 word" where
  "string_hasher_hash h = fnv_sum32 h"

section \<open>The ring\<close>

record 'a ring =
  ratio :: "32 word"
  virtual :: "nat list"
  elements :: "'a list"

definition new_ring :: "int64 \<Rightarrow> 'a ring res" where
  "new_ring r =
     (if sint r \<le> 0 then Inl (PanicText ''ring: Ring ration is less than zero'')
      else Inr \<lparr>ratio = ucast r, virtual = replicate (unat r) 0, elements = []\<rparr>)"

text \<open>\<open>ii % num\<close> panics for an empty ring, unless there is no partition to compute.\<close>

definition repartition :: "'a ring \<Rightarrow> 'a ring res" where
  "repartition r =
     (let num = length (elements r)
      in if num = 0 \<and> virtual r \<noteq> [] then Inl DivideByZero
         else Inr (r\<lparr>virtual := map (\<lambda>ii. ii mod num) [0..<length (virtual r)]\<rparr>))"

definition ring_insert :: "'a ring \<Rightarrow> 'a \<Rightarrow> 'a ring res" where
  "ring_insert r e = repartition (r\<lparr>elements := elements r @ [e]\<rparr>)"

text \<open>The scan of \<open>Remove\<close>: the first element with an equal value is cut out.\<close>

fun cut_first :: "'a \<Rightarrow> 'a list \<Rightarrow> 'a list" where
  "cut_first e [] = []"
| "cut_first e (x # xs) = (if x \<noteq> e then x # cut_first e xs else xs)"

definition ring_remove :: "'a ring \<Rightarrow> 'a \<Rightarrow> 'a ring res" where
  "ring_remove r e = repartition (r\<lparr>elements := cut_first e (elements r)\<rparr>)"

definition ring_find :: "'a ring \<Rightarrow> 32 word \<Rightarrow> 'a res" where
  "ring_find r h =
     (if ratio r = 0 then Inl DivideByZero
      else let index = unat (h mod ratio r)
           in if length (virtual r) \<le> index then Inl IndexOutOfRange
              else let element = virtual r ! index
                   in if length (elements r) \<le> element then Inl IndexOutOfRange
                      else Inr (elements r ! element))"

section \<open>Invariant\<close>

text \<open>
  A usable ring: as many partitions as its ratio says, at least one, and partition \<open>i\<close> mapped
  to element \<open>i mod n\<close> as soon as there is an element.
\<close>

definition ring_inv :: "'a ring \<Rightarrow> bool" where
  "ring_inv r \<longleftrightarrow> ratio r \<noteq> 0 \<and> length (virtual r) = unat (ratio r) \<and>
     (elements r \<noteq> [] \<longrightarrow> virtual r = map (\<lambda>ii. ii mod length (elements r)) [0..<unat (ratio r)])"

lemma repartition_Inr:
  assumes "ring_inv r" and "elements r \<noteq> []"
  shows "\<exists>r'. repartition r = Inr r' \<and> ring_inv r' \<and> ratio r' = ratio r \<and> elements r' = elements r"
  using assms by (simp add: repartition_def ring_inv_def)

lemma ratio_pos: "ring_inv r \<Longrightarrow> 0 < unat (ratio r)"
  by (simp add: ring_inv_def unat_gt_0)

lemma virtual_nonempty: "ring_inv r \<Longrightarrow> virtual r \<noteq> []"
  using ratio_pos [of r] by (auto simp: ring_inv_def)

lemma unat_ratio_of:
  fixes n :: int64
  assumes "0 < sint n" and "sint n < 2 ^ 32"
  shows "unat (ucast n :: 32 word) = nat (sint n)"
proof -
  have "unat (ucast n :: 32 word) = unat n mod 2 ^ 32"
    by (simp add: unsigned_ucast_eq unsigned_take_bit_eq take_bit_eq_mod)
  also have "\<dots> = nat (sint n)"
    using assms by (simp add: unat_nonneg_sint nat_less_iff)
  finally show ?thesis .
qed

lemma new_ring_inv:
  assumes "0 < sint n" and "sint n < 2 ^ 32"
  shows "\<exists>r. new_ring n = Inr r \<and> ring_inv r \<and> elements r = [] \<and> unat (ratio r) = nat (sint n)"
proof -
  note u = unat_ratio_of [OF assms]
  moreover have "(ucast n :: 32 word) \<noteq> 0"
    using u assms(1) by (metis nat_0_iff not_less unat_0)
  ultimately show ?thesis
    using assms by (simp add: new_ring_def ring_inv_def unat_nonneg_sint)
qed

lemma repartition_elements: "repartition r = Inr r' \<Longrightarrow> elements r' = elements r \<and> ratio r' = ratio r"
  by (auto simp: repartition_def Let_def split: if_splits)

lemma ring_inv_elements_update [simp]:
  "ring_inv r \<Longrightarrow> length (virtual (r\<lparr>elements := xs\<rparr>)) = unat (ratio r)"
  by (simp add: ring_inv_def)

lemma repartition_updated:
  assumes "ring_inv r" and "xs \<noteq> []"
  shows "\<exists>r'. repartition (r\<lparr>elements := xs\<rparr>) = Inr r' \<and> ring_inv r' \<and>
           elements r' = xs \<and> ratio r' = ratio r"
  using assms by (simp add: repartition_def ring_inv_def)

lemma ring_insert_inv:
  assumes "ring_inv r"
  shows "\<exists>r'. ring_insert r e = Inr r' \<and> ring_inv r' \<and>
           elements r' = elements r @ [e] \<and> ratio r' = ratio r"
  unfolding ring_insert_def by (rule repartition_updated [OF assms]) simp

lemma ring_remove_inv:
  assumes "ring_inv r" and "cut_first e (elements r) \<noteq> []"
  shows "\<exists>r'. ring_remove r e = Inr r' \<and> ring_inv r' \<and>
           elements r' = cut_first e (elements r) \<and> ratio r' = ratio r"
  unfolding ring_remove_def by (rule repartition_updated [OF assms])

lemma ring_remove_last_panics:
  assumes "ring_inv r" and "cut_first e (elements r) = []"
  shows "ring_remove r e = Inl DivideByZero"
  using assms virtual_nonempty [OF assms(1)] by (simp add: ring_remove_def repartition_def)

lemma ring_find_eq:
  assumes "ring_inv r" and "elements r \<noteq> []"
  shows "ring_find r h =
     Inr (elements r ! (unat h mod unat (ratio r) mod length (elements r)))"
proof -
  have lt: "unat h mod unat (ratio r) < unat (ratio r)"
    using ratio_pos [OF assms(1)] by simp
  have "virtual r ! (unat h mod unat (ratio r)) = unat h mod unat (ratio r) mod length (elements r)"
    using assms lt by (simp add: ring_inv_def)
  with assms lt show ?thesis
    by (simp add: ring_find_def ring_inv_def unat_mod Let_def ratio_pos [OF assms(1)] not_le)
qed

lemma ring_find_empty:
  assumes "ring_inv r" and "elements r = []"
  shows "ring_find r h = Inl IndexOutOfRange"
  using assms ratio_pos [OF assms(1)] by (simp add: ring_find_def ring_inv_def unat_mod Let_def)

lemma cut_first_fresh: "e \<notin> set xs \<Longrightarrow> cut_first e (xs @ [e]) = xs"
  by (induction xs) auto

lemma mset_cut_first: "mset (cut_first e xs) = mset xs - {#e#}"
  by (induction xs) auto

section \<open>How partitions are shared\<close>

text \<open>The partitions assigned to the element at position \<open>j\<close>.\<close>

definition assigned :: "'a ring \<Rightarrow> nat \<Rightarrow> nat" where
  "assigned r j = length (filter (\<lambda>v. v = j) (virtual r))"

lemma count_residue:
  assumes "j < n"
  shows "length (filter (\<lambda>i. i mod n = j) [0..<m]) = m div n + (if j < m mod n then 1 else 0)"
proof (induction m)
  case (Suc m)
  show ?case
  proof (cases "m mod n = n - 1")
    case True
    then have "Suc m mod n = 0" "Suc m div n = Suc (m div n)"
      using assms by (simp_all add: mod_Suc div_Suc)
    then show ?thesis using Suc True assms by auto
  next
    case False
    then have "Suc m mod n = Suc (m mod n)" "Suc m div n = m div n"
      using assms by (auto simp add: mod_Suc div_Suc)
    then show ?thesis using Suc by auto
  qed
qed simp

lemma assigned_eq:
  assumes "ring_inv r" and "j < length (elements r)"
  shows "assigned r j = unat (ratio r) div length (elements r) +
     (if j < unat (ratio r) mod length (elements r) then 1 else 0)"
proof -
  from assms have "elements r \<noteq> []" by auto
  with assms(1) have "virtual r = map (\<lambda>ii. ii mod length (elements r)) [0..<unat (ratio r)]"
    by (simp add: ring_inv_def)
  then show ?thesis
    by (simp add: assigned_def filter_map comp_def count_residue [OF assms(2)])
qed

lemma sum_filter_length:
  "list_all (\<lambda>v. v < (n :: nat)) vs \<Longrightarrow> (\<Sum>j < n. length (filter (\<lambda>v. v = j) vs)) = length vs"
proof (induction vs)
  case (Cons v vs)
  have "(\<Sum>j < n. length (filter (\<lambda>u. u = j) (v # vs))) =
      (\<Sum>j < n. length (filter (\<lambda>u. u = j) vs) + (if j = v then 1 else 0))"
    by (rule sum.cong) auto
  with Cons show ?case by (simp add: sum.distrib)
qed simp

lemma shares_even:
  assumes "ring_inv r" and "elements r \<noteq> []"
  shows "(\<Sum>j < length (elements r). assigned r j) = unat (ratio r)"
    and "\<forall>i < length (elements r). \<forall>j < length (elements r). assigned r i \<le> assigned r j + 1"
proof -
  have virt: "virtual r = map (\<lambda>ii. ii mod length (elements r)) [0..<unat (ratio r)]"
    using assms by (simp add: ring_inv_def)
  have lt: "list_all (\<lambda>v. v < length (elements r)) (virtual r)"
    using assms(2) by (simp add: virt list_all_iff)
  from sum_filter_length [OF lt] virt show "(\<Sum>j < length (elements r). assigned r j) = unat (ratio r)"
    by (simp add: assigned_def)
  show "\<forall>i < length (elements r). \<forall>j < length (elements r). assigned r i \<le> assigned r j + 1"
    by (simp add: assigned_eq [OF assms(1)])
qed

section \<open>Sequences of insertions and removals\<close>

datatype 'a ring_op = RingInsert 'a | RingRemove 'a

fun ring_step :: "'a ring_op \<Rightarrow> 'a ring \<Rightarrow> 'a ring res" where
  "ring_step (RingInsert e) r = ring_insert r e"
| "ring_step (RingRemove e) r = ring_remove r e"

text \<open>One after the other on a new ring, up to the first panic.\<close>

fun ring_steps :: "'a ring_op list \<Rightarrow> 'a ring \<Rightarrow> 'a ring res" where
  "ring_steps [] r = Inr r"
| "ring_steps (q # qs) r = (case ring_step q r of Inl p \<Rightarrow> Inl p | Inr r' \<Rightarrow> ring_steps qs r')"

definition ring_history :: "int64 \<Rightarrow> 'a ring_op list \<Rightarrow> 'a ring res" where
  "ring_history n qs = (case new_ring n of Inl p \<Rightarrow> Inl p | Inr r \<Rightarrow> ring_steps qs r)"

lemma ring_step_inv:
  assumes "ring_inv r" and "ring_step q r = Inr r'"
  shows "ring_inv r' \<and> ratio r' = ratio r"
proof (cases q)
  case (RingInsert e)
  with assms ring_insert_inv [OF assms(1), of e] show ?thesis by auto
next
  case (RingRemove e)
  with assms ring_remove_last_panics [OF assms(1), of e] have "cut_first e (elements r) \<noteq> []" by auto
  from ring_remove_inv [OF assms(1) this] assms(2) RingRemove show ?thesis by auto
qed

lemma ring_steps_inv:
  "ring_inv r \<Longrightarrow> ring_steps qs r = Inr r' \<Longrightarrow> ring_inv r' \<and> ratio r' = ratio r"
proof (induction qs arbitrary: r)
  case (Cons q qs)
  then obtain r1 where r1: "ring_step q r = Inr r1" "ring_steps qs r1 = Inr r'" by (auto split: sum.splits)
  from ring_step_inv [OF Cons.prems(1) r1(1)] Cons.IH [OF _ r1(2)] show ?case by simp
qed simp

lemma ring_history_inv:
  assumes "0 < sint n" and "sint n < 2 ^ 32" and "ring_history n qs = Inr r"
  shows "ring_inv r" and "unat (ratio r) = nat (sint n)"
proof -
  obtain r0 :: "'a ring" where r0: "new_ring n = Inr r0" "ring_inv r0" "unat (ratio r0) = nat (sint n)"
    using new_ring_inv [OF assms(1,2)] by blast
  then have "ring_steps qs r0 = Inr r" using assms(3) by (simp add: ring_history_def)
  from ring_steps_inv [OF r0(2) this] r0(3) show "ring_inv r" "unat (ratio r) = nat (sint n)" by simp_all
qed

section \<open>Properties\<close>

text \<open>C24. The partitions are shared evenly: on a new ring of 0 < n < 2^32 partitions, after any sequence
  of insertions and removals that leaves elements on it, every partition is assigned to an element
  that is there, and the number of partitions of any two of them differs by at most one.\<close>

theorem ring_balanced:
  assumes "0 < sint n" and "sint n < 2 ^ 32"
    and "ring_history n qs = Inr r" and "elements r \<noteq> []"
  shows "length (virtual r) = nat (sint n) \<and> (\<Sum>j < length (elements r). assigned r j) = nat (sint n) \<and>
     (\<forall>i < length (elements r). \<forall>j < length (elements r). assigned r i \<le> assigned r j + 1)"
  using shares_even [OF ring_history_inv(1) [OF assms(1-3)] assms(4)] ring_history_inv [OF assms(1-3)]
  by (simp add: ring_inv_def)

text \<open>Seven partitions, three insertions, a removal and another insertion.\<close>

abbreviation demo_history :: "nat ring_op list" where
  "demo_history \<equiv> [RingInsert 10, RingInsert 20, RingInsert 30, RingRemove 10, RingInsert 40]"

lemma demo_history_ring:
  "ring_history 7 demo_history = Inr \<lparr>ratio = 7, virtual = [0, 1, 2, 0, 1, 2, 0], elements = [20, 30, 40]\<rparr>"
  by code_simp

theorem ring_balanced_witness:
  "\<exists>r. ring_history 7 demo_history = Inr r \<and> elements r = [20, 30, 40] \<and>
     (\<Sum>j < 3. assigned r j) = 7 \<and> assigned r 0 \<le> assigned r 2 + 1"
proof -
  let ?r = "\<lparr>ratio = 7, virtual = [0, 1, 2, 0, 1, 2, 0], elements = [20, 30, 40]\<rparr> :: nat ring"
  have "0 < sint (7 :: int64)" "sint (7 :: int64) < 2 ^ 32" "elements ?r \<noteq> []" by simp_all
  from ring_balanced [OF this(1,2) demo_history_ring this(3)]
  have "(\<Sum>j < 3. assigned ?r j) = 7" "assigned ?r 0 \<le> assigned ?r 2 + 1"
    by (simp_all add: numeral_3_eq_3)
  with demo_history_ring show ?thesis by simp
qed

section \<open>Other facts\<close>

definition sample_ring :: "nat ring" where
  "sample_ring = \<lparr>ratio = 7, virtual = [0, 1, 2, 0, 1, 2, 0], elements = [10, 20, 30]\<rparr>"

lemma sample_ring_inv: "ring_inv sample_ring"
  by (simp add: sample_ring_def ring_inv_def upt_rec)

text \<open>Removing an element that has just been inserted gives the very ring there was before.\<close>

theorem ring_insert_remove:
  assumes "ring_inv r" and "elements r \<noteq> []" and "e \<notin> set (elements r)"
  shows "\<exists>r1. ring_insert r e = Inr r1 \<and> ring_remove r1 e = Inr r"
proof -
  obtain r1 where r1: "ring_insert r e = Inr r1" "ring_inv r1" "elements r1 = elements r @ [e]" "ratio r1 = ratio r"
    using ring_insert_inv [OF assms(1)] by blast
  have cut: "cut_first e (elements r1) = elements r" using assms(3) by (simp add: r1(3) cut_first_fresh)
  obtain r2 where r2: "ring_remove r1 e = Inr r2" "ring_inv r2" "elements r2 = elements r" "ratio r2 = ratio r"
    using ring_remove_inv [OF r1(2), of e] assms(2) r1(4) by (auto simp: cut)
  have "virtual r2 = virtual r" using r2 assms(1,2) by (simp add: ring_inv_def)
  with r1(1) r2 show ?thesis by simp
qed

theorem ring_insert_remove_witness:
  "\<exists>r1. ring_insert sample_ring 40 = Inr r1 \<and> ring_remove r1 40 = Inr sample_ring"
  by (rule ring_insert_remove [OF sample_ring_inv]) (simp_all add: sample_ring_def)

text \<open>The last element cannot be removed: the repartition divides by the number of elements.\<close>

theorem ring_remove_last:
  assumes "ring_inv r" and "elements r = [e]"
  shows "ring_remove r e = Inl DivideByZero"
  using ring_remove_last_panics [OF assms(1), of e] assms(2) by simp

theorem ring_remove_last_witness:
  "ring_remove \<lparr>ratio = 2, virtual = [0, 0], elements = [1 :: nat]\<rparr> 1 = Inl DivideByZero"
  by (rule ring_remove_last) (simp_all add: ring_inv_def upt_rec)

text \<open>The hashing is not consistent: inserting an element moves a partition from one of the old
  elements to another old one (the second partition from the end of the first round of the new
  assignment), although only the partitions of the new element would have to move.\<close>

theorem ring_moves_old_partitions:
  assumes "ring_inv r" and "elements r = x # y # zs" and "Suc (length (elements r)) < unat (ratio r)"
  defines "h \<equiv> word_of_nat (Suc (length (elements r))) :: 32 word"
  shows "ring_find r h = Inr y \<and> (\<exists>r'. ring_insert r e = Inr r' \<and> ring_find r' h = Inr x)"
proof -
  let ?n = "length (elements r)"
  have n: "2 \<le> ?n" using assms(2) by simp
  have "unat (ratio r) < 2 ^ 32" by (rule less_le_trans [OF unsigned_less]) simp
  then have h: "unat h mod unat (ratio r) = Suc ?n"
    using assms(3) by (simp add: h_def unat_of_nat del: of_nat_Suc)
  have "Suc ?n mod ?n = 1" using n by (simp add: mod_Suc)
  then have "ring_find r h = Inr y"
    using ring_find_eq [OF assms(1), of h] assms(2) by (simp add: h)
  moreover obtain r1 where r1: "ring_insert r e = Inr r1" "ring_inv r1"
    "elements r1 = elements r @ [e]" "ratio r1 = ratio r"
    using ring_insert_inv [OF assms(1)] by blast
  have "ring_find r1 h = Inr x"
    using ring_find_eq [OF r1(2), of h] h assms(2) by (simp add: r1(3,4))
  ultimately show ?thesis using r1(1) by blast
qed

theorem ring_moves_old_partitions_witness:
  "ring_find sample_ring 4 = Inr 20 \<and>
   (\<exists>r'. ring_insert sample_ring 40 = Inr r' \<and> ring_find r' 4 = Inr 10)"
  using ring_moves_old_partitions [OF sample_ring_inv, of 10 20 "[30]" 40]
  by (simp add: sample_ring_def)

end
