(* ===== verification/Utf8.thy ===== *)
theory Utf8
  imports Prelude
begin

text \<open>
  What \<open>encoding/json\<close> does to the bytes of a Go string: every byte that does not belong to a
  valid UTF-8 sequence is replaced by the three bytes of U+FFFD. Keys of requests and the texts
  of responses pass through this on their way to another node.
\<close>

section \<open>Sequences\<close>

abbreviation byte_of :: "char \<Rightarrow> nat" where
  "byte_of c \<equiv> of_char c"

definition cont_byte :: "char \<Rightarrow> bool" where
  "cont_byte c \<longleftrightarrow> 0x80 \<le> byte_of c \<and> byte_of c \<le> 0xBF"

text \<open>The second byte each leading byte admits (overlong forms and surrogates are excluded).\<close>

definition second_ok :: "char \<Rightarrow> char \<Rightarrow> bool" where
  "second_ok b c \<longleftrightarrow>
     (if byte_of b = 0xE0 then 0xA0 \<le> byte_of c \<and> byte_of c \<le> 0xBF
      else if byte_of b = 0xED then 0x80 \<le> byte_of c \<and> byte_of c \<le> 0x9F
      else if byte_of b = 0xF0 then 0x90 \<le> byte_of c \<and> byte_of c \<le> 0xBF
      else if byte_of b = 0xF4 then 0x80 \<le> byte_of c \<and> byte_of c \<le> 0x8F
      else cont_byte c)"

definition seq_len :: "char \<Rightarrow> nat" where
  "seq_len b =
     (if byte_of b < 0x80 then 1
      else if 0xC2 \<le> byte_of b \<and> byte_of b \<le> 0xDF then 2
      else if 0xE0 \<le> byte_of b \<and> byte_of b \<le> 0xEF then 3
      else if 0xF0 \<le> byte_of b \<and> byte_of b \<le> 0xF4 then 4
      else 0)"

text \<open>The length of the valid sequence at the head, 0 when there is none.\<close>

fun rune_len :: "string \<Rightarrow> nat" where
  "rune_len [] = 0"
| "rune_len (b # s) =
     (let n = seq_len b
      in if n = 0 then 0
         else if n = 1 then 1
         else if length s < n - 1 then 0
         else if second_ok b (s ! 0) \<and> list_all cont_byte (drop 1 (take (n - 1) s)) then n
         else 0)"

definition replacement :: string where
  "replacement = [char_of (0xEF :: nat), char_of (0xBF :: nat), char_of (0xBD :: nat)]"

function utf8_fix :: "string \<Rightarrow> string" where
  "utf8_fix [] = []"
| "utf8_fix (b # s) =
     (let n = rune_len (b # s)
      in if n = 0 then replacement @ utf8_fix s
         else take n (b # s) @ utf8_fix (drop n (b # s)))"
  by pat_completeness auto
termination
  by (relation "measure length") (auto simp: Let_def simp del: rune_len.simps)

declare utf8_fix.simps(2) [simp del]

function utf8_valid :: "string \<Rightarrow> bool" where
  "utf8_valid [] = True"
| "utf8_valid (b # s) =
     (let n = rune_len (b # s) in if n = 0 then False else utf8_valid (drop n (b # s)))"
  by pat_completeness auto
termination
  by (relation "measure length") (auto simp: Let_def simp del: rune_len.simps)

declare utf8_valid.simps(2) [simp del]

section \<open>Replacing twice changes nothing more\<close>

lemma rune_len_le: "rune_len s \<le> length s"
  by (cases s) (auto simp: Let_def)

lemma rune_len_prefix:
  assumes "rune_len s = n" and "n \<noteq> 0"
  shows "rune_len (take n s @ t) = n"
proof -
  obtain b r where s: "s = b # r" using assms by (cases s) auto
  have n: "n = seq_len b" and n0: "seq_len b \<noteq> 0"
    using assms s by (auto simp: Let_def split: if_splits)
  show ?thesis
  proof (cases "n = 1")
    case True
    then show ?thesis using n by (simp add: s Let_def)
  next
    case False
    then have len: "n - 1 \<le> length r" and ok: "second_ok b (r ! 0)"
      and tl: "list_all cont_byte (drop 1 (take (n - 1) r))"
      using assms n n0 by (auto simp: s Let_def split: if_splits)
    obtain m where m: "n = Suc (Suc m)" using False assms(2) by (cases n; cases "n - 1") auto
    have "take n s @ t = b # take (Suc m) r @ t" by (simp add: s m)
    moreover have "take (Suc m) (take (Suc m) r @ t) = take (Suc m) r"
      using len m by simp
    moreover have "(take (Suc m) r @ t) ! 0 = r ! 0"
      using len m by (cases r) auto
    ultimately show ?thesis
      using len ok tl m by (simp add: Let_def flip: n)
  qed
qed

lemma valid_replacement: "utf8_valid (replacement @ t) = utf8_valid t"
  by (simp add: replacement_def utf8_valid.simps(2) Let_def seq_len_def second_ok_def cont_byte_def)

lemma valid_rune:
  assumes "rune_len s = n" and "n \<noteq> 0"
  shows "utf8_valid (take n s @ t) = utf8_valid t"
proof -
  have len: "length (take n s) = n" using rune_len_le [of s] assms(1) by simp
  obtain b r where r: "take n s @ t = b # r" using assms by (cases s) (auto simp: take_Cons')
  have "rune_len (b # r) = n" using rune_len_prefix [OF assms, of t] by (simp add: r)
  then have "utf8_valid (b # r) = utf8_valid (drop n (take n s @ t))"
    using assms(2) by (simp add: utf8_valid.simps(2) r del: rune_len.simps)
  with len show ?thesis by (simp add: r [symmetric])
qed

lemma utf8_valid_fix: "utf8_valid (utf8_fix s)"
proof (induction s rule: utf8_fix.induct)
  case (2 b s)
  show ?case
  proof (cases "rune_len (b # s) = 0")
    case True
    with 2 show ?thesis by (simp add: utf8_fix.simps(2) valid_replacement del: rune_len.simps)
  next
    case False
    with 2 show ?thesis
      by (simp add: utf8_fix.simps(2) Let_def valid_rune [OF refl] del: rune_len.simps take_Suc_Cons)
  qed
qed simp

lemma utf8_fix_valid: "utf8_valid s \<Longrightarrow> utf8_fix s = s"
proof (induction s rule: utf8_valid.induct)
  case (2 b s)
  then have n: "rune_len (b # s) \<noteq> 0" "utf8_valid (drop (rune_len (b # s)) (b # s))"
    by (simp_all add: utf8_valid.simps(2) Let_def del: rune_len.simps split: if_splits)
  with 2 show ?case by (simp add: utf8_fix.simps(2) Let_def del: rune_len.simps)
qed simp

lemma utf8_fix_idem: "utf8_fix (utf8_fix s) = utf8_fix s"
  by (rule utf8_fix_valid [OF utf8_valid_fix])

lemma utf8_fix_Nil_iff: "utf8_fix s = [] \<longleftrightarrow> s = []"
  by (cases s) (auto simp: utf8_fix.simps(2) Let_def replacement_def simp del: rune_len.simps)

lemma utf8_valid_ascii: "list_all (\<lambda>c. byte_of c < 0x80) s \<Longrightarrow> utf8_valid s"
  by (induction s) (auto simp: utf8_valid.simps(2) seq_len_def Let_def)

end
