(* ===== verification/Wire.thy ===== *)
theory Wire
  imports Requests Utf8
begin

text \<open>
  The messages nodes exchange (\<open>server/server.go\<close>: \<open>eventRequest\<close> and the encoded requests),
  as \<open>encoding/json\<close> reads and writes them. A JSON text is represented by its syntax tree:
  \<open>JInt\<close> is a number literal without fraction and exponent, \<open>JFloat\<close> any other (with the
  double it denotes), and the strings are those after unquoting. Encoding may fail (NaN, maps
  with other than string or integer keys), decoding may fail (a value of the wrong type).
\<close>

section \<open>Values\<close>

datatype json =
    JNull
  | JBool bool
  | JInt int
  | JFloat "64 word"
  | JStr string
  | JArr "json list"
  | JObj "(string \<times> json) list"

fun bit_len :: "nat \<Rightarrow> nat" where
  "bit_len n = (if n = 0 then 0 else Suc (bit_len (n div 2)))"

declare bit_len.simps [simp del]

text \<open>The nearest double to an integer, ties to even, as its bits.\<close>

definition float_of_int :: "int \<Rightarrow> 64 word" where
  "float_of_int i =
     (if i = 0 then 0
      else let m = nat \<bar>i\<bar>; e = bit_len m - 1;
               (q, e) =
                 (if e \<le> 52 then (m * 2 ^ (52 - e), e)
                  else let u = 2 ^ (e - 52); q = m div u; r = m mod u;
                           q = (if 2 * r > u \<or> (2 * r = u \<and> odd q) then q + 1 else q)
                       in if q = 2 ^ 53 then (2 ^ 52, e + 1) else (q, e))
           in (if i < 0 then 2 ^ 63 else 0) + word_of_nat ((e + 1023) * 2 ^ 52 + (q - 2 ^ 52)))"

text \<open>Literals from here on round to infinity, which the decoder refuses.\<close>

definition double_limit :: int where
  "double_limit = 2 ^ 1024 - 2 ^ 970"

definition float_finite :: "64 word \<Rightarrow> bool" where
  "float_finite f \<longleftrightarrow> take_bit 63 (uint f) < 0x7FF0000000000000"

fun json_key :: "goval \<Rightarrow> string option" where
  "json_key (VString s) = Some (utf8_fix s)"
| "json_key (VInt i) = Some (int_text (sint i))"
| "json_key _ = None"

fun marshal_value :: "goval \<Rightarrow> json option" where
  "marshal_value VNil = Some JNull"
| "marshal_value (VBool b) = Some (JBool b)"
| "marshal_value (VInt i) = Some (JInt (sint i))"
| "marshal_value (VFloat f) = (if float_finite f then Some (JFloat f) else None)"
| "marshal_value (VString s) = Some (JStr (utf8_fix s))"
| "marshal_value (VSlice t xs) = map_option JArr (those (map marshal_value xs))"
| "marshal_value (VMap kt t kvs) =
     (if kt \<noteq> TyString \<and> kt \<noteq> TyInt then None
      else map_option JObj (those (map (\<lambda>(k, v).
             case (json_key k, marshal_value v) of
               (Some k', Some v') \<Rightarrow> Some (k', v')
             | _ \<Rightarrow> None) kvs)))"

text \<open>Decoding into an \<open>interface{}\<close>; a repeated key of an object overwrites the entry.\<close>

fun unmarshal_value :: "json \<Rightarrow> goval option" where
  "unmarshal_value JNull = Some VNil"
| "unmarshal_value (JBool b) = Some (VBool b)"
| "unmarshal_value (JInt i) = (if \<bar>i\<bar> < double_limit then Some (VFloat (float_of_int i)) else None)"
| "unmarshal_value (JFloat f) = Some (VFloat f)"
| "unmarshal_value (JStr s) = Some (VString s)"
| "unmarshal_value (JArr xs) = map_option (VSlice TyInterface) (those (map unmarshal_value xs))"
| "unmarshal_value (JObj kvs) =
     map_option (\<lambda>vs. VMap TyString TyInterface (fold (\<lambda>(k, v). AList.update (VString k) v) vs []))
       (those (map (\<lambda>(k, v). map_option (Pair k) (unmarshal_value v)) kvs))"

section \<open>Requests\<close>

fun marshal_request :: "request \<Rightarrow> json option" where
  "marshal_request (RequestKeys i) = Some (JObj [(''ID'', JStr (utf8_fix i))])"
| "marshal_request (RequestLoad i key) =
     Some (JObj [(''ID'', JStr (utf8_fix i)), (''Key'', JStr (utf8_fix key))])"
| "marshal_request (RequestStore i expire key data) =
     map_option (\<lambda>d. JObj [(''ID'', JStr (utf8_fix i)), (''ExpireTime'', JInt (sint expire)),
                           (''Key'', JStr (utf8_fix key)), (''Data'', d)])
       (marshal_value data)"
| "marshal_request (RequestDelete i key) =
     Some (JObj [(''ID'', JStr (utf8_fix i)), (''Key'', JStr (utf8_fix key))])"
| "marshal_request (RequestListIndex i key ix) =
     Some (JObj [(''ID'', JStr (utf8_fix i)), (''Key'', JStr (utf8_fix key)),
                 (''Index'', JInt (uint ix))])"
| "marshal_request (RequestDictItem i key item) =
     map_option (\<lambda>d. JObj [(''ID'', JStr (utf8_fix i)), (''Key'', JStr (utf8_fix key)), (''Item'', d)])
       (marshal_value item)"

text \<open>Field names match without regard to (ASCII) case; unknown members are ignored.\<close>

definition ascii_lower :: "char \<Rightarrow> char" where
  "ascii_lower c = (if 65 \<le> byte_of c \<and> byte_of c \<le> 90 then char_of (byte_of c + 32) else c)"

definition field_is :: "string \<Rightarrow> string \<Rightarrow> bool" where
  "field_is name member \<longleftrightarrow> map ascii_lower name = map ascii_lower member"

text \<open>A member stored into a field of type string, signed or unsigned 64-bit integer, or interface.\<close>

fun into_string :: "json \<Rightarrow> string \<Rightarrow> string option" where
  "into_string (JStr s) _ = Some s"
| "into_string JNull old = Some old"
| "into_string _ _ = None"

fun into_int64 :: "json \<Rightarrow> int64 \<Rightarrow> int64 option" where
  "into_int64 (JInt i) _ = (if - (2 ^ 63) \<le> i \<and> i < 2 ^ 63 then Some (word_of_int i) else None)"
| "into_int64 JNull old = Some old"
| "into_int64 _ _ = None"

fun into_uint64 :: "json \<Rightarrow> uint64 \<Rightarrow> uint64 option" where
  "into_uint64 (JInt i) _ = (if 0 \<le> i \<and> i < 2 ^ 64 then Some (word_of_int i) else None)"
| "into_uint64 JNull old = Some old"
| "into_uint64 _ _ = None"

fun set_member :: "request \<Rightarrow> string \<times> json \<Rightarrow> request option" where
  "set_member (RequestKeys i) (m, v) =
     (if field_is ''ID'' m then map_option RequestKeys (into_string v i) else Some (RequestKeys i))"
| "set_member (RequestLoad i key) (m, v) =
     (if field_is ''ID'' m then map_option (\<lambda>i. RequestLoad i key) (into_string v i)
      else if field_is ''Key'' m then map_option (\<lambda>key. RequestLoad i key) (into_string v key)
      else Some (RequestLoad i key))"
| "set_member (RequestStore i expire key data) (m, v) =
     (if field_is ''ID'' m then map_option (\<lambda>i. RequestStore i expire key data) (into_string v i)
      else if field_is ''ExpireTime'' m then
        map_option (\<lambda>e. RequestStore i e key data) (into_int64 v expire)
      else if field_is ''Key'' m then
        map_option (\<lambda>key. RequestStore i expire key data) (into_string v key)
      else if field_is ''Data'' m then map_option (RequestStore i expire key) (unmarshal_value v)
      else Some (RequestStore i expire key data))"
| "set_member (RequestDelete i key) (m, v) =
     (if field_is ''ID'' m then map_option (\<lambda>i. RequestDelete i key) (into_string v i)
      else if field_is ''Key'' m then map_option (\<lambda>key. RequestDelete i key) (into_string v key)
      else Some (RequestDelete i key))"
| "set_member (RequestListIndex i key ix) (m, v) =
     (if field_is ''ID'' m then map_option (\<lambda>i. RequestListIndex i key ix) (into_string v i)
      else if field_is ''Key'' m then
        map_option (\<lambda>key. RequestListIndex i key ix) (into_string v key)
      else if field_is ''Index'' m then map_option (RequestListIndex i key) (into_uint64 v ix)
      else Some (RequestListIndex i key ix))"
| "set_member (RequestDictItem i key item) (m, v) =
     (if field_is ''ID'' m then map_option (\<lambda>i. RequestDictItem i key item) (into_string v i)
      else if field_is ''Key'' m then
        map_option (\<lambda>key. RequestDictItem i key item) (into_string v key)
      else if field_is ''Item'' m then map_option (RequestDictItem i key) (unmarshal_value v)
      else Some (RequestDictItem i key item))"

fun set_members :: "request \<Rightarrow> (string \<times> json) list \<Rightarrow> request option" where
  "set_members r [] = Some r"
| "set_members r (m # ms) =
     (case set_member r m of None \<Rightarrow> None | Some r' \<Rightarrow> set_members r' ms)"

fun unmarshal_request :: "request \<Rightarrow> json \<Rightarrow> request option" where
  "unmarshal_request r JNull = Some r"
| "unmarshal_request r (JObj ms) = set_members r ms"
| "unmarshal_request r _ = None"

section \<open>What arrives of a request\<close>

text \<open>
  The value a decoder rebuilds from what the encoder wrote, and the request the receiving node
  works on: same kind, strings made valid, data rebuilt.
\<close>

definition wire_value :: "goval \<Rightarrow> goval option" where
  "wire_value v = (case marshal_value v of None \<Rightarrow> None | Some j \<Rightarrow> unmarshal_value j)"

fun wire_request :: "request \<Rightarrow> request option" where
  "wire_request (RequestKeys i) = Some (RequestKeys (utf8_fix i))"
| "wire_request (RequestLoad i key) = Some (RequestLoad (utf8_fix i) (utf8_fix key))"
| "wire_request (RequestStore i expire key data) =
     map_option (RequestStore (utf8_fix i) expire (utf8_fix key)) (wire_value data)"
| "wire_request (RequestDelete i key) = Some (RequestDelete (utf8_fix i) (utf8_fix key))"
| "wire_request (RequestListIndex i key ix) = Some (RequestListIndex (utf8_fix i) (utf8_fix key) ix)"
| "wire_request (RequestDictItem i key item) =
     map_option (RequestDictItem (utf8_fix i) (utf8_fix key)) (wire_value item)"

lemma field_is_simps [simp]:
  "field_is ''ID'' ''ID''" "field_is ''Key'' ''Key''" "field_is ''ExpireTime'' ''ExpireTime''"
  "field_is ''Data'' ''Data''" "field_is ''Index'' ''Index''" "field_is ''Item'' ''Item''"
  "\<not> field_is ''ID'' ''Key''" "\<not> field_is ''ID'' ''ExpireTime''" "\<not> field_is ''ID'' ''Data''"
  "\<not> field_is ''ID'' ''Index''" "\<not> field_is ''ID'' ''Item''" "\<not> field_is ''ExpireTime'' ''Key''"
  "\<not> field_is ''ExpireTime'' ''Data''" "\<not> field_is ''Key'' ''Data''" "\<not> field_is ''Key'' ''Index''"
  "\<not> field_is ''Key'' ''Item''"
  by (simp_all add: field_is_def ascii_lower_def)

lemma into_int64_sint [simp]: "into_int64 (JInt (sint e)) old = Some e"
  using sint_in_duration [of e] by (simp add: min_duration_def max_duration_def)

lemma into_uint64_uint [simp]: "into_uint64 (JInt (uint e)) old = Some e"
  using uint_lt2p [of e] by simp

lemma request_through_wire:
  "make_request (req_action r) = Inr proto \<Longrightarrow> marshal_request r = Some j \<Longrightarrow>
     unmarshal_request proto j = wire_request r"
  by (cases r)
     (auto simp: make_request_def request_map_def wire_value_def simp del: into_int64.simps into_uint64.simps
       split: option.splits)

lemma req_action_wire: "wire_request r = Some r' \<Longrightarrow> req_action r' = req_action r"
  by (cases r) auto

lemma req_hash_wire: "wire_request r = Some r' \<Longrightarrow> req_hash r' = utf8_fix (req_hash r)"
  by (cases r) auto

section \<open>Values that survive the wire\<close>

lemma marshal_decodes: "marshal_value v = Some j \<Longrightarrow> \<exists>v'. unmarshal_value j = Some v'"
proof (induction v arbitrary: j rule: marshal_value.induct)
  case (3 i)
  have "\<bar>sint i\<bar> < double_limit"
    using sint_in_duration [of i] by (simp add: min_duration_def max_duration_def double_limit_def)
  with 3 show ?case by auto
next
  case (6 t xs)
  then obtain js where js: "j = JArr js" "list_all2 (\<lambda>x y. marshal_value x = Some y) xs js"
    by (auto simp: those_map_Some)
  have "\<exists>v'. unmarshal_value y = Some v'" if "y \<in> set js" for y
  proof -
    from that obtain n where n: "n < length js" "y = js ! n" by (auto simp: in_set_conv_nth)
    with js(2) have "xs ! n \<in> set xs" "marshal_value (xs ! n) = Some y"
      by (auto simp: list_all2_conv_all_nth)
    then show ?thesis by (rule 6)
  qed
  then show ?case using those_ex [of js unmarshal_value] by (auto simp: js(1))
next
  case (7 kt t kvs)
  define f where "f = (\<lambda>(k, v). case (json_key k, marshal_value v) of
      (Some k', Some v') \<Rightarrow> Some (k', v') | _ \<Rightarrow> None)"
  from 7(2) obtain js where js: "j = JObj js" "list_all2 (\<lambda>x y. f x = Some y) kvs js"
    by (auto simp: those_map_Some f_def split: if_splits)
  have "\<exists>v'. map_option (Pair k) (unmarshal_value v) = Some v'" if "(k, v) \<in> set js" for k v
  proof -
    from that obtain n where n: "n < length js" "(k, v) = js ! n" by (auto simp: in_set_conv_nth)
    obtain a b where ab: "kvs ! n = (a, b)" by (cases "kvs ! n")
    from n js(2) have "kvs ! n \<in> set kvs" "f (kvs ! n) = Some (k, v)"
      by (auto simp: list_all2_conv_all_nth)
    then have "(a, b) \<in> set kvs" "marshal_value b = Some v"
      by (auto simp: f_def ab split: option.splits)
    then show ?thesis using 7(1) [of "(a, b)" a b v] 7(2) by (auto split: if_splits)
  qed
  then show ?case
    using those_ex [of js "\<lambda>(k, v). map_option (Pair k) (unmarshal_value v)"] by (auto simp: js(1))
qed (auto split: if_splits)

lemma wire_value_None: "wire_value v = None \<longleftrightarrow> marshal_value v = None"
  using marshal_decodes [of v] by (auto simp: wire_value_def split: option.splits)

lemma wire_request_None: "wire_request r = None \<longleftrightarrow> marshal_request r = None"
  by (cases r) (auto simp: wire_value_None)

text \<open>Data as the JSON decoder produces it, with valid strings, finite numbers, distinct keys.\<close>

fun json_string :: "goval \<Rightarrow> bool" where
  "json_string (VString s) = utf8_valid s"
| "json_string _ = False"

fun json_shaped :: "goval \<Rightarrow> bool" where
  "json_shaped VNil = True"
| "json_shaped (VBool _) = True"
| "json_shaped (VInt _) = False"
| "json_shaped (VFloat f) = float_finite f"
| "json_shaped (VString s) = utf8_valid s"
| "json_shaped (VSlice t xs) = (t = TyInterface \<and> list_all json_shaped xs)"
| "json_shaped (VMap kt t kvs) =
     (kt = TyString \<and> t = TyInterface \<and> distinct (map fst kvs) \<and>
      list_all (\<lambda>(k, v). json_string k \<and> json_shaped v) kvs)"

fun raw_string :: "goval \<Rightarrow> string" where
  "raw_string (VString s) = s"
| "raw_string _ = []"

lemma json_string_raw: "json_string k \<Longrightarrow> json_key k = Some (raw_string k) \<and> VString (raw_string k) = k"
  by (cases k) (auto simp: utf8_fix_valid)

lemma wire_json_shaped: "json_shaped v \<Longrightarrow> \<exists>j. marshal_value v = Some j \<and> unmarshal_value j = Some v"
proof (induction v rule: json_shaped.induct)
  case (6 t xs)
  define enc where "enc x = the (marshal_value x)" for x
  have enc: "marshal_value x = Some (enc x)" "unmarshal_value (enc x) = Some x" if "x \<in> set xs" for x
    using 6 that by (fastforce simp: enc_def list_all_iff)+
  have "those (map marshal_value xs) = Some (map enc xs)"
    by (rule those_map_id) (rule enc)
  moreover have "those (map unmarshal_value (map enc xs)) = Some xs"
    using those_map_id [of xs "unmarshal_value \<circ> enc" id] enc by (simp add: comp_def)
  ultimately show ?case using 6 by simp
next
  case (7 kt t kvs)
  define enc where "enc = (\<lambda>(k, v). (raw_string k, the (marshal_value v)))"
  have ok: "json_string k" "\<exists>j. marshal_value v = Some j \<and> unmarshal_value j = Some v"
    if "(k, v) \<in> set kvs" for k v
    using 7 that by (auto simp: list_all_iff)
  have "those (map (\<lambda>(k, v). case (json_key k, marshal_value v) of
           (Some k', Some v') \<Rightarrow> Some (k', v') | _ \<Rightarrow> None) kvs) = Some (map enc kvs)"
    by (rule those_map_id) (use ok in \<open>fastforce simp: enc_def json_string_raw\<close>)
  moreover have "those (map (\<lambda>(k, v). map_option (Pair k) (unmarshal_value v)) (map enc kvs)) =
      Some (map (\<lambda>(k, v). (raw_string k, v)) kvs)"
    unfolding map_map
    by (rule those_map_id) (use ok in \<open>fastforce simp: enc_def\<close>)
  moreover have "fold (\<lambda>(k, v). AList.update (VString k) v) (map (\<lambda>(k, v). (raw_string k, v)) kvs) [] = kvs"
  proof -
    have "fold (\<lambda>(k, v). AList.update (VString k) v) (map (\<lambda>(k, v). (raw_string k, v)) kvs) [] =
        fold (\<lambda>(k, v). AList.update k v) kvs []"
      unfolding fold_map
      by (rule fold_cong) (use ok in \<open>fastforce simp: fun_eq_iff json_string_raw\<close>)+
    also have "\<dots> = kvs" using alist_fold_distinct [of "[]" kvs] 7(2) by simp
    finally show ?thesis .
  qed
  ultimately show ?case using 7(2) by simp
qed (auto simp: utf8_fix_valid)

lemma wire_value_shaped: "json_shaped v \<Longrightarrow> wire_value v = Some v"
  using wire_json_shaped [of v] by (auto simp: wire_value_def)

text \<open>A request whose strings are valid and whose data is JSON-shaped arrives as it was sent.\<close>

fun clean_request :: "request \<Rightarrow> bool" where
  "clean_request (RequestStore i _ key data) = (utf8_valid i \<and> utf8_valid key \<and> json_shaped data)"
| "clean_request (RequestDictItem i key item) = (utf8_valid i \<and> utf8_valid key \<and> json_shaped item)"
| "clean_request r = (utf8_valid (req_id r) \<and> utf8_valid (req_hash r))"

lemma wire_clean_request: "clean_request r \<Longrightarrow> wire_request r = Some r"
  by (cases r) (simp_all add: utf8_fix_valid wire_value_shaped)

lemma request_sent:
  assumes "marshal_request r = Some j"
  obtains r' where "wire_request r = Some r'"
    "\<And>proto. make_request (req_action r) = Inr proto \<Longrightarrow> unmarshal_request proto j = Some r'"
proof -
  from assms obtain r' where "wire_request r = Some r'"
    using wire_request_None [of r] by auto
  with that request_through_wire [OF _ assms] show thesis by simp
qed

end
