(* ===== verification/Server.thy ===== *)
theory Server
  imports Store Ring Wire
begin

text \<open>
  Component \<open>server/server.go\<close>, one node: its list of nodes and their order, the responses,
  joining the cluster (\<open>join\<close>, \<open>joinN\<close>, \<open>Start\<close>) and the choice and processing of a request
  (\<open>Do\<close>). A connection is the address that was dialled. The network enters as parameters: what
  each dial attempt returns, the order in which the joining goroutines finish, and the
  identifiers \<open>uuid.New\<close> yields.
\<close>

section \<open>Addresses\<close>

text \<open>A \<open>net.TCPAddr\<close> by its text \<open>host:port\<close>; addresses are ordered as their texts.\<close>

datatype tcp_addr = TCPAddr (addr_text: string)

instantiation tcp_addr :: linorder
begin

definition less_eq_tcp_addr :: "tcp_addr \<Rightarrow> tcp_addr \<Rightarrow> bool" where
  "less_eq_tcp_addr a b = (addr_text a \<le> addr_text b)"

definition less_tcp_addr :: "tcp_addr \<Rightarrow> tcp_addr \<Rightarrow> bool" where
  "less_tcp_addr a b = (addr_text a < addr_text b)"

instance
  by standard (auto simp: less_eq_tcp_addr_def less_tcp_addr_def intro: tcp_addr.expand)

end

type_synonym conn = tcp_addr

text \<open>A pointer to an address may be nil (in the zero \<open>Node\<close> of an error response).\<close>

record node =
  node_id :: string
  node_addr :: "tcp_addr option"
  node_conn :: "conn option"

definition node_zero :: node where
  "node_zero = \<lparr>node_id = [], node_addr = None, node_conn = None\<rparr>"

fun addr_string :: "tcp_addr option \<Rightarrow> string" where
  "addr_string None = ''<nil>''"
| "addr_string (Some a) = addr_text a"

section \<open>The order of the nodes\<close>

definition nodes_len :: "node list \<Rightarrow> nat" where
  "nodes_len n = length n"

definition nodes_less :: "node list \<Rightarrow> nat \<Rightarrow> nat \<Rightarrow> bool" where
  "nodes_less n i j = (addr_string (node_addr (n ! i)) < addr_string (node_addr (n ! j)))"

definition nodes_swap :: "node list \<Rightarrow> nat \<Rightarrow> nat \<Rightarrow> node list" where
  "nodes_swap n i j = n[i := n ! j, j := n ! i]"

text \<open>
  \<open>sort.Sort\<close> by insertion, through \<open>Len\<close>, \<open>Less\<close> and \<open>Swap\<close> as package \<open>sort\<close> does it for
  short slices. What the cluster relies on holds of any sorting procedure (locale \<open>sorter\<close>).
\<close>

fun sift_left :: "node list \<Rightarrow> nat \<Rightarrow> node list" where
  "sift_left n 0 = n"
| "sift_left n (Suc j) =
     (if nodes_less n (Suc j) j then sift_left (nodes_swap n (Suc j) j) j else n)"

definition sort_nodes :: "node list \<Rightarrow> node list" where
  "sort_nodes n = fold (\<lambda>i n. sift_left n i) [1..<nodes_len n] n"

section \<open>Responses\<close>

record response =
  status :: int
  rerror :: string
  rnode :: node
  rrecord :: hrecord

definition response_zero :: response where
  "response_zero = \<lparr>status = 0, rerror = [], rnode = node_zero, rrecord = record_zero\<rparr>"

abbreviation status_ok :: int where "status_ok \<equiv> 200"
abbreviation status_not_found :: int where "status_not_found \<equiv> 404"
abbreviation status_conflict :: int where "status_conflict \<equiv> 409"
abbreviation status_internal :: int where "status_internal \<equiv> 500"

text \<open>An \<open>error\<close>: nil, one of the store's, or any other.\<close>

datatype go_error = NilError | StoreError store_error | OtherError string

fun status_of :: "go_error \<Rightarrow> int" where
  "status_of NilError = status_ok"
| "status_of (StoreError (ErrInternal _)) = status_internal"
| "status_of (StoreError (ErrConflict _)) = status_conflict"
| "status_of (StoreError (ErrMissing _)) = status_not_found"
| "status_of (OtherError _) = status_internal"

section \<open>The server\<close>

record config =
  local_addr :: tcp_addr
  cfg_nodes :: "node list"
  num_partitions :: int64
  num_retries :: int64

record server =
  server_id :: string
  laddr :: tcp_addr
  nodes :: "node list"
  retries :: int64
  sring :: "nat ring"
  sstore :: store

text \<open>The arguments are evaluated in the order of the literal: the ring before the store.\<close>

definition new_server :: "string \<Rightarrow> config \<Rightarrow> server res" where
  "new_server uuid cfg =
     (case new_ring (num_partitions cfg) of
        Inl p \<Rightarrow> Inl p
      | Inr r \<Rightarrow>
          (case new_store (num_partitions cfg) of
             Inl p \<Rightarrow> Inl p
           | Inr st \<Rightarrow>
               Inr \<lparr>server_id = uuid, laddr = local_addr cfg, nodes = cfg_nodes cfg,
                    retries = num_retries cfg, sring = r, sstore = st\<rparr>))"

subsection \<open>Joining\<close>

abbreviation go_second :: duration where "go_second \<equiv> 1000000000"

text \<open>
  The loop of \<open>join\<close>: attempt \<open>i\<close> has the outcome \<open>dial i\<close>; the sleeps between the attempts
  are collected. The backoff doubles in 64-bit arithmetic.
\<close>

function join_loop ::
    "(nat \<Rightarrow> string + conn) \<Rightarrow> string \<Rightarrow> int \<Rightarrow> nat \<Rightarrow> duration \<Rightarrow> duration list \<Rightarrow>
     (string + conn) \<times> duration list" where
  "join_loop dial addr limit i backoff slept =
     (if int i \<le> limit then
        (case dial i of
           Inr conn \<Rightarrow> (Inr conn, slept)
         | Inl err \<Rightarrow>
             join_loop dial addr limit (Suc i) (backoff * 2)
               (if int i < limit then slept @ [backoff] else slept))
      else (Inl (''server: all connection attempts failed to '' @ addr), slept))"
  by pat_completeness auto
termination
  by (relation "measure (\<lambda>(dial, addr, limit, i, backoff, slept). nat (limit + 1 - int i))") auto

declare join_loop.simps [simp del]

definition join_node ::
    "(nat \<Rightarrow> string + conn) \<Rightarrow> server \<Rightarrow> node \<Rightarrow> (string + conn) \<times> duration list" where
  "join_node dial s n = join_loop dial (addr_string (node_addr n)) (sint (retries s)) 0 go_second []"

text \<open>
  \<open>joinN\<close>: one goroutine per node; \<open>finish\<close> lists the goroutines in the order in which they
  take the mutex at their end, \<open>uuid ii\<close> is the identifier goroutine \<open>ii\<close> draws.
\<close>

definition join_done ::
    "(tcp_addr option \<Rightarrow> nat \<Rightarrow> string + conn) \<Rightarrow> (nat \<Rightarrow> string) \<Rightarrow> server \<Rightarrow> node list \<Rightarrow>
     nat \<Rightarrow> node list \<times> string list \<Rightarrow> node list \<times> string list" where
  "join_done dial uuid s ns ii acc =
     (let (out, errors) = acc; n = ns ! ii
      in case fst (join_node (dial (node_addr n)) s n) of
           Inl err \<Rightarrow> (out, errors @ [err])
         | Inr conn \<Rightarrow>
             (out[ii := \<lparr>node_id = uuid ii, node_addr = node_addr n, node_conn = Some conn\<rparr>], errors))"

definition join_n ::
    "(tcp_addr option \<Rightarrow> nat \<Rightarrow> string + conn) \<Rightarrow> (nat \<Rightarrow> string) \<Rightarrow> nat list \<Rightarrow> server \<Rightarrow>
     server \<times> string option" where
  "join_n dial uuid finish s =
     (let (out, errors) = fold (join_done dial uuid s (nodes s)) finish (nodes s, []);
          s = s\<lparr>nodes := out\<rparr>
      in if errors \<noteq> [] then
           (s, Some (''server: failed to connect neighbors, '' @ join_text '', '' errors))
         else (s, None))"

fun insert_all :: "nat ring \<Rightarrow> nat list \<Rightarrow> nat ring res" where
  "insert_all r [] = Inr r"
| "insert_all r (ii # is) = (case ring_insert r ii of Inl p \<Rightarrow> Inl p | Inr r' \<Rightarrow> insert_all r' is)"

text \<open>\<open>Start\<close>; the goroutine it leaves behind to listen, and the closing of connections after an
  error, are in theory \<open>Lifecycle\<close>.\<close>

definition start ::
    "(tcp_addr option \<Rightarrow> nat \<Rightarrow> string + conn) \<Rightarrow> (nat \<Rightarrow> string) \<Rightarrow> nat list \<Rightarrow> server \<Rightarrow>
     (server \<times> string option) res" where
  "start dial uuid finish s =
     (case join_n dial uuid finish s of
        (s, Some err) \<Rightarrow> Inr (s, Some err)
      | (s, None) \<Rightarrow>
          let self = \<lparr>node_id = uuid (length (nodes s)), node_addr = Some (laddr s), node_conn = None\<rparr>;
              s = s\<lparr>nodes := sort_nodes (nodes s @ [self])\<rparr>
          in (case insert_all (sring s) [0..<length (nodes s)] of
                Inl p \<Rightarrow> Inl p
              | Inr r \<Rightarrow> Inr (s\<lparr>sring := r\<rparr>, None)))"

subsection \<open>Serving a request\<close>

text \<open>The node in charge of a request.\<close>

definition route :: "server \<Rightarrow> request \<Rightarrow> node res" where
  "route s req =
     (case ring_find (sring s) (string_hasher_hash (req_hash req)) of
        Inl p \<Rightarrow> Inl p
      | Inr ix \<Rightarrow>
          if length (nodes s) \<le> ix then Inl IndexOutOfRange else Inr (nodes s ! ix))"

text \<open>\<open>Do\<close> first decides where the request is processed.\<close>

datatype plan = PlanPanic go_panic | PlanLocal node | PlanForward node conn

definition do_plan :: "server \<Rightarrow> request \<Rightarrow> plan" where
  "do_plan s req =
     (case route s req of
        Inl p \<Rightarrow> PlanPanic p
      | Inr n \<Rightarrow>
          (case node_conn n of
             None \<Rightarrow> PlanLocal n
           | Some c \<Rightarrow> if req_hash req = '''' then PlanLocal n else PlanForward n c))"

definition respond :: "node \<Rightarrow> outcome \<Rightarrow> response res" where
  "respond n out =
     (case out of
        Inl p \<Rightarrow> Inl p
      | Inr (Inl err) \<Rightarrow>
          Inr (response_zero\<lparr>status := status_of (StoreError err), rerror := error_text err\<rparr>)
      | Inr (Inr rec) \<Rightarrow>
          Inr (response_zero\<lparr>rrecord := rec, rnode := n, status := status_of NilError\<rparr>))"

definition do_local :: "runtime \<Rightarrow> server \<Rightarrow> node \<Rightarrow> request \<Rightarrow> server \<times> response res" where
  "do_local rt s n req =
     (let (st, out) = process store_ops rt req (sstore s)
      in (s\<lparr>sstore := st\<rparr>, respond n out))"

text \<open>The end of \<open>Do\<close> for a request that another node answered, or failed to.\<close>

fun do_forwarded :: "string + response \<Rightarrow> response" where
  "do_forwarded (Inl err) = response_zero\<lparr>status := status_of (OtherError err), rerror := err\<rparr>"
| "do_forwarded (Inr resp) = resp"

section \<open>Sorting\<close>

text \<open>What \<open>sort.Sort\<close> promises: the same elements, in order. It is not stable.\<close>

locale sorter =
  fixes sortf :: "'a list \<Rightarrow> 'a list" and key :: "'a \<Rightarrow> 'k::linorder"
  assumes perm: "mset (sortf xs) = mset xs"
    and ordered: "sorted (map key (sortf xs))"
begin

lemma keys_sorted: "map key (sortf xs) = sort (map key xs)"
  using ordered [of xs] perm [of xs] by (metis mset_map properties_for_sort)

lemma keys_agree:
  assumes "mset (map key xs) = mset (map key ys)"
  shows "map key (sortf xs) = map key (sortf ys)"
  unfolding keys_sorted using assms by (metis properties_for_sort mset_sort sorted_sort)

lemma length_sorted: "length (sortf xs) = length xs"
  using perm [of xs] by (metis size_mset)

lemma set_sorted: "set (sortf xs) = set xs"
  using perm [of xs] by (metis set_mset_mset)

end

abbreviation node_key :: "node \<Rightarrow> string" where
  "node_key n \<equiv> addr_string (node_addr n)"

text \<open>Slots \<open>0..m\<close> are in order but for slot \<open>j\<close>, which may be smaller than the one before it.\<close>

definition sift_inv :: "node list \<Rightarrow> nat \<Rightarrow> nat \<Rightarrow> bool" where
  "sift_inv n j m \<longleftrightarrow> j \<le> m \<and> m < length n \<and>
     (\<forall>i < m. Suc i \<noteq> j \<longrightarrow> node_key (n ! i) \<le> node_key (n ! Suc i)) \<and>
     (0 < j \<longrightarrow> j < m \<longrightarrow> node_key (n ! (j - 1)) \<le> node_key (n ! Suc j))"

lemma nth_nodes_swap:
  "i < length n \<Longrightarrow> j < length n \<Longrightarrow> k < length n \<Longrightarrow>
     nodes_swap n i j ! k = (if k = j then n ! i else if k = i then n ! j else n ! k)"
  by (auto simp: nodes_swap_def nth_list_update)

lemma length_nodes_swap [simp]: "length (nodes_swap n i j) = length n"
  by (simp add: nodes_swap_def)

lemma sift_inv_swap:
  assumes inv: "sift_inv n (Suc j) m" and less: "nodes_less n (Suc j) j"
  shows "sift_inv (nodes_swap n (Suc j) j) j m"
proof -
  have jm: "Suc j \<le> m" "m < length n" using inv by (simp_all add: sift_inv_def)
  have nth: "nodes_swap n (Suc j) j ! k = (if k = j then n ! Suc j else if k = Suc j then n ! j else n ! k)"
    if "k \<le> m" for k
    using nth_nodes_swap [of "Suc j" n j k] jm that by simp
  have ord: "node_key (n ! i) \<le> node_key (n ! Suc i)" if "i < m" "i \<noteq> j" for i
    using inv that by (simp add: sift_inv_def)
  have skip: "node_key (n ! j) \<le> node_key (n ! Suc (Suc j))" if "Suc j < m"
    using inv that by (simp add: sift_inv_def)
  have lt: "node_key (n ! Suc j) < node_key (n ! j)" using less by (simp add: nodes_less_def)
  have "node_key (nodes_swap n (Suc j) j ! i) \<le> node_key (nodes_swap n (Suc j) j ! Suc i)"
    if i: "i < m" "Suc i \<noteq> j" for i
    using i nth [of i] nth [of "Suc i"] lt skip ord [OF i(1)] by auto
  moreover have "node_key (nodes_swap n (Suc j) j ! (j - 1)) \<le> node_key (nodes_swap n (Suc j) j ! Suc j)"
    if "0 < j" using that nth [of "j - 1"] nth [of "Suc j"] jm ord [of "j - 1"] by auto
  ultimately show ?thesis using jm by (simp add: sift_inv_def)
qed

lemma sift_left_result:
  "sift_inv n j m \<Longrightarrow> length (sift_left n j) = length n \<and> mset (sift_left n j) = mset n \<and>
     (\<forall>i < m. node_key (sift_left n j ! i) \<le> node_key (sift_left n j ! Suc i))"
proof (induction n j rule: sift_left.induct)
  case (1 n)
  then show ?case by (auto simp: sift_inv_def)
next
  case (2 n j)
  show ?case
  proof (cases "nodes_less n (Suc j) j")
    case True
    moreover have "mset (nodes_swap n (Suc j) j) = mset n"
      using "2.prems" by (auto simp: nodes_swap_def sift_inv_def intro: mset_swap)
    ultimately show ?thesis using "2.IH" [OF True sift_inv_swap [OF "2.prems" True]] by simp
  next
    case False
    with "2.prems" have "node_key (n ! i) \<le> node_key (n ! Suc i)" if "i < m" for i
      using that by (cases "i = j") (auto simp: sift_inv_def nodes_less_def not_less)
    with False show ?thesis by simp
  qed
qed

lemma sort_prefix:
  assumes "k \<le> length n" and "0 < k"
  shows "let n' = fold (\<lambda>i n. sift_left n i) [1..<k] n in
     length n' = length n \<and> mset n' = mset n \<and>
     (\<forall>i. Suc i < k \<longrightarrow> node_key (n' ! i) \<le> node_key (n' ! Suc i))"
  using assms
proof (induction k)
  case (Suc k)
  show ?case
  proof (cases "k = 0")
    case False
    let ?n = "fold (\<lambda>i n. sift_left n i) [1..<k] n"
    have len: "length ?n = length n" and ms: "mset ?n = mset n"
      and ord: "Suc i < k \<Longrightarrow> node_key (?n ! i) \<le> node_key (?n ! Suc i)" for i
      using Suc False by (simp_all add: Let_def)
    have "sift_inv ?n k k"
      unfolding sift_inv_def using Suc.prems len ord by auto
    from sift_left_result [OF this] len ms show ?thesis
      using False by (simp add: Let_def)
  qed simp
qed simp

lemma sort_nodes_result:
  "length (sort_nodes n) = length n \<and> mset (sort_nodes n) = mset n \<and> sorted (map node_key (sort_nodes n))"
proof (cases "n = []")
  case False
  then show ?thesis
    using sort_prefix [of "length n" n]
    by (simp add: sort_nodes_def nodes_len_def sorted_iff_nth_Suc Let_def)
qed (simp add: sort_nodes_def nodes_len_def)

interpretation ns: sorter sort_nodes node_key
  by unfold_locales (simp_all add: sort_nodes_result)

section \<open>Joining the cluster\<close>

lemma join_loop_success:
  assumes "\<And>k. i \<le> k \<Longrightarrow> k < m \<Longrightarrow> \<exists>e. dial k = Inl e"
    and "dial m = Inr c" and "i \<le> m" and "int m \<le> limit"
  shows "join_loop dial a limit i b slept = (Inr c, slept @ map (\<lambda>k. b * 2 ^ k) [0..<m - i])"
  using assms
proof (induction "m - i" arbitrary: i b slept)
  case 0
  then show ?case by (simp add: join_loop.simps)
next
  case (Suc d)
  then obtain e where e: "dial i = Inl e" by fastforce
  from Suc have i: "i < m" "int i < limit" by auto
  have "join_loop dial a limit (Suc i) (b * 2) (slept @ [b]) =
      (Inr c, (slept @ [b]) @ map (\<lambda>k. b * 2 * 2 ^ k) [0..<m - Suc i])"
    using Suc i by (intro Suc.hyps) auto
  moreover have "b # map (\<lambda>k. b * 2 * 2 ^ k) [0..<m - Suc i] = map (\<lambda>k. b * 2 ^ k) [0..<m - i]"
    using i(1) by (simp add: map_upt_Suc Suc_diff_Suc [symmetric] mult.assoc del: upt_Suc)
  ultimately show ?case using e i by (subst join_loop.simps) simp
qed

lemma join_loop_failure:
  assumes "\<And>k. i \<le> k \<Longrightarrow> int k \<le> limit \<Longrightarrow> \<exists>e. dial k = Inl e"
  shows "join_loop dial a limit i b slept =
     (Inl (''server: all connection attempts failed to '' @ a),
      slept @ map (\<lambda>k. b * 2 ^ k) [0..<nat (limit - int i)])"
  using assms
proof (induction "nat (limit + 1 - int i)" arbitrary: i b slept)
  case 0
  then show ?case by (simp add: join_loop.simps)
next
  case (Suc d)
  then have le: "int i \<le> limit" by linarith
  with Suc.prems obtain e where e: "dial i = Inl e" by blast
  let ?slept = "if int i < limit then slept @ [b] else slept"
  have IH: "join_loop dial a limit (Suc i) (b * 2) ?slept =
      (Inl (''server: all connection attempts failed to '' @ a),
       ?slept @ map (\<lambda>k. b * 2 * 2 ^ k) [0..<nat (limit - int (Suc i))])"
  proof (rule Suc.hyps(1))
    show "d = nat (limit + 1 - int (Suc i))" using Suc.hyps(2) by linarith
  qed (use Suc.prems in auto)
  show ?case
  proof (cases "int i < limit")
    case True
    then have "nat (limit - int i) = Suc (nat (limit - int (Suc i)))" by linarith
    then have "b # map (\<lambda>k. b * 2 * 2 ^ k) [0..<nat (limit - int (Suc i))] =
        map (\<lambda>k. b * 2 ^ k) [0..<nat (limit - int i)]"
      by (simp add: map_upt_Suc mult.assoc del: upt_Suc)
    with IH True le e show ?thesis by (subst join_loop.simps) simp
  next
    case False
    with IH le e show ?thesis by (subst join_loop.simps) simp
  qed
qed

text \<open>Every neighbour answers within the allowed number of attempts.\<close>

definition reachable_peers ::
    "(tcp_addr option \<Rightarrow> nat \<Rightarrow> string + conn) \<Rightarrow> server \<Rightarrow> bool" where
  "reachable_peers dial s \<longleftrightarrow>
     (\<forall>n \<in> set (nodes s). \<exists>a. node_addr n = Some a \<and> fst (join_node (dial (node_addr n)) s n) = Inr a)"

definition joined :: "(nat \<Rightarrow> string) \<Rightarrow> node list \<Rightarrow> nat \<Rightarrow> node" where
  "joined uuid ns ii =
     \<lparr>node_id = uuid ii, node_addr = node_addr (ns ! ii), node_conn = node_addr (ns ! ii)\<rparr>"

lemma fold_join_done:
  assumes "\<And>ii. ii \<in> set fin \<Longrightarrow> ii < length out \<and> (\<exists>a. node_addr (ns ! ii) = Some a \<and>
       fst (join_node (dial (node_addr (ns ! ii))) s (ns ! ii)) = Inr a)"
  shows "\<exists>out'. fold (join_done dial uuid s ns) fin (out, errs) = (out', errs) \<and>
     length out' = length out \<and>
     (\<forall>ii < length out. out' ! ii = (if ii \<in> set fin then joined uuid ns ii else out ! ii))"
  using assms
proof (induction fin arbitrary: out)
  case (Cons jj fin)
  then obtain a where a: "node_addr (ns ! jj) = Some a" "jj < length out"
    "fst (join_node (dial (Some a)) s (ns ! jj)) = Inr a" by fastforce
  let ?out = "out[jj := joined uuid ns jj]"
  have step: "join_done dial uuid s ns jj (out, errs) = (?out, errs)"
    using a by (simp add: join_done_def joined_def)
  have "\<exists>out'. fold (join_done dial uuid s ns) fin (?out, errs) = (out', errs) \<and>
     length out' = length ?out \<and>
     (\<forall>ii < length ?out. out' ! ii = (if ii \<in> set fin then joined uuid ns ii else ?out ! ii))"
    using Cons.prems by (intro Cons.IH) simp
  with step a(2) show ?case by (auto simp: nth_list_update)
qed simp

lemma join_n_success:
  assumes "reachable_peers dial s" and "set finish = {0..<length (nodes s)}"
  shows "join_n dial uuid finish s =
     (s\<lparr>nodes := map (joined uuid (nodes s)) [0..<length (nodes s)]\<rparr>, None)"
proof -
  from assms have "\<And>ii. ii \<in> set finish \<Longrightarrow> ii < length (nodes s) \<and>
      (\<exists>a. node_addr (nodes s ! ii) = Some a \<and>
         fst (join_node (dial (node_addr (nodes s ! ii))) s (nodes s ! ii)) = Inr a)"
    by (simp add: reachable_peers_def)
  from fold_join_done [of finish "nodes s" "nodes s" dial s uuid "[]", OF this]
  obtain out where out: "fold (join_done dial uuid s (nodes s)) finish (nodes s, []) = (out, [])"
    "length out = length (nodes s)"
    "\<forall>ii < length (nodes s). out ! ii = (if ii \<in> set finish then joined uuid (nodes s) ii else nodes s ! ii)"
    by blast
  then have "out = map (joined uuid (nodes s)) [0..<length (nodes s)]"
    using assms(2) by (intro nth_equalityI) auto
  with out(1) show ?thesis by (simp add: join_n_def)
qed

text \<open>The errors of the goroutines that failed, in the order in which they finished.\<close>

definition join_errors ::
    "(tcp_addr option \<Rightarrow> nat \<Rightarrow> string + conn) \<Rightarrow> server \<Rightarrow> node list \<Rightarrow> nat list \<Rightarrow> string list" where
  "join_errors dial s ns finish =
     concat (map (\<lambda>ii. case fst (join_node (dial (node_addr (ns ! ii))) s (ns ! ii)) of
                         Inl e \<Rightarrow> [e] | Inr _ \<Rightarrow> []) finish)"

lemma fold_join_errors:
  "snd (fold (join_done dial uuid s ns) fin acc) = snd acc @ join_errors dial s ns fin"
proof (induction fin arbitrary: acc)
  case (Cons jj fin)
  have "snd (join_done dial uuid s ns jj acc) = snd acc @ join_errors dial s ns [jj]"
    by (auto simp: join_done_def join_errors_def split_beta Let_def split: sum.split)
  with Cons.IH [of "join_done dial uuid s ns jj acc"] show ?case by (simp add: join_errors_def)
qed (simp add: join_errors_def)

lemma join_n_error:
  "snd (join_n dial uuid finish s) =
     (if join_errors dial s (nodes s) finish = [] then None
      else Some (''server: failed to connect neighbors, '' @
                 join_text '', '' (join_errors dial s (nodes s) finish)))"
  using fold_join_errors [where acc = "(nodes s, [])" and fin = finish and ns = "nodes s" and s = s
      and dial = dial and uuid = uuid]
  by (auto simp: join_n_def split_beta)

lemma join_n_frame: "sring (fst (join_n dial uuid finish s)) = sring s"
  by (simp add: join_n_def split_beta Let_def)

section \<open>A started node\<close>

lemma insert_all_result:
  "ring_inv r \<Longrightarrow> \<exists>r'. insert_all r is = Inr r' \<and> ring_inv r' \<and> ratio r' = ratio r \<and>
     elements r' = elements r @ is"
proof (induction "is" arbitrary: r)
  case (Cons ii "is")
  from ring_insert_inv [OF Cons.prems, of ii] obtain r1 where
    r1: "ring_insert r ii = Inr r1" "ring_inv r1" "ratio r1 = ratio r" "elements r1 = elements r @ [ii]"
    by blast
  from Cons.IH [OF r1(2)] r1 show ?case by auto
qed simp

text \<open>
  What a node of a full mesh with the given members looks like: the members in address order,
  a connection to each of them but itself, and the positions of the list on the ring.
\<close>

definition mesh_node :: "nat \<Rightarrow> tcp_addr list \<Rightarrow> server \<Rightarrow> bool" where
  "mesh_node parts members s \<longleftrightarrow>
     laddr s \<in> set members \<and> store_inv (sstore s) \<and>
     ring_inv (sring s) \<and> unat (ratio (sring s)) = parts \<and>
     elements (sring s) = [0..<length (nodes s)] \<and>
     map node_addr (nodes s) = map Some (sort members) \<and>
     list_all (\<lambda>n. node_conn n = (if node_addr n = Some (laddr s) then None else node_addr n)) (nodes s)"

lemma map_key_Some: "map node_key ns = map addr_text as \<Longrightarrow> None \<notin> node_addr ` set ns \<Longrightarrow>
    map node_addr ns = map Some as"
proof (induction ns arbitrary: as)
  case (Cons n ns)
  then obtain a "as'" where "as": "as = a # as'" by (cases "as") auto
  with Cons show ?case by (cases "node_addr n") (auto intro: tcp_addr.expand)
qed simp

lemma sort_addr_text: "sort (map addr_text as) = map addr_text (sort as)"
  by (rule properties_for_sort)
     (simp_all add: sorted_map flip: less_eq_tcp_addr_def)

lemma start_mesh:
  assumes new: "new_server i cfg = Inr s"
    and parts: "0 < sint (num_partitions cfg)" "sint (num_partitions cfg) < 2 ^ 32"
    and peers: "map node_addr (cfg_nodes cfg) = map Some peers"
    and other: "local_addr cfg \<notin> set peers"
    and reach: "reachable_peers dial s"
    and fin: "set finish = {0..<length peers}"
  shows "\<exists>s'. start dial uuid finish s = Inr (s', None) \<and> laddr s' = local_addr cfg \<and>
     mesh_node (nat (sint (num_partitions cfg))) (local_addr cfg # peers) s' \<and>
     sstore s' = sstore s"
proof -
  from new_ring_inv [OF parts] obtain r :: "nat ring" where
    r: "new_ring (num_partitions cfg) = Inr r" "ring_inv r" "elements r = []"
      "unat (ratio r) = nat (sint (num_partitions cfg))" by blast
  from new r(1) obtain st where st: "new_store (num_partitions cfg) = Inr st" and
    s: "s = \<lparr>server_id = i, laddr = local_addr cfg, nodes = cfg_nodes cfg,
             retries = num_retries cfg, sring = r, sstore = st\<rparr>"
    by (auto simp: new_server_def split: sum.splits)
  have len: "length (cfg_nodes cfg) = length peers" using peers by (metis length_map)
  define ns where "ns = map (joined uuid (cfg_nodes cfg)) [0..<length peers] @
    [\<lparr>node_id = uuid (length peers), node_addr = Some (local_addr cfg), node_conn = None\<rparr>]"
  have addrs: "map node_addr ns = map Some (peers @ [local_addr cfg])"
  proof -
    have "map (\<lambda>ii. node_addr (cfg_nodes cfg ! ii)) [0..<length peers] = map node_addr (cfg_nodes cfg)"
      by (rule nth_equalityI) (simp_all add: len)
    then show ?thesis by (simp add: ns_def peers joined_def comp_def)
  qed
  have conns: "node_conn n = (if node_addr n = Some (local_addr cfg) then None else node_addr n)"
    if "n \<in> set ns" for n
  proof -
    have "node_addr (cfg_nodes cfg ! ii) \<noteq> Some (local_addr cfg)" if "ii < length peers" for ii
    proof -
      have "peers ! ii \<noteq> local_addr cfg" using that other by (metis nth_mem)
      then show ?thesis using that arg_cong [OF peers, of "\<lambda>xs. xs ! ii"] by (simp add: len)
    qed
    with that show ?thesis by (auto simp: ns_def joined_def)
  qed
  have keys: "map node_key ns = map addr_text (peers @ [local_addr cfg])"
    using addrs by (metis (no_types, lifting) addr_string.simps(2) map_eq_conv map_map comp_def)
  have "map node_key (sort_nodes ns) = map addr_text (sort (local_addr cfg # peers))"
    unfolding ns.keys_sorted keys sort_addr_text [symmetric]
    by (rule properties_for_sort) (simp_all add: sorted_insort)
  moreover have "None \<notin> node_addr ` set (sort_nodes ns)"
    unfolding ns.set_sorted using arg_cong [OF addrs, of set] by auto
  ultimately have sorted: "map node_addr (sort_nodes ns) = map Some (sort (local_addr cfg # peers))"
    by (rule map_key_Some)
  from insert_all_result [OF r(2)] obtain r' where
    r': "insert_all r [0..<length (sort_nodes ns)] = Inr r'" "ring_inv r'" "ratio r' = ratio r"
      "elements r' = [0..<length (sort_nodes ns)]" using r(3) by (metis append_Nil)
  have "start dial uuid finish s = Inr (s\<lparr>nodes := sort_nodes ns, sring := r'\<rparr>, None)"
    using join_n_success [OF reach, of finish uuid] fin r'(1)
    by (simp add: start_def s len ns_def Let_def)
  moreover have "mesh_node (nat (sint (num_partitions cfg))) (local_addr cfg # peers)
      (s\<lparr>nodes := sort_nodes ns, sring := r'\<rparr>)"
    using sorted r' r(4) store_inv_new [OF st] conns
    by (simp add: mesh_node_def s list_all_iff ns.set_sorted del: upt_Suc)
  ultimately show ?thesis by (simp add: s)
qed


lemma start_result:
  assumes "ring_inv (sring s)"
  shows "\<exists>s'. start dial uuid finish s =
     Inr (s', if join_errors dial s (nodes s) finish = [] then None
              else Some (''server: failed to connect neighbors, '' @
                         join_text '', '' (join_errors dial s (nodes s) finish)))"
proof (cases "join_n dial uuid finish s")
  case (Pair s1 err)
  then have ring: "ring_inv (sring s1)"
    using join_n_frame [of dial uuid finish s] assms by simp
  obtain r where "insert_all (sring s1) [0..<Suc (length (nodes s1))] = Inr r"
    using insert_all_result [OF ring] by blast
  then have "\<exists>s'. start dial uuid finish s = Inr (s', err)"
    using Pair by (simp add: start_def Let_def ns.length_sorted del: upt_Suc split: option.split)
  then show ?thesis using Pair join_n_error [of dial uuid finish s] by simp
qed

text \<open>The result of a join in terms of the first attempt that succeeds.\<close>

lemma join_node_result:
  "join_node dial s n =
     (if \<exists>m. int m \<le> sint (retries s) \<and> (\<exists>c. dial m = Inr c) then
        let m = (LEAST m. int m \<le> sint (retries s) \<and> (\<exists>c. dial m = Inr c))
        in (dial m, map (\<lambda>k. go_second * 2 ^ k) [0..<m])
      else (Inl (''server: all connection attempts failed to '' @ addr_string (node_addr n)),
            map (\<lambda>k. go_second * 2 ^ k) [0..<nat (sint (retries s))]))"
proof (cases "\<exists>m. int m \<le> sint (retries s) \<and> (\<exists>c. dial m = Inr c)")
  case True
  define m where "m = (LEAST m. int m \<le> sint (retries s) \<and> (\<exists>c. dial m = Inr c))"
  from LeastI_ex [OF True] obtain c where m: "int m \<le> sint (retries s)" "dial m = Inr c"
    by (auto simp: m_def)
  have "\<exists>e. dial k = Inl e" if "k < m" for k
    using not_less_Least [OF that [unfolded m_def]] m(1) that by (cases "dial k") auto
  then have "join_loop dial (addr_string (node_addr n)) (sint (retries s)) 0 go_second [] =
      (Inr c, [] @ map (\<lambda>k. go_second * 2 ^ k) [0..<m - 0])"
    using m by (intro join_loop_success) auto
  with m show ?thesis unfolding if_P [OF True] by (simp add: join_node_def flip: m_def)
next
  case False
  then have "\<exists>e. dial k = Inl e" if "int k \<le> sint (retries s)" for k
    using that by (cases "dial k") auto
  then have "join_loop dial (addr_string (node_addr n)) (sint (retries s)) 0 go_second [] =
      (Inl (''server: all connection attempts failed to '' @ addr_string (node_addr n)),
       [] @ map (\<lambda>k. go_second * 2 ^ k) [0..<nat (sint (retries s) - int 0)])"
    by (intro join_loop_failure)
  then show ?thesis unfolding if_not_P [OF False] by (simp add: join_node_def)
qed

lemma join_slept:
  "k < length (snd (join_node dial s n)) \<Longrightarrow> snd (join_node dial s n) ! k = go_second * 2 ^ k"
  by (auto simp: join_node_result Let_def split: if_splits)

lemma sint_backoff: "k < 34 \<Longrightarrow> sint (go_second * 2 ^ k) = 1000000000 * 2 ^ k"
proof -
  assume "k < 34"
  then have "(2 :: int) ^ k \<le> 2 ^ 33" by (intro power_increasing) auto
  then have "(2 :: int) ^ k \<le> 8589934592" by simp
  moreover have "(0 :: int) \<le> 2 ^ k" by simp
  ultimately have "- 9223372036854775808 \<le> 1000000000 * (2 :: int) ^ k" "1000000000 * (2 :: int) ^ k \<le> 9223372036854775807"
    by linarith+
  then have "min_duration \<le> 1000000000 * 2 ^ k" "1000000000 * 2 ^ k \<le> max_duration"
    by (simp_all add: min_duration_def max_duration_def)
  then have "sint (word_of_int (1000000000 * 2 ^ k) :: 64 word) = 1000000000 * 2 ^ k"
    by (rule sint_word_of_int_in_range)
  then show ?thesis by simp
qed

lemma backoff_gone: "55 \<le> k \<Longrightarrow> go_second * 2 ^ k = 0"
proof -
  assume "55 \<le> k"
  then obtain j where k: "k = 55 + j" by (auto simp: le_iff_add)
  have "go_second * 2 ^ 55 = 0" by simp
  then show ?thesis unfolding k power_add by (simp only: mult.assoc [symmetric]) simp
qed

section \<open>Properties\<close>

text \<open>Dialling a neighbour is tried at most one time more than the configured retries: the
  first attempt that succeeds gives the connection, after sleeps of one second that double each
  time; when none does, the error names the address, after as many sleeps as retries.\<close>

theorem join_outcome:
  "join_node dial s n =
     (if \<exists>m. int m \<le> sint (retries s) \<and> (\<exists>c. dial m = Inr c) then
        let m = (LEAST m. int m \<le> sint (retries s) \<and> (\<exists>c. dial m = Inr c))
        in (dial m, map (\<lambda>k. go_second * 2 ^ k) [0..<m])
      else (Inl (''server: all connection attempts failed to '' @ addr_string (node_addr n)),
            map (\<lambda>k. go_second * 2 ^ k) [0..<nat (sint (retries s))]))"
  by (rule join_node_result)

text \<open>The doubling of the sleeps is done in 64 bits: after more than 34 failures the sleep is
  negative, so the node stops waiting between its attempts.\<close>

theorem join_backoff_overflows:
  assumes "\<forall>m. \<exists>e. dial m = Inl e" and "34 < sint (retries s)"
  shows "34 < length (snd (join_node dial s n)) \<and> sint (snd (join_node dial s n) ! 34) < 0"
proof -
  from assms(1) have "\<not> (\<exists>m. int m \<le> sint (retries s) \<and> (\<exists>c. dial m = Inr c))"
    by (metis sum.distinct(1))
  then have slept: "snd (join_node dial s n) = map (\<lambda>k. go_second * 2 ^ k) [0..<nat (sint (retries s))]"
    using join_loop_failure [of 0 "sint (retries s)" dial] assms(1) by (simp add: join_node_def)
  moreover have "sint (go_second * 2 ^ 34) < 0" by simp
  ultimately show ?thesis using assms(2) by (simp add: nat_less_iff)
qed

definition lonely_server :: server where
  "lonely_server =
     \<lparr>server_id = ''id'', laddr = TCPAddr ''10.0.0.1:2371'', nodes = [], retries = 40,
      sring = \<lparr>ratio = 1, virtual = [0], elements = []\<rparr>,
      sstore = \<lparr>hash_map = new_unsafe_hash, expire_heap = [], expire_timer = new_refresh_timer\<rparr>\<rparr>"

theorem join_backoff_overflows_witness:
  "34 < length (snd (join_node (\<lambda>_. Inl ''refused'') lonely_server node_zero)) \<and>
   sint (snd (join_node (\<lambda>_. Inl ''refused'') lonely_server node_zero) ! 34) < 0"
  by (rule join_backoff_overflows) (simp_all add: lonely_server_def)

text \<open>The sleeps of \<open>join\<close> are the seconds they are meant to be, one doubled after every failure, up to the
  34th and no later; the 35th does not fit into 64 bits and is negative, and from the 56th on the sleep
  is zero: with that many retries a node no longer waits between its attempts.\<close>

theorem join_backoff_bounds:
  assumes "k < length (snd (join_node dial s n))"
  shows "(sint (snd (join_node dial s n) ! k) = 1000000000 * 2 ^ k \<longleftrightarrow> k < 34) \<and>
    (k = 34 \<longrightarrow> sint (snd (join_node dial s n) ! k) < 0) \<and>
    (55 \<le> k \<longrightarrow> snd (join_node dial s n) ! k = 0)"
proof -
  have "sint (go_second * 2 ^ k) = 1000000000 * 2 ^ k \<longleftrightarrow> k < 34"
  proof
    assume "sint (go_second * 2 ^ k) = 1000000000 * 2 ^ k"
    moreover have "sint (go_second * 2 ^ k) < 2 ^ 63" using sint_lt [of "go_second * 2 ^ k"] by simp
    moreover have "(2 :: int) ^ 34 \<le> 2 ^ k" if "34 \<le> k" using that by (intro power_increasing) auto
    ultimately show "k < 34" by (cases "k < 34") auto
  qed (rule sint_backoff)
  then show ?thesis unfolding join_slept [OF assms] using backoff_gone [of k] by auto
qed

lemma lonely_sleeps: "length (snd (join_node (\<lambda>_. Inl ''refused'') lonely_server node_zero)) = 40"
  by (simp add: join_node_result lonely_server_def)

theorem join_backoff_bounds_witness:
  "sint (snd (join_node (\<lambda>_. Inl ''refused'') lonely_server node_zero) ! 33) = 1000000000 * 2 ^ 33 \<and>
   sint (snd (join_node (\<lambda>_. Inl ''refused'') lonely_server node_zero) ! 34) < 0"
  using join_backoff_bounds [of 33 "\<lambda>_. Inl ''refused''" lonely_server node_zero]
    join_backoff_bounds [of 34 "\<lambda>_. Inl ''refused''" lonely_server node_zero] lonely_sleeps
  by (simp del: power_numeral mult_numeral_left_semiring_numeral)

text \<open>C26. \<open>Start\<close> never panics on a ring with partitions, and it fails if and only if some
  neighbour could not be reached, with an error that lists the failures as they came in.\<close>

theorem start_outcome:
  assumes "ring_inv (sring s)"
  shows "\<exists>s'. start dial uuid finish s =
     Inr (s', if join_errors dial s (nodes s) finish = [] then None
              else Some (''server: failed to connect neighbors, '' @
                         join_text '', '' (join_errors dial s (nodes s) finish)))"
  using assms by (rule start_result)

theorem start_outcome_witness:
  "\<exists>s'. start (\<lambda>_ _. Inl ''refused'') (\<lambda>_. ''u'') [0] (lonely_server\<lparr>nodes := [node_zero], retries := 0\<rparr>) =
     Inr (s', Some ''server: failed to connect neighbors, server: all connection attempts failed to <nil>'')"
  using start_outcome [of "lonely_server\<lparr>nodes := [node_zero], retries := 0\<rparr>"
      "\<lambda>_ _. Inl ''refused''" "\<lambda>_. ''u''" "[0]"]
  by (simp add: lonely_server_def ring_inv_def join_errors_def join_node_def join_loop.simps node_zero_def)

text \<open>The nodes are sorted by address, keeping every node: the list of each member of the
  cluster has the same order, whatever the order of the configuration.\<close>

theorem nodes_sorted:
  "mset (sort_nodes n) = mset n \<and> sorted (map (addr_string \<circ> node_addr) (sort_nodes n))"
  using sort_nodes_result [of n] by (simp add: comp_def)

text \<open>C23. A ring that received elements finds one for every key, by the partition of the hash of
  the key, whose element is given by its number modulo the number of elements.\<close>

theorem ring_find_inserted:
  assumes "0 < sint n" and "sint n < 2 ^ 32" and "es \<noteq> []"
  shows "\<exists>r r'. new_ring n = Inr r \<and> insert_all r es = Inr r' \<and>
     (\<forall>h. ring_find r' h = Inr (es ! (unat h mod nat (sint n) mod length es)))"
proof -
  obtain r :: "nat ring" where r: "new_ring n = Inr r" "ring_inv r" "elements r = []" "unat (ratio r) = nat (sint n)"
    using new_ring_inv [OF assms(1,2)] by blast
  from insert_all_result [OF r(2), of es] obtain r' where
    r': "insert_all r es = Inr r'" "ring_inv r'" "ratio r' = ratio r" "elements r' = es"
    using r(3) by auto
  with ring_find_eq [OF r'(2)] r assms(3) show ?thesis by fastforce
qed

theorem ring_find_inserted_witness:
  "\<exists>r r'. new_ring 16384 = Inr r \<and> insert_all r [0, 1, 2] = Inr r' \<and>
     (\<forall>h. ring_find r' h = Inr ([0, 1, 2] ! (unat h mod 16384 mod 3)))"
  using ring_find_inserted [of 16384 "[0, 1, 2]"] by simp

end
