(* ===== verification/Cluster.thy ===== *)
theory Cluster
  imports Server
begin

text \<open>
  The nodes of a cluster together (\<open>server/server.go\<close>: \<open>roundTrip\<close>, \<open>handle\<close> and the
  forwarding half of \<open>Do\<close>). The state is the map from addresses to running servers. A request
  entering at one node is processed there or sent, as a JSON event, to the node in charge,
  whose \<open>handle\<close> loop decodes it and calls \<open>Do\<close> in turn; fuel bounds the chain of such calls.
  \<open>None\<close> means that no response ever comes: the fuel is spent, or the peer reads the event but
  answers nothing, and the caller waits for ever.
\<close>

section \<open>Events\<close>

definition encode_event :: "request \<Rightarrow> json option" where
  "encode_event req =
     (case marshal_request req of
        None \<Rightarrow> None
      | Some raw \<Rightarrow> Some (JObj [(''Action'', JStr (req_action req)), (''Request'', raw)]))"

text \<open>
  \<open>readWire\<close> into an \<open>eventRequest\<close>: the action, and the raw request if there is one (a null
  leaves the pointer nil). A value of another type is an error.
\<close>

fun event_member :: "string \<times> json option \<Rightarrow> string \<times> json \<Rightarrow> (string \<times> json option) option" where
  "event_member (action, raw) (m, v) =
     (if field_is ''Action'' m then map_option (\<lambda>a. (a, raw)) (into_string v action)
      else if field_is ''Request'' m then Some (action, if v = JNull then None else Some v)
      else Some (action, raw))"

fun event_members :: "string \<times> json option \<Rightarrow> (string \<times> json) list \<Rightarrow> (string \<times> json option) option" where
  "event_members ev [] = Some ev"
| "event_members ev (m # ms) =
     (case event_member ev m of None \<Rightarrow> None | Some ev' \<Rightarrow> event_members ev' ms)"

fun decode_event :: "json \<Rightarrow> (string \<times> json option) option" where
  "decode_event JNull = Some ('''', None)"
| "decode_event (JObj ms) = event_members ('''', None) ms"
| "decode_event _ = None"

text \<open>One turn of the \<open>handle\<close> loop up to the call of \<open>Do\<close>.\<close>

datatype handled =
    HClose                \<comment> \<open>break: the connection is closed\<close>
  | HSilent               \<comment> \<open>continue: nothing is written back\<close>
  | HCrash go_panic       \<comment> \<open>a panic outside any recover ends the process\<close>
  | HRequest request

definition handle_event :: "json \<Rightarrow> handled" where
  "handle_event j =
     (case decode_event j of
        None \<Rightarrow> HClose
      | Some (action, raw) \<Rightarrow>
          (case make_request action of
             Inl err \<Rightarrow> HSilent
           | Inr proto \<Rightarrow>
               (case raw of
                  None \<Rightarrow> HCrash NilDereference
                | Some body \<Rightarrow>
                    (case unmarshal_request proto body of
                       None \<Rightarrow> HSilent
                     | Some req \<Rightarrow> HRequest req))))"

section \<open>Responses on the wire\<close>

text \<open>
  Encoding a response and decoding it again: the struct tag of \<open>Conn\<close> is malformed, so the field
  is encoded (as an object), and only a nil connection can be decoded into the interface. Times,
  addresses and numbers come back as they were. A response that cannot be encoded is not sent.
\<close>

datatype delivery = Unsent | Unread | Delivered response

definition wire_response :: "response \<Rightarrow> delivery" where
  "wire_response resp =
     (case wire_value (rdata (rrecord resp)) of
        None \<Rightarrow> Unsent
      | Some d \<Rightarrow>
          if node_conn (rnode resp) \<noteq> None then Unread
          else Delivered (resp\<lparr>rerror := utf8_fix (rerror resp),
                          rnode := (rnode resp)\<lparr>node_id := utf8_fix (node_id (rnode resp))\<rparr>,
                          rrecord := (rrecord resp)\<lparr>rdata := d\<rparr>\<rparr>))"

section \<open>Requests entering the cluster\<close>

text \<open>
  The running processes, and the connections (dialling node, serving node) that the serving
  side has closed: nothing ever dials again. The texts of the errors that come from the
  connection and the codec stand for those of the library.
\<close>

record world =
  servers :: "tcp_addr \<Rightarrow> server option"
  closed :: "(tcp_addr \<times> tcp_addr) list"

abbreviation eof_error :: string where "eof_error \<equiv> ''EOF''"
abbreviation encode_error :: string where "encode_error \<equiv> ''json: unsupported value''"
abbreviation decode_error :: string where "decode_error \<equiv> ''json: cannot unmarshal''"

definition put_server :: "tcp_addr \<Rightarrow> server \<Rightarrow> world \<Rightarrow> world" where
  "put_server a s w = w\<lparr>servers := (servers w)(a \<mapsto> s)\<rparr>"

definition crash :: "tcp_addr \<Rightarrow> world \<Rightarrow> world" where
  "crash c w = w\<lparr>servers := (servers w)(c := None)\<rparr>"

definition close_link :: "tcp_addr \<Rightarrow> conn \<Rightarrow> world \<Rightarrow> world" where
  "close_link a c w = w\<lparr>closed := (a, c) # closed w\<rparr>"

lemma world_sel [simp]:
  "servers (put_server a s w) = (servers w)(a \<mapsto> s)" "closed (put_server a s w) = closed w"
  "servers (crash c w) = (servers w)(c := None)" "closed (crash c w) = closed w"
  "servers (close_link a c w) = servers w" "closed (close_link a c w) = (a, c) # closed w"
  by (simp_all add: put_server_def crash_def close_link_def)

text \<open>
  A handler that answers, and what its answer does to the connection. The process of the
  handler ends with any panic of \<open>Do\<close>.
\<close>

fun answer :: "tcp_addr \<Rightarrow> conn \<Rightarrow> world \<times> response res \<Rightarrow> world \<times> (string + response)" where
  "answer a c (w, Inl p) = (crash c w, Inl eof_error)"
| "answer a c (w, Inr resp) =
     (case wire_response resp of
        Unsent \<Rightarrow> (close_link a c w, Inl eof_error)
      | Unread \<Rightarrow> (w, Inl decode_error)
      | Delivered resp' \<Rightarrow> (w, Inr resp'))"

fun cluster_do :: "nat \<Rightarrow> runtime \<Rightarrow> world \<Rightarrow> tcp_addr \<Rightarrow> request \<Rightarrow> (world \<times> response res) option"
  and round_trip :: "nat \<Rightarrow> runtime \<Rightarrow> world \<Rightarrow> tcp_addr \<Rightarrow> conn \<Rightarrow> request \<Rightarrow> (world \<times> (string + response)) option"
  and handle_conn :: "nat \<Rightarrow> runtime \<Rightarrow> world \<Rightarrow> tcp_addr \<Rightarrow> conn \<Rightarrow> json \<Rightarrow> (world \<times> (string + response)) option"
where
  "cluster_do 0 rt w a req = None"
| "cluster_do (Suc n) rt w a req =
     (case servers w a of
        None \<Rightarrow> None
      | Some s \<Rightarrow>
          (case do_plan s req of
             PlanPanic p \<Rightarrow> Some (w, Inl p)
           | PlanLocal nd \<Rightarrow> (let (s', r) = do_local rt s nd req in Some (put_server a s' w, r))
           | PlanForward nd c \<Rightarrow>
               (case round_trip n rt w a c req of
                  None \<Rightarrow> None
                | Some (w', r) \<Rightarrow> Some (w', Inr (do_forwarded r)))))"
| "round_trip n rt w a c req =
     (case encode_event req of
        None \<Rightarrow> Some (w, Inl encode_error)
      | Some ev \<Rightarrow>
          if servers w c = None \<or> (a, c) \<in> set (closed w) then Some (w, Inl eof_error)
          else handle_conn n rt w a c ev)"
| "handle_conn n rt w a c ev =
     (case handle_event ev of
        HClose \<Rightarrow> Some (close_link a c w, Inl eof_error)
      | HSilent \<Rightarrow> None
      | HCrash p \<Rightarrow> Some (crash c w, Inl eof_error)
      | HRequest req \<Rightarrow>
          (case cluster_do n rt w c req of
             None \<Rightarrow> None
           | Some (w', r) \<Rightarrow> Some (answer a c (w', r))))"

declare cluster_do.simps(2) [simp del] round_trip.simps [simp del] handle_conn.simps [simp del]

text \<open>More fuel never changes an answer.\<close>

lemma cluster_do_more: "cluster_do n rt w a req = Some y \<Longrightarrow> cluster_do (Suc n) rt w a req = Some y"
proof (induction n arbitrary: w a req y)
  case (Suc n)
  show ?case
  proof (cases "servers w a")
    case None
    with Suc.prems show ?thesis by (simp add: cluster_do.simps(2))
  next
    case (Some s)
    have conn: "handle_conn (Suc n) rt w a c ev = Some z" if "handle_conn n rt w a c ev = Some z" for c ev z
      using that Suc.IH by (auto simp: handle_conn.simps split: handled.splits option.splits)
    have trip: "round_trip (Suc n) rt w a c req = Some z" if "round_trip n rt w a c req = Some z" for c z
      using that by (auto simp: round_trip.simps conn split: option.splits; metis conn)
    show ?thesis
    proof (cases "do_plan s req")
      case (PlanForward nd c)
      with Suc.prems Some obtain z where z: "round_trip n rt w a c req = Some z"
        by (auto simp: cluster_do.simps(2) split: option.splits)
      with Suc.prems Some PlanForward trip [OF z] show ?thesis
        by (simp add: cluster_do.simps(2) split_beta)
    qed (use Suc.prems Some in \<open>simp_all add: cluster_do.simps(2)\<close>)
  qed
qed simp

lemma cluster_do_mono:
  "cluster_do n rt w a req = Some y \<Longrightarrow> n \<le> n' \<Longrightarrow> cluster_do n' rt w a req = Some y"
proof (induction n')
  case (Suc n')
  then show ?case by (cases "n = Suc n'") (auto intro: cluster_do_more)
qed simp

section \<open>A mesh\<close>

definition mesh :: "nat \<Rightarrow> tcp_addr list \<Rightarrow> world \<Rightarrow> bool" where
  "mesh parts members w \<longleftrightarrow> members \<noteq> [] \<and> distinct members \<and> closed w = [] \<and>
     list_all (\<lambda>a. case servers w a of None \<Rightarrow> False | Some s \<Rightarrow> laddr s = a \<and> mesh_node parts members s) members"

text \<open>The member in charge of a key: the same formula for every node.\<close>

definition owner :: "nat \<Rightarrow> tcp_addr list \<Rightarrow> string \<Rightarrow> tcp_addr" where
  "owner parts members key =
     sort members ! (unat (string_hasher_hash key) mod parts mod length members)"

lemma owner_member: "members \<noteq> [] \<Longrightarrow> owner parts members key \<in> set members"
  using nth_mem [of "unat (string_hasher_hash key) mod parts mod length members" "sort members"]
  by (simp add: owner_def)

lemma mesh_server:
  assumes "mesh parts members w" and "a \<in> set members"
  obtains s where "servers w a = Some s" "laddr s = a" "mesh_node parts members s"
  using assms by (fastforce simp: mesh_def list_all_iff split: option.splits)

lemma mesh_route:
  fixes req :: request
  assumes node: "mesh_node parts members s" and ne: "members \<noteq> []"
  defines "ow \<equiv> owner parts members (req_hash req)"
  obtains nd where "route s req = Inr nd" "node_addr nd = Some ow"
    "node_conn nd = (if ow = laddr s then None else Some ow)"
proof -
  let ?ix = "unat (string_hasher_hash (req_hash req)) mod parts mod length members"
  have addrs: "map node_addr (nodes s) = map Some (sort members)"
    using node by (simp add: mesh_node_def)
  have len: "length (nodes s) = length members"
    using arg_cong [OF addrs, of length] by simp
  have lt: "?ix < length members" using ne by simp
  have find: "ring_find (sring s) (string_hasher_hash (req_hash req)) = Inr ?ix"
    using node ne len lt ring_find_eq [of "sring s"] by (simp add: mesh_node_def)
  let ?nd = "nodes s ! ?ix"
  have "node_addr ?nd = map node_addr (nodes s) ! ?ix" using lt len by simp
  also have "\<dots> = Some ow" using node lt len by (simp add: mesh_node_def ow_def owner_def)
  finally have addr: "node_addr ?nd = Some ow" .
  have "?nd \<in> set (nodes s)" using lt len by simp
  then have conn: "node_conn ?nd = (if ow = laddr s then None else Some ow)"
    using node addr by (auto simp: mesh_node_def list_all_iff)
  from find lt len have "route s req = Inr ?nd" by (simp add: route_def)
  with addr conn that show thesis by blast
qed

lemma mesh_plan:
  fixes req :: request
  assumes node: "mesh_node parts members s" and ne: "members \<noteq> []"
  defines "ow \<equiv> owner parts members (req_hash req)"
  obtains nd where "node_addr nd = Some ow" "node_conn nd = (if ow = laddr s then None else Some ow)"
    "do_plan s req =
       (if ow = laddr s \<or> req_hash req = [] then PlanLocal nd else PlanForward nd ow)"
proof -
  obtain nd where nd: "route s req = Inr nd" "node_addr nd = Some ow"
    "node_conn nd = (if ow = laddr s then None else Some ow)"
    using mesh_route [OF node ne, of req] ow_def by metis
  then have "do_plan s req =
      (if ow = laddr s \<or> req_hash req = [] then PlanLocal nd else PlanForward nd ow)"
    by (simp add: do_plan_def)
  with nd(2,3) that show thesis by blast
qed

text \<open>
  What is left of a mesh when members have crashed and connections were lost: the members that are
  up are nodes of the mesh.
\<close>

definition partial_mesh :: "nat \<Rightarrow> tcp_addr list \<Rightarrow> world \<Rightarrow> bool" where
  "partial_mesh parts members w \<longleftrightarrow> members \<noteq> [] \<and> distinct members \<and>
     list_all (\<lambda>a. case servers w a of None \<Rightarrow> True | Some s \<Rightarrow> laddr s = a \<and> mesh_node parts members s) members"

lemma mesh_partial:
  "mesh parts members w \<longleftrightarrow>
     partial_mesh parts members w \<and> closed w = [] \<and> set members \<subseteq> dom (servers w)"
  by (auto simp: mesh_def partial_mesh_def list_all_iff split: option.splits)

lemma partial_server:
  assumes "partial_mesh parts members w" and "a \<in> set members" and "servers w a = Some s"
  shows "laddr s = a" "mesh_node parts members s"
  using assms by (auto simp: partial_mesh_def list_all_iff split: option.splits)

lemma partial_update:
  assumes "partial_mesh parts members w" and "a \<in> set members" and "servers w a = Some s" and "store_inv st"
  shows "partial_mesh parts members (put_server a (s\<lparr>sstore := st\<rparr>) w)"
  using assms by (auto simp: partial_mesh_def list_all_iff mesh_node_def split: option.splits)

lemma mesh_update:
  assumes "mesh parts members w" and "a \<in> set members" and "servers w a = Some s" and "store_inv st"
  shows "mesh parts members (put_server a (s\<lparr>sstore := st\<rparr>) w)"
  using assms partial_update by (auto simp: mesh_partial)

text \<open>Every event a node sends is understood by its peer.\<close>

lemma encode_handle:
  assumes "encode_event req = Some ev"
  obtains req' where "wire_request req = Some req'" "handle_event ev = HRequest req'"
proof -
  from assms obtain raw where raw: "marshal_request req = Some raw"
    "ev = JObj [(''Action'', JStr (req_action req)), (''Request'', raw)]"
    by (auto simp: encode_event_def split: option.splits)
  obtain req' where req': "wire_request req = Some req'"
    "\<And>proto. make_request (req_action req) = Inr proto \<Longrightarrow> unmarshal_request proto raw = Some req'"
    using request_sent [OF raw(1)] by blast
  have "raw \<noteq> JNull" using raw(1) by (cases req) auto
  then have "decode_event ev = Some (req_action req, Some raw)"
    by (simp add: raw(2) field_is_def ascii_lower_def)
  with req' make_request_action [of req] have "handle_event ev = HRequest req'"
    by (auto simp: handle_event_def)
  with req'(1) that show thesis by blast
qed

section \<open>One call\<close>

text \<open>What comes back to the node that forwarded a request.\<close>

fun forwarded_result ::
    "tcp_addr \<Rightarrow> conn \<Rightarrow> (world \<times> response res) option \<Rightarrow> (world \<times> response res) option" where
  "forwarded_result a c None = None"
| "forwarded_result a c (Some x) =
     (let (w, r) = answer a c x in Some (w, Inr (do_forwarded r)))"

lemma partial_local:
  assumes m: "partial_mesh parts members w" and a: "a \<in> set members"
    and here: "owner parts members (req_hash req) = a \<or> req_hash req = []"
    and s: "servers w a = Some s"
  shows "\<exists>nd. node_addr nd = Some (owner parts members (req_hash req)) \<and>
     node_conn nd = (if owner parts members (req_hash req) = a then None
                     else Some (owner parts members (req_hash req))) \<and>
     cluster_do (Suc n) rt w a req =
       Some (put_server a (s\<lparr>sstore := fst (process store_ops rt req (sstore s))\<rparr>) w,
             respond nd (snd (process store_ops rt req (sstore s))))"
proof -
  have ne: "members \<noteq> []" using m by (simp add: partial_mesh_def)
  note node = partial_server [OF m a s]
  from mesh_plan [OF node(2) ne, of req] obtain nd where nd:
    "node_addr nd = Some (owner parts members (req_hash req))"
    "node_conn nd = (if owner parts members (req_hash req) = a then None
                     else Some (owner parts members (req_hash req)))"
    "do_plan s req = PlanLocal nd"
    using here node(1) by (metis (no_types, lifting))
  then show ?thesis using s by (auto simp: cluster_do.simps(2) do_local_def split_beta)
qed

lemma partial_plan:
  assumes m: "partial_mesh parts members w" and a: "a \<in> set members" and s: "servers w a = Some s"
    and there: "owner parts members (req_hash req) \<noteq> a" "req_hash req \<noteq> []"
  obtains nd where "do_plan s req = PlanForward nd (owner parts members (req_hash req))"
  using mesh_plan [OF partial_server(2) [OF m a s], of req] m there partial_server(1) [OF m a s]
  by (metis (no_types, lifting) partial_mesh_def)

text \<open>The event is sent over a connection that works, or there is none.\<close>

definition linked :: "world \<Rightarrow> tcp_addr \<Rightarrow> tcp_addr \<Rightarrow> bool" where
  "linked w a b \<longleftrightarrow> servers w b \<noteq> None \<and> (a, b) \<notin> set (closed w)"

lemma partial_forward:
  assumes m: "partial_mesh parts members w" and a: "a \<in> set members" and s: "servers w a = Some s"
    and there: "owner parts members (req_hash req) \<noteq> a" "req_hash req \<noteq> []"
    and linked: "linked w a (owner parts members (req_hash req))"
  shows "cluster_do (Suc n) rt w a req =
     (case wire_request req of
        None \<Rightarrow> Some (w, Inr (do_forwarded (Inl encode_error)))
      | Some req' \<Rightarrow>
          forwarded_result a (owner parts members (req_hash req))
            (cluster_do n rt w (owner parts members (req_hash req)) req'))"
proof -
  let ?b = "owner parts members (req_hash req)"
  obtain nd where plan: "do_plan s req = PlanForward nd ?b" by (rule partial_plan [OF m a s there])
  show ?thesis
  proof (cases "encode_event req")
    case None
    then have "wire_request req = None"
      using wire_request_None [of req] by (auto simp: encode_event_def split: option.splits)
    with None s plan show ?thesis by (simp add: cluster_do.simps(2) round_trip.simps)
  next
    case (Some ev)
    obtain req' where req': "wire_request req = Some req'" "handle_event ev = HRequest req'"
      by (rule encode_handle [OF Some])
    have "handle_conn n rt w a ?b ev = map_option (answer a ?b) (cluster_do n rt w ?b req')"
      by (simp add: handle_conn.simps req'(2) split: option.splits)
    moreover have "round_trip n rt w a ?b req = handle_conn n rt w a ?b ev"
      using Some linked by (auto simp: round_trip.simps linked_def)
    ultimately show ?thesis
      using s plan req'(1) by (simp add: cluster_do.simps(2) split_beta split: option.splits)
  qed
qed

lemma partial_unreached:
  assumes m: "partial_mesh parts members w" and a: "a \<in> set members" and s: "servers w a = Some s"
    and there: "owner parts members (req_hash req) \<noteq> a" "req_hash req \<noteq> []"
    and cut: "\<not> linked w a (owner parts members (req_hash req))"
  shows "cluster_do (Suc n) rt w a req =
     Some (w, Inr (do_forwarded (Inl (if wire_request req = None then encode_error else eof_error))))"
proof -
  let ?b = "owner parts members (req_hash req)"
  obtain nd where plan: "do_plan s req = PlanForward nd ?b" by (rule partial_plan [OF m a s there])
  have "wire_request req = None \<longleftrightarrow> encode_event req = None"
    using wire_request_None [of req] by (auto simp: encode_event_def split: option.splits)
  with s plan cut show ?thesis
    by (auto simp: cluster_do.simps(2) round_trip.simps linked_def split: option.splits)
qed

lemma cluster_local:
  assumes "mesh parts members w" and "a \<in> set members"
    and "owner parts members (req_hash req) = a \<or> req_hash req = []"
    and "servers w a = Some s"
  shows "\<exists>nd. node_addr nd = Some (owner parts members (req_hash req)) \<and>
     node_conn nd = (if owner parts members (req_hash req) = a then None
                     else Some (owner parts members (req_hash req))) \<and>
     cluster_do (Suc n) rt w a req =
       Some (put_server a (s\<lparr>sstore := fst (process store_ops rt req (sstore s))\<rparr>) w,
             respond nd (snd (process store_ops rt req (sstore s))))"
  using assms by (intro partial_local) (simp_all add: mesh_partial)

lemma cluster_forward:
  assumes m: "mesh parts members w" and a: "a \<in> set members"
    and there: "owner parts members (req_hash req) \<noteq> a" "req_hash req \<noteq> []"
  shows "cluster_do (Suc n) rt w a req =
     (case wire_request req of
        None \<Rightarrow> Some (w, Inr (do_forwarded (Inl encode_error)))
      | Some req' \<Rightarrow>
          forwarded_result a (owner parts members (req_hash req))
            (cluster_do n rt w (owner parts members (req_hash req)) req'))"
proof -
  let ?b = "owner parts members (req_hash req)"
  have b: "?b \<in> set members" using m by (simp add: mesh_def owner_member)
  obtain s where s: "servers w a = Some s" by (rule mesh_server [OF m a])
  have "linked w a ?b" using m b by (auto simp: mesh_partial linked_def)
  with partial_forward [OF _ a s there] m show ?thesis by (simp add: mesh_partial)
qed

lemma forwarded_total: "r = Some x \<Longrightarrow> \<exists>y. forwarded_result a c r = Some y"
  by (simp add: split_beta)

text \<open>
  A key that is valid UTF-8 reaches its owner in one hop; any other is changed by the encoding
  once, so a second hop may follow, and never a third.
\<close>

lemma cluster_do_hops:
  assumes m: "mesh parts members w" and a: "a \<in> set members"
  shows "\<exists>y. cluster_do 3 rt w a req = Some y"
    and "utf8_valid (req_hash req) \<Longrightarrow> \<exists>y. cluster_do 2 rt w a req = Some y"
proof -
  have ne: "members \<noteq> []" using m by (simp add: mesh_def)
  let ?own = "\<lambda>r. owner parts members (req_hash r)"
  have here: "\<exists>y. cluster_do (Suc n) rt w b r = Some y" if b: "b \<in> set members" "?own r = b" for n b r
  proof -
    obtain s where "servers w b = Some s" using mesh_server [OF m b(1)] by blast
    from cluster_local [OF m b(1) _ this, of r n rt] b(2) show ?thesis by auto
  qed
  have valid: "\<exists>y. cluster_do (Suc (Suc n)) rt w b r = Some y"
    if b: "b \<in> set members" and v: "utf8_valid (req_hash r)" for n b r
  proof (cases "?own r = b \<or> req_hash r = []")
    case True
    obtain s where "servers w b = Some s" using mesh_server [OF m b] by blast
    from cluster_local [OF m b True this, of "Suc n" rt] show ?thesis by auto
  next
    case False
    show ?thesis
    proof (cases "wire_request r")
      case (Some r')
      then have "?own r' = ?own r" using req_hash_wire [OF Some] by (simp add: utf8_fix_valid v)
      then obtain y where "cluster_do (Suc n) rt w (?own r) r' = Some y"
        using here [where b = "?own r" and r = r' and n = n, OF owner_member [OF ne]] by auto
      from forwarded_total [OF this] cluster_forward [OF m b, of r "Suc n" rt] False Some
      show ?thesis by simp
    qed (use cluster_forward [OF m b, of r "Suc n" rt] False in simp)
  qed
  show "\<exists>y. cluster_do 2 rt w a req = Some y" if "utf8_valid (req_hash req)"
    using valid [OF a that, of 0] by (simp add: numeral_2_eq_2)
  show "\<exists>y. cluster_do 3 rt w a req = Some y"
  proof (cases "?own req = a \<or> req_hash req = []")
    case True
    obtain s where "servers w a = Some s" using mesh_server [OF m a] by blast
    from cluster_local [OF m a True this, of 2 rt] show ?thesis by (auto simp: numeral_3_eq_3 numeral_2_eq_2)
  next
    case False
    show ?thesis
    proof (cases "wire_request req")
      case (Some r')
      have "utf8_valid (req_hash r')" by (simp add: req_hash_wire [OF Some] utf8_valid_fix)
      from valid [where b = "?own req" and r = r' and n = 0, OF owner_member [OF ne] this] obtain y where
        "cluster_do (Suc (Suc 0)) rt w (?own req) r' = Some y" by blast
      from forwarded_total [OF this] cluster_forward [OF m a, of req "Suc (Suc 0)" rt] False Some
      show ?thesis by (simp add: numeral_3_eq_3)
    qed (use cluster_forward [OF m a, of req 2 rt] False in \<open>simp add: numeral_3_eq_3 numeral_2_eq_2\<close>)
  qed
qed

end
