(* ===== verification/Url.thy ===== *)
theory Url
  imports Utf8
begin

text \<open>
  The parts of package \<open>net/url\<close> that the client and the HTTP server use, on bytes: escaping a
  path, removing escapes from paths and query components, and \<open>Values.Get\<close> on a parsed query. The
  client sends the path it was given; what the server reads from the query is another matter, as
  the multiplexer puts parts of the path into it without escaping them.
\<close>

section \<open>Splitting\<close>

text \<open>\<open>strings.Split\<close> at a byte, or at any byte of a set.\<close>

fun split_by :: "(char \<Rightarrow> bool) \<Rightarrow> string \<Rightarrow> string list" where
  "split_by P [] = [[]]"
| "split_by P (c # s) =
     (if P c then [] # split_by P s
      else case split_by P s of [] \<Rightarrow> [[c]] | p # ps \<Rightarrow> (c # p) # ps)"

lemma split_by_ne [simp]: "split_by P s \<noteq> []"
  by (cases s) (auto split: list.splits)

lemma split_by_none: "list_all (\<lambda>c. \<not> P c) s \<Longrightarrow> split_by P s = [s]"
  by (induction s) auto

lemma split_by_append:
  "list_all (\<lambda>c. \<not> P c) s \<Longrightarrow> P d \<Longrightarrow> split_by P (s @ d # t) = s # split_by P t"
  by (induction s) auto

lemma split_by_pieces: "p \<in> set (split_by P s) \<Longrightarrow> list_all (\<lambda>c. \<not> P c) p"
  by (induction s arbitrary: p) (auto split: list.splits if_splits)

lemma split_by_head: "split_by P s = takeWhile (\<lambda>c. \<not> P c) s # tl (split_by P s)"
  by (induction s) (auto split: list.splits)

text \<open>\<open>strings.Join\<close> undoes a split at a byte.\<close>

fun join_with :: "char \<Rightarrow> string list \<Rightarrow> string" where
  "join_with c [] = []"
| "join_with c [p] = p"
| "join_with c (p # ps) = p @ c # join_with c ps"

lemma join_with_Cons: "ps \<noteq> [] \<Longrightarrow> join_with c (p # ps) = p @ c # join_with c ps"
  by (cases ps) auto

lemma join_split: "join_with c (split_by (\<lambda>x. x = c) s) = s"
proof (induction s)
  case (Cons x s)
  show ?case
  proof (cases "x = c")
    case True
    with Cons show ?thesis by (simp add: join_with_Cons)
  next
    case False
    obtain p ps where "split_by (\<lambda>x. x = c) s = p # ps" by (cases "split_by (\<lambda>x. x = c) s") auto
    with Cons False show ?thesis by (cases ps) auto
  qed
qed simp

lemma split_join:
  "list_all (list_all (\<lambda>x. x \<noteq> c)) ps \<Longrightarrow> ps \<noteq> [] \<Longrightarrow> split_by (\<lambda>x. x = c) (join_with c ps) = ps"
proof (induction c ps rule: join_with.induct)
  case (2 c p)
  then show ?case by (simp add: split_by_none)
next
  case (3 c p q ps)
  then show ?case by (simp add: split_by_append)
qed simp

section \<open>Escapes\<close>

definition hex_digit :: "nat \<Rightarrow> char" where
  "hex_digit n = (if n < 10 then char_of (48 + n) else char_of (55 + n))"

definition is_hex :: "char \<Rightarrow> bool" where
  "is_hex c \<longleftrightarrow> (48 \<le> byte_of c \<and> byte_of c \<le> 57) \<or> (97 \<le> byte_of c \<and> byte_of c \<le> 102) \<or>
     (65 \<le> byte_of c \<and> byte_of c \<le> 70)"

definition unhex :: "char \<Rightarrow> nat" where
  "unhex c = (if byte_of c \<le> 57 then byte_of c - 48
     else if 97 \<le> byte_of c then byte_of c - 97 + 10 else byte_of c - 65 + 10)"

text \<open>The bytes a path shows as they are: letters, digits and \<open>-_.~$&+,/:;=@\<close>.\<close>

definition path_plain :: "char \<Rightarrow> bool" where
  "path_plain c \<longleftrightarrow> (48 \<le> byte_of c \<and> byte_of c \<le> 57) \<or> (97 \<le> byte_of c \<and> byte_of c \<le> 122) \<or>
     (65 \<le> byte_of c \<and> byte_of c \<le> 90) \<or> c \<in> set ''-_.~$&+,/:;=@''"

fun escape_path :: "string \<Rightarrow> string" where
  "escape_path [] = []"
| "escape_path (c # s) =
     (if path_plain c then c # escape_path s
      else CHR ''%'' # hex_digit (byte_of c div 16) # hex_digit (byte_of c mod 16) # escape_path s)"

text \<open>\<open>unescape\<close>: \<open>None\<close> on a malformed escape; a plus is a blank in a query only.\<close>

fun unescape :: "bool \<Rightarrow> string \<Rightarrow> string option" where
  "unescape query [] = Some []"
| "unescape query (c # s) =
     (if c = CHR ''%'' then
        (if 2 \<le> length s \<and> is_hex (s ! 0) \<and> is_hex (s ! 1) then
           map_option (Cons (char_of (unhex (s ! 0) * 16 + unhex (s ! 1)))) (unescape query (drop 2 s))
         else None)
      else map_option (Cons (if query \<and> c = CHR ''+'' then CHR '' '' else c)) (unescape query s))"

declare unescape.simps(2) [simp del]

lemma hex_digit_hex: "n < 16 \<Longrightarrow> is_hex (hex_digit n) \<and> unhex (hex_digit n) = n"
  by (simp add: is_hex_def unhex_def hex_digit_def)

lemma unescape_escape: "unescape False (escape_path s) = Some s"
proof (induction s)
  case (Cons c s)
  show ?case
  proof (cases "path_plain c")
    case True
    then have "c \<noteq> CHR ''%''" by (auto simp: path_plain_def)
    with True Cons show ?thesis by (simp add: unescape.simps(2))
  next
    case False
    have "byte_of c div 16 < 16" by (rule less_mult_imp_div_less) simp
    note hi = hex_digit_hex [OF this] and lo = hex_digit_hex [of "byte_of c mod 16", simplified]
    from False Cons hi lo show ?thesis by (simp add: unescape.simps(2))
  qed
qed simp

text \<open>Bytes a query component shows as they are.\<close>

definition query_plain :: "char \<Rightarrow> bool" where
  "query_plain c \<longleftrightarrow> c \<noteq> CHR ''%'' \<and> c \<noteq> CHR ''+'' \<and> c \<noteq> CHR ''&'' \<and> c \<noteq> CHR '';''"

lemma unescape_plain: "list_all query_plain s \<Longrightarrow> unescape query s = Some s"
  by (induction s) (auto simp: query_plain_def unescape.simps(2))

section \<open>Queries\<close>

text \<open>
  \<open>url.ParseQuery\<close> keeps the pairs it can decode, in order; \<open>Get\<close> is the first value of a key, or the
  empty string.
\<close>

definition query_break :: "char \<Rightarrow> bool" where
  "query_break c \<longleftrightarrow> c = CHR ''&'' \<or> c = CHR '';''"

definition parse_pair :: "string \<Rightarrow> (string \<times> string) option" where
  "parse_pair p =
     (if p = [] then None
      else let k = takeWhile (\<lambda>c. c \<noteq> CHR ''='') p; v = drop (Suc (length k)) p
           in case (unescape True k, unescape True v) of
                (Some k', Some v') \<Rightarrow> Some (k', v')
              | _ \<Rightarrow> None)"

definition parse_query :: "string \<Rightarrow> (string \<times> string) list" where
  "parse_query q = List.map_filter parse_pair (split_by query_break q)"

definition query_get :: "string \<Rightarrow> string \<Rightarrow> string" where
  "query_get q k = (case map_of (parse_query q) k of None \<Rightarrow> [] | Some v \<Rightarrow> v)"

lemma parse_query_first:
  "parse_query q =
     (case parse_pair (takeWhile (\<lambda>c. \<not> query_break c) q) of None \<Rightarrow> [] | Some kv \<Rightarrow> [kv]) @
     List.map_filter parse_pair (tl (split_by query_break q))"
  unfolding parse_query_def by (subst split_by_head) (simp add: map_filter_simps split: option.split)

text \<open>A pair written in front of a query, its value without escapes.\<close>

lemma query_get_raw:
  assumes k: "list_all query_plain k" "CHR ''='' \<notin> set k" "k \<noteq> []"
    and v: "unescape True (takeWhile (\<lambda>c. \<not> query_break c) v) = Some x"
  shows "query_get (k @ CHR ''='' # v @ CHR ''&'' # q) k = x"
proof -
  let ?v = "takeWhile (\<lambda>c. \<not> query_break c) v"
  have "list_all (\<lambda>c. \<not> query_break c) k"
    using k(1) by (auto simp: list_all_iff query_plain_def query_break_def)
  then have "takeWhile (\<lambda>c. \<not> query_break c) (k @ CHR ''='' # v @ CHR ''&'' # q) =
      k @ CHR ''='' # takeWhile (\<lambda>c. \<not> query_break c) (v @ CHR ''&'' # q)"
    by (induction k) (auto simp: query_break_def)
  moreover have "takeWhile (\<lambda>c. \<not> query_break c) (v @ CHR ''&'' # q) = ?v"
    by (induction v) (auto simp: query_break_def)
  moreover have "takeWhile (\<lambda>c. c \<noteq> CHR ''='') (k @ CHR ''='' # ?v) = k"
    using k(2) by (induction k) auto
  then have "parse_pair (k @ CHR ''='' # ?v) = Some (k, x)"
    using unescape_plain [OF k(1)] v by (simp add: parse_pair_def Let_def)
  ultimately show ?thesis by (simp add: query_get_def parse_query_first)
qed

lemma query_get_front:
  assumes "list_all query_plain k" and "CHR ''='' \<notin> set k" and "k \<noteq> []" and "list_all query_plain v"
  shows "query_get (k @ CHR ''='' # v @ CHR ''&'' # q) k = v"
proof (rule query_get_raw [OF assms(1-3)])
  have "takeWhile (\<lambda>c. \<not> query_break c) v = v"
    using assms(4) by (auto simp: takeWhile_eq_all_conv list_all_iff query_plain_def query_break_def)
  then show "unescape True (takeWhile (\<lambda>c. \<not> query_break c) v) = Some v"
    by (simp only: unescape_plain [OF assms(4)])
qed

end
