(* ===== verification/Httputil.thy ===== *)
theory Httputil
  imports Url Wire
begin

text \<open>
  Component \<open>httprest/httputil\<close>: the choice of a formatter from the headers of a request
  (\<open>format.go\<close>, \<open>json.go\<close>) and the multiplexer (\<open>mux.go\<close>), which finds the handler for a method
  and a path and puts the parts of the path that fill a parameter in front of the query.
\<close>

section \<open>Requests and responses\<close>

text \<open>
  A request as \<open>net/http\<close> hands it over: the path without escapes, the raw query, the first values
  of the two headers in use (empty when absent), and what the JSON decoder finds in the body, an
  error or a value.
\<close>

record http_request =
  hmethod :: string
  hpath :: string
  hquery :: string
  hcontent_type :: string
  haccept :: string
  hbody :: "string + json"

datatype 'b reply = NoReply | TextReply string | JsonReply 'b

record 'b http_response =
  hstatus :: int
  hreply :: "'b reply"

section \<open>Formats\<close>

abbreviation type_any :: string where "type_any \<equiv> ''*/*''"
abbreviation type_application_json :: string where "type_application_json \<equiv> ''application/json''"

datatype formatter = JSONFormatter

type_synonym formatters = "(string \<times> formatter) list"

text \<open>\<open>log.FatalLogf\<close> panics with the line it has written.\<close>

definition fatal_log :: "string \<Rightarrow> string \<Rightarrow> go_panic" where
  "fatal_log event t = PanicText (event @ '' '' @ t @ [CHR 0x0A])"

definition register :: "string \<Rightarrow> formatter option \<Rightarrow> formatters \<Rightarrow> formatters res" where
  "register t f m =
     (case f of
        None \<Rightarrow> Inl (fatal_log ''format/REGISTER'' (''failed to register nil formatter for: '' @ t))
      | Some f \<Rightarrow>
          if map_of m t \<noteq> None then
            Inl (fatal_log ''format/REGISTER'' (''failed to register duplicate formatter for: '' @ t))
          else Inr ((t, f) # m))"

definition init_formatters :: "formatters res" where
  "init_formatters =
     (case register type_application_json (Some JSONFormatter) [] of
        Inl p \<Rightarrow> Inl p
      | Inr m \<Rightarrow>
          (case register type_any (Some JSONFormatter) m of
             Inl p \<Rightarrow> Inl p
           | Inr m \<Rightarrow> register '''' (Some JSONFormatter) m))"

text \<open>The formatters of the running program.\<close>

definition formatters :: formatters where
  "formatters = (case init_formatters of Inl p \<Rightarrow> [] | Inr m \<Rightarrow> m)"

lemma init_formatters_ok: "init_formatters = Inr formatters"
  by (simp add: formatters_def init_formatters_def register_def)

abbreviation err_not_supported :: string where
  "err_not_supported \<equiv> ''format: requested format not supported''"

definition format_of :: "string \<Rightarrow> formatter \<times> string option" where
  "format_of t =
     (case map_of formatters t of
        None \<Rightarrow> (JSONFormatter, Some err_not_supported)
      | Some f \<Rightarrow> (f, None))"

definition read_format :: "http_request \<Rightarrow> formatter \<times> string option" where
  "read_format r = format_of (hcontent_type r)"

definition write_format :: "http_request \<Rightarrow> formatter \<times> string option" where
  "write_format r = format_of (haccept r)"

text \<open>The formatters for both directions, or the status written in their place.\<close>

definition format :: "http_request \<Rightarrow> int + (formatter \<times> formatter)" where
  "format r =
     (case read_format r of
        (_, Some err) \<Rightarrow> Inl 415
      | (fr, None) \<Rightarrow>
          (case write_format r of
             (_, Some err) \<Rightarrow> Inl 406
           | (fw, None) \<Rightarrow> Inr (fr, fw)))"

definition supported :: "string \<Rightarrow> bool" where
  "supported t \<longleftrightarrow> t = type_application_json \<or> t = type_any \<or> t = []"

lemma format_of_supported:
  "format_of t = (JSONFormatter, if supported t then None else Some err_not_supported)"
  by (simp add: format_of_def formatters_def init_formatters_def register_def supported_def)

lemma format_result:
  "format r = (if \<not> supported (hcontent_type r) then Inl 415
     else if \<not> supported (haccept r) then Inl 406 else Inr (JSONFormatter, JSONFormatter))"
  by (simp add: format_def read_format_def write_format_def format_of_supported)

text \<open>
  \<open>JSONFormatter\<close>: decoding the body with a decoder for the target, and encoding a value after
  the status line has gone out (a nil value, and one that cannot be encoded, leave no body).
\<close>

abbreviation unmarshal_error :: string where "unmarshal_error \<equiv> ''json: cannot unmarshal''"

fun read_body :: "formatter \<Rightarrow> (json \<Rightarrow> 'v option) \<Rightarrow> http_request \<Rightarrow> string + 'v" where
  "read_body JSONFormatter dec r =
     (case hbody r of
        Inl err \<Rightarrow> Inl err
      | Inr j \<Rightarrow> (case dec j of None \<Rightarrow> Inl unmarshal_error | Some v \<Rightarrow> Inr v))"

fun write_body :: "formatter \<Rightarrow> ('v \<Rightarrow> 'b option) \<Rightarrow> 'v option \<Rightarrow> int \<Rightarrow> 'b http_response" where
  "write_body JSONFormatter enc v st =
     \<lparr>hstatus = st,
      hreply = (case v of
                  None \<Rightarrow> NoReply
                | Some x \<Rightarrow> (case enc x of None \<Rightarrow> NoReply | Some b \<Rightarrow> JsonReply b))\<rparr>"

section \<open>The multiplexer\<close>

text \<open>
  A compiled pattern by its segments: text that stands for itself (the patterns of this program
  hold no other special characters of regular expressions) or the group \<open>([^/]+)\<close>.
\<close>

datatype segment = Text string | Group

record 'h mux_entry =
  entry_handler :: 'h
  entry_pattern :: "segment list"
  entry_params :: "string list"

type_synonym 'h serve_mux = "string \<Rightarrow> 'h mux_entry list option"

definition new_serve_mux :: "'h serve_mux" where
  "new_serve_mux = Map.empty"

text \<open>\<open>paramRegexp\<close>: the name in the first pair of braces that is not empty.\<close>

fun param_name :: "string \<Rightarrow> string option" where
  "param_name [] = None"
| "param_name (c # s) =
     (if c = CHR ''{'' \<and> takeWhile (\<lambda>x. x \<noteq> CHR ''}'') s \<noteq> [] \<and> CHR ''}'' \<in> set s
      then Some (takeWhile (\<lambda>x. x \<noteq> CHR ''}'') s)
      else param_name s)"

abbreviation path_split :: "string \<Rightarrow> string list" where
  "path_split \<equiv> split_by (\<lambda>c. c = CHR ''/'')"

definition compile_pattern :: "string \<Rightarrow> segment list \<times> string list" where
  "compile_pattern pattern =
     (let path = path_split pattern
      in (map (\<lambda>p. case param_name p of None \<Rightarrow> Text p | Some _ \<Rightarrow> Group) path,
          List.map_filter param_name path))"

definition mux_handle :: "string \<Rightarrow> string \<Rightarrow> 'h \<Rightarrow> 'h serve_mux \<Rightarrow> 'h serve_mux" where
  "mux_handle method pattern h m =
     (let (r, params) = compile_pattern pattern;
          entry = \<lparr>entry_handler = h, entry_pattern = r, entry_params = params\<rparr>
      in m(method \<mapsto> (case m method of None \<Rightarrow> [] | Some es \<Rightarrow> es) @ [entry]))"

text \<open>
  The match of a pattern, which counts only when it is the whole path. No group contains a slash,
  so that happens exactly when the pattern matches segment by segment.
\<close>

fun match_path :: "segment list \<Rightarrow> string list \<Rightarrow> string list option" where
  "match_path [] [] = Some []"
| "match_path (Text t # ps) (x # xs) = (if x = t then match_path ps xs else None)"
| "match_path (Group # ps) (x # xs) = (if x \<noteq> [] then map_option (Cons x) (match_path ps xs) else None)"
| "match_path _ _ = None"

definition set_params :: "string list \<Rightarrow> string list \<Rightarrow> string \<Rightarrow> string" where
  "set_params params vals query =
     fold (\<lambda>(p, v) q. (p @ ''='' @ v) @ ''&'' @ q) (zip params vals) query"

datatype 'h dispatch = NotAllowed | NotFound | Dispatch 'h http_request

fun serve_entries :: "'h mux_entry list \<Rightarrow> http_request \<Rightarrow> 'h dispatch" where
  "serve_entries [] r = NotFound"
| "serve_entries (e # es) r =
     (case match_path (entry_pattern e) (path_split (hpath r)) of
        None \<Rightarrow> serve_entries es r
      | Some vals \<Rightarrow>
          if length vals \<noteq> length (entry_params e) then serve_entries es r
          else Dispatch (entry_handler e) (r\<lparr>hquery := set_params (entry_params e) vals (hquery r)\<rparr>))"

definition serve_mux :: "'h serve_mux \<Rightarrow> http_request \<Rightarrow> 'h dispatch" where
  "serve_mux m r = (case m (hmethod r) of None \<Rightarrow> NotAllowed | Some es \<Rightarrow> serve_entries es r)"

definition not_found :: "'b http_response" where
  "not_found = \<lparr>hstatus = 404, hreply = TextReply (''page not found'' @ [CHR 0x0A])\<rparr>"

definition not_allowed :: "'b http_response" where
  "not_allowed = \<lparr>hstatus = 405, hreply = TextReply (''method not allowed'' @ [CHR 0x0A])\<rparr>"

definition param :: "http_request \<Rightarrow> string \<Rightarrow> string" where
  "param r s = query_get (hquery r) s"

definition params :: "http_request \<Rightarrow> string list \<Rightarrow> string list" where
  "params r ss = map (param r) ss"

section \<open>Patterns and paths\<close>

text \<open>A pattern matches the paths made from it by filling its groups.\<close>

fun fill_path :: "segment list \<Rightarrow> string list \<Rightarrow> string list" where
  "fill_path [] vs = []"
| "fill_path (Text t # ps) vs = t # fill_path ps vs"
| "fill_path (Group # ps) vs = hd vs # fill_path ps (tl vs)"

lemma fill_path_Nil [simp]: "fill_path ps vs = [] \<longleftrightarrow> ps = []" "[] = fill_path ps vs \<longleftrightarrow> ps = []"
  by (cases ps; cases "hd ps"; auto)+

lemma match_path_iff:
  "match_path ps xs = Some vs \<longleftrightarrow>
     xs = fill_path ps vs \<and> length vs = length (filter (\<lambda>p. p = Group) ps) \<and> [] \<notin> set vs"
proof (induction ps xs arbitrary: vs rule: match_path.induct)
  case (3 ps x xs)
  then show ?case by (cases vs) auto
qed (auto simp: neq_Nil_conv)

text \<open>A parameter in front of the query is what the handler reads, whatever follows.\<close>

lemma param_front:
  assumes "list_all query_plain k" and "CHR ''='' \<notin> set k" and "k \<noteq> []" and "list_all query_plain v"
  shows "param (r\<lparr>hquery := set_params [k] [v] q\<rparr>) k = v"
  using query_get_front [OF assms] by (simp add: param_def set_params_def)

end
