(* ===== verification/Duration_Json.thy ===== *)
theory Duration_Json
  imports Go_Text
begin

text \<open>
  Component \<open>client/duration.go\<close>: durations as JSON strings. Encoding prints the duration
  (theory \<open>Go_Text\<close>), decoding is \<open>time.ParseDuration\<close>, written out here: a sign, then numbers
  with an optional fraction and a unit. The code computes the value of a fraction with doubles;
  that product is the parameter \<open>fm\<close>, of which only the exact cases matter.
\<close>

section \<open>Parsing\<close>

definition is_digit :: "char \<Rightarrow> bool" where
  "is_digit c \<longleftrightarrow> 48 \<le> (of_char c :: nat) \<and> (of_char c :: nat) \<le> 57"

definition digit_value :: "char \<Rightarrow> nat" where
  "digit_value c = of_char c - 48"

text \<open>\<open>leadingInt\<close>: an error when the number does not fit into 63 bits.\<close>

fun leading_int :: "nat \<Rightarrow> string \<Rightarrow> (nat \<times> string) option" where
  "leading_int x [] = Some (x, [])"
| "leading_int x (c # s) =
     (if \<not> is_digit c then Some (x, c # s)
      else if x > (2 ^ 63 - 1) div 10 then None
      else let y = x * 10 + digit_value c in if 2 ^ 63 \<le> y then None else leading_int y s)"

text \<open>\<open>leadingFraction\<close>: digits beyond the range are skipped.\<close>

fun leading_fraction :: "nat \<Rightarrow> nat \<Rightarrow> bool \<Rightarrow> string \<Rightarrow> nat \<times> nat \<times> string" where
  "leading_fraction x scale overflow [] = (x, scale, [])"
| "leading_fraction x scale overflow (c # s) =
     (if \<not> is_digit c then (x, scale, c # s)
      else if overflow then leading_fraction x scale True s
      else if x > (2 ^ 63 - 1) div 10 then leading_fraction x scale True s
      else let y = x * 10 + digit_value c
           in if 2 ^ 63 \<le> y then leading_fraction x scale True s
              else leading_fraction y (scale * 10) False s)"

definition unit_map :: "(string \<times> nat) list" where
  "unit_map =
     [(''ns'', 1), (''us'', 1000), (micro_sign @ ''s'', 1000),
      ([char_of (0xCE :: nat), char_of (0xBC :: nat)] @ ''s'', 1000),
      (''ms'', 1000000), (''s'', 1000000000), (''m'', 60000000000), (''h'', 3600000000000)]"

text \<open>One number and its unit.\<close>

definition parse_item :: "(nat \<Rightarrow> nat \<Rightarrow> nat \<Rightarrow> nat) \<Rightarrow> string \<Rightarrow> (nat \<times> string) option" where
  "parse_item fm s =
     (if s = [] \<or> \<not> (hd s = CHR ''.'' \<or> is_digit (hd s)) then None
      else case leading_int 0 s of
        None \<Rightarrow> None
      | Some (v, s1) \<Rightarrow>
          let pre = (length s1 \<noteq> length s);
              (f, scale, s2, post) =
                (if s1 \<noteq> [] \<and> hd s1 = CHR ''.'' then
                   let (f, scale, s2) = leading_fraction 0 1 False (tl s1)
                   in (f, scale, s2, length s2 \<noteq> length (tl s1))
                 else (0, 1, s1, False));
              u = takeWhile (\<lambda>c. c \<noteq> CHR ''.'' \<and> \<not> is_digit c) s2
          in if \<not> pre \<and> \<not> post then None
             else if u = [] then None
             else case map_of unit_map u of
               None \<Rightarrow> None
             | Some un \<Rightarrow>
                 if v > (2 ^ 63 - 1) div un then None
                 else let v = v * un + (if f > 0 then fm f un scale else 0)
                      in if 2 ^ 63 \<le> v then None else Some (v, drop (length u) s2))"

lemma leading_int_rest: "leading_int x s = Some (y, t) \<Longrightarrow> length t \<le> length s"
  by (induction x s rule: leading_int.induct) (auto simp: Let_def split: if_splits)

lemma leading_fraction_rest: "leading_fraction x sc ov s = (f, sc', t) \<Longrightarrow> length t \<le> length s"
  by (induction x sc ov s rule: leading_fraction.induct) (fastforce simp: Let_def split: if_splits)+

lemma parse_item_shrinks:
  assumes "parse_item fm s = Some (v, t)"
  shows "length t < length s"
proof -
  from assms obtain x s1 where s1: "leading_int 0 s = Some (x, s1)"
    by (auto simp: parse_item_def split: if_splits option.splits)
  define s2 where "s2 = (if s1 \<noteq> [] \<and> hd s1 = CHR ''.'' then snd (snd (leading_fraction 0 1 False (tl s1))) else s1)"
  define u where "u = takeWhile (\<lambda>c. c \<noteq> CHR ''.'' \<and> \<not> is_digit c) s2"
  have "length s2 \<le> length s1"
    using leading_fraction_rest [of 0 1 False "tl s1"]
    by (cases "leading_fraction 0 1 False (tl s1)") (fastforce simp: s2_def)
  moreover have "length s1 \<le> length s" by (rule leading_int_rest [OF s1])
  moreover have "u \<noteq> [] \<and> t = drop (length u) s2"
    using assms s1
    by (auto simp: parse_item_def Let_def u_def s2_def split_beta split: if_splits option.splits)
  moreover have "length u \<le> length s2" by (simp add: u_def length_takeWhile_le)
  ultimately show ?thesis by (cases u) auto
qed

function parse_items :: "(nat \<Rightarrow> nat \<Rightarrow> nat \<Rightarrow> nat) \<Rightarrow> nat \<Rightarrow> string \<Rightarrow> nat option" where
  "parse_items fm d s =
     (if s = [] then Some d
      else case parse_item fm s of
        None \<Rightarrow> None
      | Some (v, t) \<Rightarrow> if 2 ^ 63 \<le> d + v then None else parse_items fm (d + v) t)"
  by pat_completeness auto
termination
  by (relation "measure (\<lambda>(fm, d, s). length s)") (auto dest: parse_item_shrinks)

declare parse_items.simps [simp del]

definition parse_duration :: "(nat \<Rightarrow> nat \<Rightarrow> nat \<Rightarrow> nat) \<Rightarrow> string \<Rightarrow> duration option" where
  "parse_duration fm s =
     (let neg = (s \<noteq> [] \<and> hd s = CHR ''-'');
          s = (if s \<noteq> [] \<and> (hd s = CHR ''-'' \<or> hd s = CHR ''+'') then tl s else s)
      in if s = ''0'' then Some 0
         else if s = [] then None
         else map_option (\<lambda>d. if neg then - word_of_nat d else word_of_nat d) (parse_items fm 0 s))"

section \<open>The JSON form\<close>

definition quote :: char where
  "quote = CHR 0x22"

definition marshal_duration :: "duration \<Rightarrow> string" where
  "marshal_duration d = quote # duration_text d @ [quote]"

text \<open>\<open>bytes.Trim\<close>: every quote at either end goes.\<close>

definition trim_quotes :: "string \<Rightarrow> string" where
  "trim_quotes b = rev (dropWhile (\<lambda>c. c = quote) (rev (dropWhile (\<lambda>c. c = quote) b)))"

text \<open>The decoder; \<open>None\<close> is the error of the parser.\<close>

definition unmarshal_duration :: "(nat \<Rightarrow> nat \<Rightarrow> nat \<Rightarrow> nat) \<Rightarrow> string \<Rightarrow> duration option" where
  "unmarshal_duration fm b = parse_duration fm (trim_quotes b)"

text \<open>
  Doubles are exact on integers below \<open>2 ^ 53\<close>, so the value of a fraction is exact when the scale
  divides the unit (no unit exceeds that of an hour).
\<close>

definition frac_exact :: "(nat \<Rightarrow> nat \<Rightarrow> nat \<Rightarrow> nat) \<Rightarrow> bool" where
  "frac_exact fm \<longleftrightarrow> (\<forall>f un scale. scale dvd un \<longrightarrow> un \<le> 3600000000000 \<longrightarrow> f < scale \<longrightarrow>
     fm f un scale = f * (un div scale))"

text \<open>Integer arithmetic is an instance.\<close>

lemma frac_exact_div: "frac_exact (\<lambda>f un scale. f * un div scale)"
  by (auto simp: frac_exact_def dvd_div_mult2_eq div_mult_swap)

section \<open>Numbers\<close>

lemma is_digit_digit: "d < 10 \<Longrightarrow> is_digit (digit d) \<and> digit_value (digit d) = d"
  by (simp add: is_digit_def digit_value_def digit_def)

lemma leading_int_digit:
  assumes "d < 10" and "x * 10 + d < 2 ^ 63"
  shows "leading_int x (digit d # t) = leading_int (x * 10 + d) t"
proof -
  have "x \<le> (2 ^ 63 - 1) div 10" using assms(2) by simp
  then show ?thesis using is_digit_digit [OF assms(1)] assms(2) by (simp add: not_less Let_def)
qed

lemma leading_int_text:
  "n < 2 ^ 63 \<Longrightarrow> leading_int 0 (nat_text n @ t) = leading_int n t"
proof (induction n arbitrary: t rule: nat_text.induct)
  case (1 n)
  show ?case
  proof (cases "n < 10")
    case True
    then show ?thesis using leading_int_digit [of n 0 t] by (simp add: nat_text.simps [of n])
  next
    case False
    have "leading_int 0 (nat_text (n div 10) @ digit (n mod 10) # t) = leading_int (n div 10) (digit (n mod 10) # t)"
      using 1 False by simp
    also have "\<dots> = leading_int n t"
      using leading_int_digit [of "n mod 10" "n div 10" t] 1(2) by simp
    finally show ?thesis using False by (simp add: nat_text.simps [of n])
  qed
qed

lemma digit_zero: "digit 0 = CHR ''0''"
  by (simp add: digit_def char_of_eq_iff)

lemma nat_text_head: "\<exists>c s. nat_text n = c # s \<and> is_digit c"
proof (induction n rule: nat_text.induct)
  case (1 n)
  show ?case
  proof (cases "n < 10")
    case True
    then show ?thesis using is_digit_digit [of n] by (simp add: nat_text.simps [of n])
  next
    case False
    with 1 show ?thesis by (auto simp: nat_text.simps [of n])
  qed
qed

text \<open>Exactly \<open>p\<close> digits.\<close>

fun pad :: "nat \<Rightarrow> nat \<Rightarrow> string" where
  "pad 0 n = []"
| "pad (Suc p) n = pad p (n div 10) @ [digit (n mod 10)]"

lemma leading_fraction_pad:
  assumes "k \<le> 9" and "n < 10 ^ k"
  shows "leading_fraction 0 1 False (pad k n @ t) = leading_fraction n (10 ^ k) False t"
  using assms
proof (induction k arbitrary: n t)
  case (Suc k)
  have lt: "n div 10 < 10 ^ k" using Suc.prems(2) by simp
  have "n < 10 ^ 9" using Suc.prems by (meson less_le_trans power_increasing one_le_numeral)
  then have small: "n div 10 \<le> (2 ^ 63 - 1) div 10" "n div 10 * 10 + n mod 10 < 2 ^ 63" by simp_all
  have "leading_fraction 0 1 False (pad k (n div 10) @ digit (n mod 10) # t) =
      leading_fraction (n div 10) (10 ^ k) False (digit (n mod 10) # t)"
    using Suc lt by simp
  also have "\<dots> = leading_fraction n (10 ^ Suc k) False t"
    using is_digit_digit [of "n mod 10"] small by (simp add: not_less Let_def mult.commute)
  finally show ?case by simp
qed simp

lemma length_pad: "length (pad k n) = k"
  by (induction k arbitrary: n) auto

lemma fmt_frac_loop_shown:
  "fmt_frac_loop p v True buf = (True, pad p (v mod 10 ^ p) @ buf, v div 10 ^ p)"
proof (induction p arbitrary: v buf)
  case (Suc p)
  have "v mod (10 * 10 ^ p) mod 10 = v mod 10" "v mod (10 * 10 ^ p) div 10 = v div 10 mod 10 ^ p"
    by (simp_all add: mod_mult2_eq mod_mod_cancel)
  then show ?case using Suc by (simp add: Let_def div_mult2_eq)
qed simp

lemma fmt_frac_loop_hidden:
  "fmt_frac_loop p v False buf =
     (if v mod 10 ^ p = 0 then (False, buf, v div 10 ^ p)
      else fmt_frac_loop p v False buf) \<and>
   (v mod 10 ^ p \<noteq> 0 \<longrightarrow> (\<exists>k f. 0 < k \<and> k \<le> p \<and> 0 < f \<and> f < 10 ^ k \<and> f * 10 ^ (p - k) = v mod 10 ^ p \<and>
      fmt_frac_loop p v False buf = (True, pad k f @ buf, v div 10 ^ p)))"
proof (induction p arbitrary: v)
  case (Suc p)
  have split: "v mod 10 ^ Suc p = 10 * (v div 10 mod 10 ^ p) + v mod 10"
    by (simp add: mod_mult2_eq)
  have div: "v div 10 div 10 ^ p = v div 10 ^ Suc p" by (simp add: div_mult2_eq)
  show ?case
  proof (cases "v mod 10 = 0")
    case True
    show ?thesis
    proof (cases "v div 10 mod 10 ^ p = 0")
      case zero: True
      then show ?thesis using Suc.IH [of "v div 10"] True split div by (simp add: Let_def)
    next
      case False
      then obtain k f where kf: "0 < k" "k \<le> p" "0 < f" "f < 10 ^ k" "f * 10 ^ (p - k) = v div 10 mod 10 ^ p"
        "fmt_frac_loop p (v div 10) False buf = (True, pad k f @ buf, v div 10 div 10 ^ p)"
        using Suc.IH [of "v div 10"] by blast
      moreover have "f * 10 ^ (Suc p - k) = v mod 10 ^ Suc p"
        using kf(2,5) split True by (simp add: Suc_diff_le algebra_simps)
      ultimately have "0 < k \<and> k \<le> Suc p \<and> 0 < f \<and> f < 10 ^ k \<and> f * 10 ^ (Suc p - k) = v mod 10 ^ Suc p \<and>
          fmt_frac_loop (Suc p) v False buf = (True, pad k f @ buf, v div 10 ^ Suc p)"
        using True div by (simp add: Let_def)
      then show ?thesis using False split by (intro conjI impI) (simp, blast)
    qed
  next
    case False
    have "v mod 10 ^ Suc p \<noteq> 0" using False split by simp
    moreover have "fmt_frac_loop (Suc p) v False buf = (True, pad (Suc p) (v mod 10 ^ Suc p) @ buf, v div 10 ^ Suc p)"
      using fmt_frac_loop_shown [of "Suc p" v buf] False by (simp add: Let_def)
    moreover have "v mod 10 ^ Suc p < 10 ^ Suc p" by simp
    ultimately show ?thesis by (intro conjI impI) (simp, metis diff_self_eq_0 le_refl mult.right_neutral neq0_conv power_0 zero_less_Suc)
  qed
qed simp

section \<open>Items\<close>

definition unit_text :: "string \<Rightarrow> bool" where
  "unit_text u \<longleftrightarrow> u \<noteq> [] \<and> list_all (\<lambda>c. c \<noteq> CHR ''.'' \<and> \<not> is_digit c) u"

definition ends_item :: "string \<Rightarrow> bool" where
  "ends_item t \<longleftrightarrow> t = [] \<or> is_digit (hd t)"

lemma takeWhile_unit:
  "unit_text u \<Longrightarrow> ends_item t \<Longrightarrow> takeWhile (\<lambda>c. c \<noteq> CHR ''.'' \<and> \<not> is_digit c) (u @ t) = u"
  by (cases t) (auto simp: unit_text_def ends_item_def takeWhile_append2 list_all_iff)

lemma unit_head: "unit_text u \<Longrightarrow> \<exists>c r. u = c # r \<and> \<not> is_digit c \<and> c \<noteq> CHR ''.''"
  by (cases u) (auto simp: unit_text_def)

lemma leading_int_stop: "t = [] \<or> \<not> is_digit (hd t) \<Longrightarrow> leading_int x t = Some (x, t)"
  by (cases t) auto

lemma leading_fraction_stop: "t = [] \<or> \<not> is_digit (hd t) \<Longrightarrow> leading_fraction x sc ov t = (x, sc, t)"
  by (cases t) auto

lemma fits: "v * un < 2 ^ 63 \<Longrightarrow> 0 < un \<Longrightarrow> \<not> (2 ^ 63 - 1) div un < (v :: nat)"
  by (simp add: not_less less_eq_div_iff_mult_less_eq)

lemma parse_item_int:
  assumes u: "unit_text u" "map_of unit_map u = Some un" "0 < un" and t: "ends_item t"
    and v: "v < 2 ^ 63" "v * un < 2 ^ 63"
  shows "parse_item fm (nat_text v @ u @ t) = Some (v * un, t)"
proof -
  obtain c r where c: "nat_text v = c # r" "is_digit c" using nat_text_head by blast
  obtain c' r' where c': "u = c' # r'" "\<not> is_digit c'" "c' \<noteq> CHR ''.''" using unit_head [OF u(1)] by blast
  have "leading_int 0 (nat_text v @ u @ t) = Some (v, u @ t)"
    using leading_int_text [OF v(1), of "u @ t"] c' by (simp add: leading_int_stop)
  with takeWhile_unit [OF u(1) t] c c' u(2) fits [OF v(2) u(3)] v(2) show ?thesis
    by (simp add: parse_item_def Let_def)
qed

lemma parse_item_eq:
  assumes "is_digit (hd s)" "s \<noteq> []" and "leading_int 0 s = Some (v, CHR ''.'' # s1)"
    and "Suc (length s1) \<noteq> length s" and "leading_fraction 0 1 False s1 = (f, sc, s2)"
    and "takeWhile (\<lambda>c. c \<noteq> CHR ''.'' \<and> \<not> is_digit c) s2 = u" "u \<noteq> []" "map_of unit_map u = Some un"
    and "\<not> (2 ^ 63 - 1) div un < v" and "0 < f" "v * un + fm f un sc < 2 ^ 63"
  shows "parse_item fm s = Some (v * un + fm f un sc, drop (length u) s2)"
  using assms by (simp add: parse_item_def Let_def)

lemma parse_item_frac:
  assumes u: "unit_text u" "map_of unit_map u = Some (10 ^ p)" and t: "ends_item t"
    and p: "p \<le> 9" and v: "v < 2 ^ 63" "v * 10 ^ p + n mod 10 ^ p < 2 ^ 63" and fm: "frac_exact fm"
  shows "parse_item fm (nat_text v @ fst (fmt_frac n p u) @ t) = Some (v * 10 ^ p + n mod 10 ^ p, t)"
proof (cases "n mod 10 ^ p = 0")
  case True
  then have "fst (fmt_frac n p u) = u"
    using fmt_frac_loop_hidden [of p n u] by (simp add: fmt_frac_def)
  with parse_item_int [OF u _ t v(1)] v(2) True show ?thesis by simp
next
  case False
  then obtain k f where kf: "0 < k" "k \<le> p" "0 < f" "f < 10 ^ k" "f * 10 ^ (p - k) = n mod 10 ^ p"
    "fmt_frac_loop p n False u = (True, pad k f @ u, n div 10 ^ p)"
    using fmt_frac_loop_hidden [of p n u] by blast
  then have printed: "fst (fmt_frac n p u) = CHR ''.'' # pad k f @ u" by (simp add: fmt_frac_def)
  let ?s1 = "pad k f @ u @ t"
  obtain c r where c: "nat_text v = c # r" "is_digit c" using nat_text_head by blast
  have stop: "u @ t = [] \<or> \<not> is_digit (hd (u @ t))" using unit_head [OF u(1)] by auto
  have leads: "leading_int 0 (nat_text v @ CHR ''.'' # ?s1) = Some (v, CHR ''.'' # ?s1)"
    using leading_int_text [OF v(1), of "CHR ''.'' # ?s1"] by (simp add: is_digit_def)
  have frac: "leading_fraction 0 1 False ?s1 = (f, 10 ^ k, u @ t)"
    using leading_fraction_pad [of k f "u @ t"] kf(2,4) p leading_fraction_stop [OF stop] by simp
  have "(10 :: nat) ^ k dvd 10 ^ p" using kf(2) by (simp add: le_imp_power_dvd)
  moreover have "(10 :: nat) ^ p \<le> 10 ^ 9" by (rule power_increasing [OF p]) simp
  then have "(10 :: nat) ^ p \<le> 3600000000000" by simp
  moreover have "(10 :: nat) ^ p div 10 ^ k = 10 ^ (p - k)" using kf(2) by (simp add: power_diff)
  ultimately have val: "fm f (10 ^ p) (10 ^ k) = n mod 10 ^ p"
    using fm kf(4,5) unfolding frac_exact_def by simp
  have "v * 10 ^ p < 2 ^ 63" using v(2) by linarith
  then have vfits: "\<not> (2 ^ 63 - 1) div 10 ^ p < v" by (rule fits) simp
  have "u \<noteq> []" using u(1) by (simp add: unit_text_def)
  then have "parse_item fm (nat_text v @ CHR ''.'' # ?s1) =
      Some (v * 10 ^ p + fm f (10 ^ p) (10 ^ k), drop (length u) (u @ t))"
    by (intro parse_item_eq [OF _ _ leads _ frac takeWhile_unit [OF u(1) t] _ u(2) vfits kf(3)])
      (use c val v(2) in simp_all)
  then show ?thesis by (simp add: printed val)
qed

lemma parse_items_item:
  assumes "parse_item fm s = Some (v, t)" and "d + v < 2 ^ 63"
  shows "parse_items fm d s = parse_items fm (d + v) t"
proof -
  have "s \<noteq> []" using assms(1) by (auto simp: parse_item_def)
  with assms show ?thesis by (simp add: parse_items.simps [of fm d s])
qed

lemma parse_items_Nil: "parse_items fm d [] = Some d"
  by (simp add: parse_items.simps)

lemma units:
  "unit_text ''h''" "unit_text ''m''" "unit_text ''s''" "unit_text ''ms''" "unit_text ''ns''"
  "unit_text (micro_sign @ ''s'')"
  "map_of unit_map ''h'' = Some 3600000000000" "map_of unit_map ''m'' = Some 60000000000"
  "map_of unit_map ''s'' = Some (10 ^ 9)" "map_of unit_map ''ms'' = Some (10 ^ 6)"
  "map_of unit_map ''ns'' = Some 1" "map_of unit_map (micro_sign @ ''s'') = Some (10 ^ 3)"
  by (simp_all add: unit_text_def is_digit_def unit_map_def micro_sign_def char_of_eq_iff)

lemma ends_item_text: "ends_item (nat_text n @ t)"
  using nat_text_head [of n] by (auto simp: ends_item_def)

lemma ends_item_Nil: "ends_item []"
  by (simp add: ends_item_def)

section \<open>Printed durations\<close>

lemma fmt_frac_quotient: "snd (fmt_frac n p u) = n div 10 ^ p"
  using fmt_frac_loop_hidden [of p n u] by (cases "n mod 10 ^ p = 0") (auto simp: fmt_frac_def split_beta)

lemma parse_seconds:
  assumes "frac_exact fm" and "d + q * 10 ^ 9 + n mod 10 ^ 9 < 2 ^ 63"
  shows "parse_items fm d (nat_text q @ fst (fmt_frac n 9 ''s'')) = Some (d + q * 10 ^ 9 + n mod 10 ^ 9)"
proof -
  have "parse_item fm (nat_text q @ fst (fmt_frac n 9 ''s'') @ []) = Some (q * 10 ^ 9 + n mod 10 ^ 9, [])"
    by (rule parse_item_frac [OF units(3,9) ends_item_Nil _ _ _ assms(1)]) (use assms(2) in auto)
  from parse_items_item [OF this, of d] assms(2) show ?thesis
    by (simp add: parse_items_Nil add.assoc)
qed

lemma parse_minutes:
  assumes "frac_exact fm" and "d + m * 60000000000 + q * 10 ^ 9 + n mod 10 ^ 9 < 2 ^ 63"
  shows "parse_items fm d (nat_text m @ ''m'' @ nat_text q @ fst (fmt_frac n 9 ''s'')) =
     Some (d + m * 60000000000 + q * 10 ^ 9 + n mod 10 ^ 9)"
proof -
  have "parse_item fm (nat_text m @ ''m'' @ nat_text q @ fst (fmt_frac n 9 ''s'')) =
      Some (m * 60000000000, nat_text q @ fst (fmt_frac n 9 ''s''))"
    by (rule parse_item_int [OF units(2,8) _ ends_item_text]) (use assms(2) in auto)
  from parse_items_item [OF this, of d] parse_seconds [OF assms(1), of "d + m * 60000000000" q n] assms(2)
  show ?thesis by simp
qed

lemma parse_hours:
  assumes "frac_exact fm" and "h * 3600000000000 + m * 60000000000 + q * 10 ^ 9 + n mod 10 ^ 9 < 2 ^ 63"
  shows "parse_items fm 0 (nat_text h @ ''h'' @ nat_text m @ ''m'' @ nat_text q @ fst (fmt_frac n 9 ''s'')) =
     Some (h * 3600000000000 + m * 60000000000 + q * 10 ^ 9 + n mod 10 ^ 9)"
proof -
  have "parse_item fm (nat_text h @ ''h'' @ nat_text m @ ''m'' @ nat_text q @ fst (fmt_frac n 9 ''s'')) =
      Some (h * 3600000000000, nat_text m @ ''m'' @ nat_text q @ fst (fmt_frac n 9 ''s''))"
    by (rule parse_item_int [OF units(1,7) _ ends_item_text]) (use assms(2) in auto)
  from parse_items_item [OF this, of 0] parse_minutes [OF assms(1), of "h * 3600000000000" m q n] assms(2)
  show ?thesis by simp
qed

lemma duration_nat_text_clock:
  assumes "1000000000 \<le> n"
  defines "q \<equiv> n div 10 ^ 9"
  shows "duration_nat_text n =
     (if q div 60 = 0 then nat_text (q mod 60) @ fst (fmt_frac n 9 ''s'')
      else if q div 60 div 60 = 0 then
        nat_text (q div 60 mod 60) @ ''m'' @ nat_text (q mod 60) @ fst (fmt_frac n 9 ''s'')
      else nat_text (q div 60 div 60) @ ''h'' @ nat_text (q div 60 mod 60) @ ''m'' @
        nat_text (q mod 60) @ fst (fmt_frac n 9 ''s''))"
  using assms fmt_frac_quotient [of n 9 "''s''"]
  by (simp add: duration_nat_text_def split_beta Let_def)

lemma clock_parts:
  fixes h m s r a q n :: nat
  assumes "h * 60 + m = a" and "a * 60 + s = q" and "q * 10 ^ 9 + r = n"
  shows "h * 3600000000000 + m * 60000000000 + s * 10 ^ 9 + r = n"
  using assms by (simp add: algebra_simps)

lemma parse_duration_nat_text:
  assumes fm: "frac_exact fm" and n: "n < 2 ^ 63"
  shows "parse_items fm 0 (duration_nat_text n) = Some n"
proof -
  let ?q = "n div 10 ^ 9"
  have sec: "?q * 10 ^ 9 + n mod 10 ^ 9 = n" by simp
  have parts: "?q div 60 div 60 * 3600000000000 + ?q div 60 mod 60 * 60000000000 +
      ?q mod 60 * 10 ^ 9 + n mod 10 ^ 9 = n"
    by (rule clock_parts [OF div_mult_mod_eq div_mult_mod_eq sec])
  consider "n = 0" | "0 < n" "n < 1000" | "1000 \<le> n" "n < 1000000" | "1000000 \<le> n" "n < 1000000000"
    | "1000000000 \<le> n" by linarith
  then show ?thesis
  proof cases
    case 1
    have "parse_item fm (nat_text 0 @ ''s'' @ []) = Some (0 * 10 ^ 9, [])"
      by (rule parse_item_int [OF units(3,9) _ ends_item_Nil]) simp_all
    from parse_items_item [OF this, of 0] 1 show ?thesis
      by (simp add: duration_nat_text_def parse_items_Nil nat_text.simps digit_zero)
  next
    case 2
    have "parse_item fm (nat_text n @ ''ns'' @ []) = Some (n * 1, [])"
      by (rule parse_item_int [OF units(5,11) _ ends_item_Nil]) (use n in simp_all)
    from parse_items_item [OF this, of 0] 2 n show ?thesis
      by (simp add: duration_nat_text_def parse_items_Nil)
  next
    case 3
    have "parse_item fm (nat_text (n div 10 ^ 3) @ fst (fmt_frac n 3 (micro_sign @ ''s'')) @ []) =
        Some (n div 10 ^ 3 * 10 ^ 3 + n mod 10 ^ 3, [])"
      by (rule parse_item_frac [OF units(6,12) ends_item_Nil _ _ _ fm]) (use n 3 in simp_all)
    from parse_items_item [OF this, of 0] 3 n fmt_frac_quotient [of n 3 "micro_sign @ ''s''"] show ?thesis
      by (simp add: duration_nat_text_def parse_items_Nil split_beta)
  next
    case 4
    have "parse_item fm (nat_text (n div 10 ^ 6) @ fst (fmt_frac n 6 ''ms'') @ []) =
        Some (n div 10 ^ 6 * 10 ^ 6 + n mod 10 ^ 6, [])"
      by (rule parse_item_frac [OF units(4,10) ends_item_Nil _ _ _ fm]) (use n 4 in simp_all)
    from parse_items_item [OF this, of 0] 4 n fmt_frac_quotient [of n 6 "''ms''"] show ?thesis
      by (simp add: duration_nat_text_def parse_items_Nil split_beta)
  next
    case 5
    define mins hh mm ss where d: "mins = ?q div 60" "hh = mins div 60" "mm = mins mod 60" "ss = ?q mod 60"
    have printed: "duration_nat_text n =
       (if mins = 0 then nat_text ss @ fst (fmt_frac n 9 ''s'')
        else if hh = 0 then nat_text mm @ ''m'' @ nat_text ss @ fst (fmt_frac n 9 ''s'')
        else nat_text hh @ ''h'' @ nat_text mm @ ''m'' @ nat_text ss @ fst (fmt_frac n 9 ''s''))"
      unfolding d by (rule duration_nat_text_clock [OF 5])
    have total: "hh * 3600000000000 + mm * 60000000000 + ss * 10 ^ 9 + n mod 10 ^ 9 = n"
      unfolding d by (rule parts)
    have "hh = 0 \<and> mm = 0" if "mins = 0" using that by (simp add: d)
    then consider "mins = 0" "hh = 0" "mm = 0" | "mins \<noteq> 0" "hh = 0" | "mins \<noteq> 0" "hh \<noteq> 0" by auto
    then show ?thesis
    proof cases
      case 1
      with parse_seconds [OF fm, of 0 ss n] total n show ?thesis unfolding printed by simp
    next
      case 2
      with parse_minutes [OF fm, of 0 mm ss n] total n show ?thesis unfolding printed by simp
    next
      case 3
      with parse_hours [OF fm, of hh mm ss n] total n show ?thesis unfolding printed by simp
    qed
  qed
qed

text \<open>The smallest duration prints as a number of nanoseconds that does not fit any more.\<close>

lemma parse_min_duration:
  assumes fm: "frac_exact fm"
  shows "parse_items fm 0 (duration_nat_text (2 ^ 63)) = None"
proof -
  let ?f = "fst (fmt_frac (2 ^ 63) 9 ''s'')"
  have printed: "duration_nat_text (2 ^ 63) = nat_text 2562047 @ ''h'' @ nat_text 47 @ ''m'' @ nat_text 16 @ ?f"
    using duration_nat_text_clock [of "2 ^ 63"] by simp
  have h: "parse_item fm (nat_text 2562047 @ ''h'' @ nat_text 47 @ ''m'' @ nat_text 16 @ ?f) =
      Some (2562047 * 3600000000000, nat_text 47 @ ''m'' @ nat_text 16 @ ?f)"
    by (rule parse_item_int [OF units(1,7) _ ends_item_text]) simp_all
  have m: "parse_item fm (nat_text 47 @ ''m'' @ nat_text 16 @ ?f) = Some (47 * 60000000000, nat_text 16 @ ?f)"
    by (rule parse_item_int [OF units(2,8) _ ends_item_text]) simp_all
  have s: "parse_item fm (nat_text 16 @ ?f @ []) = Some (16 * 10 ^ 9 + 2 ^ 63 mod 10 ^ 9, [])"
    by (rule parse_item_frac [OF units(3,9) ends_item_Nil _ _ _ fm]) simp_all
  have "nat_text 16 @ ?f \<noteq> []" using nat_text_head [of 16] by auto
  then have "parse_items fm (2562047 * 3600000000000 + 47 * 60000000000) (nat_text 16 @ ?f) = None"
    using s by (subst parse_items.simps) simp
  then show ?thesis unfolding printed
    using parse_items_item [OF h, of 0] parse_items_item [OF m, of "2562047 * 3600000000000"] by simp
qed

lemma duration_nat_text_head: "\<exists>c s. duration_nat_text n = c # s \<and> is_digit c \<and> s \<noteq> []"
proof -
  have head: "\<exists>c s. nat_text k @ c' # t = c # s \<and> is_digit c \<and> s \<noteq> []" for k c' t
    using nat_text_head [of k] by auto
  have frac: "\<exists>c t. fst (fmt_frac n p (c1 # r)) = c # t" for p c1 r
    using fmt_frac_loop_hidden [of p n "c1 # r"]
    by (cases "n mod 10 ^ p = 0") (auto simp: fmt_frac_def)
  have fh: "\<exists>c s. nat_text k @ fst (fmt_frac n p (c1 # r)) = c # s \<and> is_digit c \<and> s \<noteq> []" for k p c1 r
    using frac [of p c1 r] head [of k] by metis
  show ?thesis
    using head fh
    by (simp add: duration_nat_text_def split_beta Let_def is_digit_def micro_sign_def)
qed

lemma fmt_frac_suffix: "\<exists>x. fst (fmt_frac n p u) = x @ u"
  using fmt_frac_loop_hidden [of p n u] by (cases "n mod 10 ^ p = 0") (auto simp: fmt_frac_def)

lemma duration_nat_text_last: "last (duration_nat_text n) = CHR ''s''"
proof -
  have ends: "last (t @ fst (fmt_frac n p (r @ ''s''))) = CHR ''s''" for t p r
    using fmt_frac_suffix [of n p "r @ ''s''"] by auto
  have "fst (fmt_frac n 9 ''s'') \<noteq> []" using fmt_frac_suffix [of n 9 "''s''"] by auto
  then show ?thesis using ends [of _ _ "[]"] ends [of _ _ "''m''"] ends [of _ _ micro_sign]
    by (auto simp: duration_nat_text_def split_beta Let_def)
qed

lemma trim_quotes_text:
  assumes "s \<noteq> []" "hd s \<noteq> quote" "last s \<noteq> quote"
  shows "trim_quotes (quote # s @ [quote]) = s"
proof -
  have "dropWhile (\<lambda>c. c = quote) (s @ [quote]) = s @ [quote]" using assms by (cases s) auto
  moreover have "dropWhile (\<lambda>c. c = quote) (rev s) = rev s"
    using assms by (cases s rule: rev_cases) auto
  ultimately show ?thesis by (simp add: trim_quotes_def)
qed

lemma trim_marshal: "trim_quotes (marshal_duration d) = duration_text d"
proof -
  have "duration_nat_text n \<noteq> [] \<and> hd (duration_nat_text n) \<noteq> quote" for n
    using duration_nat_text_head [of n] by (auto simp: quote_def is_digit_def)
  then show ?thesis unfolding marshal_duration_def
    by (intro trim_quotes_text) (auto simp: duration_text_def Let_def duration_nat_text_last quote_def)
qed

lemma parse_duration_text:
  assumes "frac_exact fm"
  shows "parse_duration fm (duration_text d) = (if sint d = - (2 ^ 63) then None else Some d)"
proof -
  have parse: "parse_duration fm ((if neg then ''-'' else []) @ duration_nat_text n) =
      map_option (\<lambda>k. if neg then - word_of_nat k else word_of_nat k) (parse_items fm 0 (duration_nat_text n))"
    for neg n
    using duration_nat_text_head [of n] by (auto simp: parse_duration_def is_digit_def Let_def)
  show ?thesis
  proof (cases "sint d < 0")
    case True
    let ?n = "nat (- sint d)"
    have printed: "duration_text d = ''-'' @ duration_nat_text ?n"
      using True by (simp add: duration_text_def Let_def)
    have "- word_of_nat ?n = d" using True by simp
    moreover have "?n < 2 ^ 63" if "sint d \<noteq> - (2 ^ 63)"
      using sint_in_duration(1) [of d] that by (simp add: min_duration_def nat_less_iff)
    ultimately show ?thesis
      using parse [of True ?n] parse_duration_nat_text [OF assms, of ?n] parse_min_duration [OF assms]
      by (auto simp: printed)
  next
    case False
    let ?n = "nat (sint d)"
    have printed: "duration_text d = duration_nat_text ?n"
      using False by (simp add: duration_text_def Let_def)
    have "word_of_nat ?n = d" using False by simp
    moreover have "?n < 2 ^ 63" using sint_in_duration(2) [of d] by (simp add: max_duration_def nat_less_iff)
    ultimately show ?thesis
      using parse [of False ?n] parse_duration_nat_text [OF assms, of ?n] False by (simp add: printed)
  qed
qed

section \<open>Properties\<close>

text \<open>C35. Every duration is read back from its JSON text, but the smallest one, whose text the
  decoder refuses.\<close>

theorem duration_roundtrip:
  assumes "frac_exact fm"
  shows "unmarshal_duration fm (marshal_duration d) = (if sint d = - (2 ^ 63) then None else Some d)"
  by (simp add: unmarshal_duration_def trim_marshal parse_duration_text [OF assms])

theorem duration_roundtrip_witness:
  "unmarshal_duration (\<lambda>f un scale. f * un div scale) (marshal_duration 5400000000001) = Some 5400000000001"
  using duration_roundtrip [OF frac_exact_div, of 5400000000001] by simp

end
