(* ===== verification/Client_Data.thy ===== *)
theory Client_Data
  imports Wire Duration_Json
begin

text \<open>
  The data of package \<open>client\<close> (\<open>client/client.go\<close>), which the HTTP server uses as well: the options
  of each request with their JSON form, and the bodies of the responses. The body of a response is
  represented by the value it was encoded from, after what the encoding does to it (strings made
  valid, data as a decoder rebuilds it); each decoder says what it reads from every such body.
\<close>

section \<open>Types\<close>

record client_meta =
  cm_index :: int64
  cm_expire :: duration
  cm_accessed :: time
  cm_created :: time
  cm_updated :: time

record client_node =
  cn_id :: string
  cn_addr :: string

record client_response =
  cr_action :: string
  cr_meta :: client_meta
  cr_data :: goval
  cr_node :: client_node

definition client_meta_zero :: client_meta where
  "client_meta_zero = \<lparr>cm_index = 0, cm_expire = 0, cm_accessed = time_zero, cm_created = time_zero,
     cm_updated = time_zero\<rparr>"

definition client_response_zero :: client_response where
  "client_response_zero = \<lparr>cr_action = [], cr_meta = client_meta_zero, cr_data = VNil,
     cr_node = \<lparr>cn_id = [], cn_addr = []\<rparr>\<rparr>"

record load_options =
  lo_key :: string

record store_options =
  so_key :: string
  so_data :: goval
  so_expire :: duration

record delete_options =
  do_key :: string

record dict_item_options =
  di_key :: string
  di_item :: goval

record list_index_options =
  li_key :: string
  li_index :: uint64

section \<open>Options as JSON\<close>

text \<open>
  The keys carry the tag \<open>json:"-"\<close> and are left out. A marshalled duration is a string literal
  without escapes; conversely \<open>UnmarshalJSON\<close> gets the literal of whatever stands in its place.
\<close>

definition literal_json :: "string \<Rightarrow> json" where
  "literal_json b = JStr (butlast (tl b))"

definition marshal_store_options :: "store_options \<Rightarrow> json option" where
  "marshal_store_options o' =
     map_option (\<lambda>d. JObj [(''data'', d), (''expire_time'', literal_json (marshal_duration (so_expire o')))])
       (marshal_value (so_data o'))"

definition marshal_dict_item_options :: "dict_item_options \<Rightarrow> json option" where
  "marshal_dict_item_options o' = map_option (\<lambda>d. JObj [(''item'', d)]) (marshal_value (di_item o'))"

definition marshal_list_index_options :: "list_index_options \<Rightarrow> json option" where
  "marshal_list_index_options o' = Some (JObj [(''index'', JInt (uint (li_index o')))])"

text \<open>
  A string that can only be written with escapes is no duration: its literal holds a backslash.
  Of the other literals only an integer gets through, if it is zero.
\<close>

fun into_duration :: "(nat \<Rightarrow> nat \<Rightarrow> nat \<Rightarrow> nat) \<Rightarrow> json \<Rightarrow> duration option" where
  "into_duration fm (JStr s) =
     (if quote \<in> set s \<or> CHR 0x5C \<in> set s then None else unmarshal_duration fm (quote # s @ [quote]))"
| "into_duration fm (JInt i) = unmarshal_duration fm (int_text i)"
| "into_duration fm _ = None"

fun store_options_member ::
    "(nat \<Rightarrow> nat \<Rightarrow> nat \<Rightarrow> nat) \<Rightarrow> store_options \<Rightarrow> string \<times> json \<Rightarrow> store_options option" where
  "store_options_member fm o' (m, v) =
     (if field_is ''data'' m then map_option (\<lambda>d. o'\<lparr>so_data := d\<rparr>) (unmarshal_value v)
      else if field_is ''expire_time'' m then map_option (\<lambda>e. o'\<lparr>so_expire := e\<rparr>) (into_duration fm v)
      else Some o')"

fun dict_item_options_member :: "dict_item_options \<Rightarrow> string \<times> json \<Rightarrow> dict_item_options option" where
  "dict_item_options_member o' (m, v) =
     (if field_is ''item'' m then map_option (\<lambda>d. o'\<lparr>di_item := d\<rparr>) (unmarshal_value v) else Some o')"

fun list_index_options_member :: "list_index_options \<Rightarrow> string \<times> json \<Rightarrow> list_index_options option" where
  "list_index_options_member o' (m, v) =
     (if field_is ''index'' m then map_option (\<lambda>i. o'\<lparr>li_index := i\<rparr>) (into_uint64 v (li_index o'))
      else Some o')"

fun fold_members :: "('r \<Rightarrow> string \<times> json \<Rightarrow> 'r option) \<Rightarrow> 'r \<Rightarrow> (string \<times> json) list \<Rightarrow> 'r option" where
  "fold_members f r [] = Some r"
| "fold_members f r (m # ms) = (case f r m of None \<Rightarrow> None | Some r' \<Rightarrow> fold_members f r' ms)"

text \<open>Decoding into a struct: a null leaves it as it is.\<close>

fun unmarshal_struct :: "('r \<Rightarrow> string \<times> json \<Rightarrow> 'r option) \<Rightarrow> 'r \<Rightarrow> json \<Rightarrow> 'r option" where
  "unmarshal_struct f r JNull = Some r"
| "unmarshal_struct f r (JObj ms) = fold_members f r ms"
| "unmarshal_struct f r _ = None"

definition unmarshal_store_options :: "(nat \<Rightarrow> nat \<Rightarrow> nat \<Rightarrow> nat) \<Rightarrow> json \<Rightarrow> store_options option" where
  "unmarshal_store_options fm =
     unmarshal_struct (store_options_member fm) \<lparr>so_key = [], so_data = VNil, so_expire = 0\<rparr>"

definition unmarshal_dict_item_options :: "json \<Rightarrow> dict_item_options option" where
  "unmarshal_dict_item_options =
     unmarshal_struct dict_item_options_member \<lparr>di_key = [], di_item = VNil\<rparr>"

definition unmarshal_list_index_options :: "json \<Rightarrow> list_index_options option" where
  "unmarshal_list_index_options =
     unmarshal_struct list_index_options_member \<lparr>li_key = [], li_index = 0\<rparr>"

section \<open>Bodies of responses\<close>

datatype body =
    BError string
  | BKeys "string list"
  | BNodes "client_node list"
  | BResponse client_response

definition fix_node :: "client_node \<Rightarrow> client_node" where
  "fix_node n = \<lparr>cn_id = utf8_fix (cn_id n), cn_addr = utf8_fix (cn_addr n)\<rparr>"

fun encode_body :: "body \<Rightarrow> body option" where
  "encode_body (BError t) = Some (BError (utf8_fix t))"
| "encode_body (BKeys ks) = Some (BKeys (map utf8_fix ks))"
| "encode_body (BNodes ns) = Some (BNodes (map fix_node ns))"
| "encode_body (BResponse r) =
     map_option (\<lambda>d. BResponse (r\<lparr>cr_action := utf8_fix (cr_action r), cr_data := d,
                                 cr_node := fix_node (cr_node r)\<rparr>))
       (wire_value (cr_data r))"

text \<open>
  The decoders of the client. Unknown members are skipped, an object is no slice and a slice no
  struct; an empty list of nodes is encoded as null, which leaves any target as it is.
\<close>

fun decode_response :: "(nat \<Rightarrow> nat \<Rightarrow> nat \<Rightarrow> nat) \<Rightarrow> body \<Rightarrow> client_response option" where
  "decode_response fm (BResponse r) =
     map_option (\<lambda>e. r\<lparr>cr_meta := (cr_meta r)\<lparr>cm_expire := e\<rparr>\<rparr>)
       (unmarshal_duration fm (marshal_duration (cm_expire (cr_meta r))))"
| "decode_response fm (BError t) = Some client_response_zero"
| "decode_response fm (BKeys ks) = None"
| "decode_response fm (BNodes ns) = (if ns = [] then Some client_response_zero else None)"

fun decode_keys :: "body \<Rightarrow> string list option" where
  "decode_keys (BKeys ks) = Some ks"
| "decode_keys (BNodes ns) = (if ns = [] then Some [] else None)"
| "decode_keys _ = None"

fun decode_nodes :: "body \<Rightarrow> client_node list option" where
  "decode_nodes (BNodes ns) = Some ns"
| "decode_nodes (BKeys ks) = (if ks = [] then Some [] else None)"
| "decode_nodes _ = None"

fun decode_client_error :: "body \<Rightarrow> string option" where
  "decode_client_error (BError t) = Some t"
| "decode_client_error (BResponse r) = Some []"
| "decode_client_error (BKeys ks) = None"
| "decode_client_error (BNodes ns) = (if ns = [] then Some [] else None)"

section \<open>Options arrive\<close>

lemma field_is_options [simp]:
  "field_is ''data'' ''data''" "field_is ''item'' ''item''" "field_is ''index'' ''index''"
  "field_is ''expire_time'' ''expire_time''" "\<not> field_is ''data'' ''expire_time''"
  by (simp_all add: field_is_def ascii_lower_def)

text \<open>No byte of a printed duration needs an escape.\<close>

definition plain_char :: "char \<Rightarrow> bool" where
  "plain_char c \<longleftrightarrow> c \<noteq> quote \<and> c \<noteq> CHR 0x5C"

lemma digit_plain: "d < 10 \<Longrightarrow> plain_char (digit d)"
  using is_digit_digit [of d] by (auto simp: plain_char_def is_digit_def quote_def)

lemma nat_text_plain: "list_all plain_char (nat_text n)"
proof (induction n rule: nat_text.induct)
  case (1 n)
  then show ?case by (cases "n < 10") (simp_all add: nat_text.simps [of n] digit_plain)
qed

lemma pad_plain: "list_all plain_char (pad k n)"
  by (induction k arbitrary: n) (simp_all add: digit_plain)

lemma fmt_frac_plain: "list_all plain_char u \<Longrightarrow> list_all plain_char (fst (fmt_frac n p u))"
  using fmt_frac_loop_hidden [of p n u] pad_plain
  by (cases "n mod 10 ^ p = 0") (auto simp: fmt_frac_def plain_char_def quote_def)

lemma duration_text_plain: "list_all plain_char (duration_text d)"
proof -
  have units: "list_all plain_char ''s''" "list_all plain_char ''ms''" "list_all plain_char (micro_sign @ ''s'')"
    by (simp_all add: plain_char_def quote_def micro_sign_def char_of_eq_iff)
  have letters: "plain_char CHR ''h''" "plain_char CHR ''m''" "plain_char CHR ''n''" "plain_char CHR ''s''"
    "plain_char CHR ''0''" "plain_char CHR ''-''"
    by (simp_all add: plain_char_def quote_def)
  have "list_all plain_char (duration_nat_text n)" for n
    using units [THEN fmt_frac_plain] letters
    by (simp add: duration_nat_text_def split_beta Let_def nat_text_plain)
  with letters show ?thesis by (simp add: duration_text_def Let_def)
qed

lemma into_duration_literal:
  assumes "frac_exact fm" and "sint d \<noteq> - (2 ^ 63)"
  shows "into_duration fm (literal_json (marshal_duration d)) = Some d"
proof -
  have "literal_json (marshal_duration d) = JStr (duration_text d)"
    by (simp add: literal_json_def marshal_duration_def)
  moreover have "quote \<notin> set (duration_text d) \<and> CHR 0x5C \<notin> set (duration_text d)"
    using duration_text_plain [of d] by (auto simp: list_all_iff plain_char_def)
  ultimately show ?thesis
    using assms(2) trim_marshal [of d] parse_duration_text [OF assms(1), of d]
    by (simp add: unmarshal_duration_def marshal_duration_def)
qed

lemma unmarshal_marshal_duration:
  "frac_exact fm \<Longrightarrow> sint d \<noteq> - (2 ^ 63) \<Longrightarrow> unmarshal_duration fm (marshal_duration d) = Some d"
  by (simp add: unmarshal_duration_def trim_marshal parse_duration_text)

text \<open>What a client marshals for an operation, the handler unmarshals, but for the key.\<close>

lemma store_options_arrive:
  assumes "frac_exact fm" and "sint (so_expire o') \<noteq> - (2 ^ 63)" and "json_shaped (so_data o')"
  shows "\<exists>j. marshal_store_options o' = Some j \<and> unmarshal_store_options fm j = Some (o'\<lparr>so_key := []\<rparr>)"
  using wire_json_shaped [OF assms(3)] into_duration_literal [OF assms(1,2)]
  by (auto simp: marshal_store_options_def unmarshal_store_options_def simp del: into_duration.simps)

lemma dict_item_options_arrive:
  assumes "json_shaped (di_item o')"
  shows "\<exists>j. marshal_dict_item_options o' = Some j \<and> unmarshal_dict_item_options j = Some (o'\<lparr>di_key := []\<rparr>)"
  using wire_json_shaped [OF assms]
  by (auto simp: marshal_dict_item_options_def unmarshal_dict_item_options_def)

lemma list_index_options_arrive:
  "\<exists>j. marshal_list_index_options o' = Some j \<and> unmarshal_list_index_options j = Some (o'\<lparr>li_key := []\<rparr>)"
  by (simp add: marshal_list_index_options_def unmarshal_list_index_options_def del: into_uint64.simps)

end
