(* ===== verification/Httprest.thy ===== *)
theory Httprest
  imports Cluster Httputil Client_Data
begin

text \<open>
  Component \<open>httprest/server.go\<close>: the handlers of the HTTP server of a node, each as the code has it:
  the key from the query, the formatters, the options in the body, one call of \<open>Do\<close>, and the status
  and body of the answer. A panic in a handler ends its connection without an answer
  (\<open>net/http\<close> recovers it), and so does the end of the process.
\<close>

section \<open>The server and its environment\<close>

text \<open>
  What a run of a handler reads besides its arguments: the runtime of \<open>Do\<close>, \<open>fmt.Errorf\<close> on a format
  without operands, the product of doubles \<open>time.ParseDuration\<close> uses, and the identifier of
  \<open>uuid.New\<close>.
\<close>

record rest_env =
  env_rt :: runtime
  env_errorf :: "string \<Rightarrow> string"
  env_frac :: "nat \<Rightarrow> nat \<Rightarrow> nat \<Rightarrow> nat"
  env_uuid :: string

text \<open>A text without verbs is its own result.\<close>

definition errorf_plain :: "(string \<Rightarrow> string) \<Rightarrow> bool" where
  "errorf_plain errorf \<longleftrightarrow> (\<forall>t. CHR ''%'' \<notin> set t \<longrightarrow> errorf t = t)"

datatype served = Aborted | Served "body http_response"

definition response_err :: "(string \<Rightarrow> string) \<Rightarrow> response \<Rightarrow> string option" where
  "response_err errorf r = (if rerror r \<noteq> [] then Some (errorf (rerror r)) else None)"

definition meta_of :: "response \<Rightarrow> client_meta" where
  "meta_of resp =
     \<lparr>cm_index = index (rmeta (rrecord resp)), cm_expire = expire_time (rmeta (rrecord resp)),
      cm_accessed = accessed_at (rmeta (rrecord resp)), cm_created = created_at (rmeta (rrecord resp)),
      cm_updated = updated_at (rmeta (rrecord resp))\<rparr>"

definition node_of :: "server \<Rightarrow> response \<Rightarrow> client_node" where
  "node_of s resp = \<lparr>cn_id = server_id s, cn_addr = addr_string (node_addr (rnode resp))\<rparr>"

definition read_req :: "(json \<Rightarrow> 'v option) \<Rightarrow> http_request \<Rightarrow> body http_response + 'v" where
  "read_req dec r =
     (case format r of
        Inl st \<Rightarrow> Inl \<lparr>hstatus = st, hreply = NoReply\<rparr>
      | Inr (fr, fw) \<Rightarrow>
          (case read_body fr dec r of
             Inl err \<Rightarrow>
               Inl (write_body fw encode_body (Some (BError (''failed to read request body, '' @ err))) 400)
           | Inr v \<Rightarrow> Inr v))"

text \<open>
  The call of \<open>Do\<close> all handlers make, followed by one of two ways to answer: \<open>fail\<close> on an error,
  with its text, and \<open>ok\<close> otherwise.
\<close>

definition serve_do ::
    "nat \<Rightarrow> rest_env \<Rightarrow> world \<Rightarrow> tcp_addr \<Rightarrow> request \<Rightarrow> (string \<Rightarrow> response \<Rightarrow> body http_response) \<Rightarrow>
     (server \<Rightarrow> response \<Rightarrow> body http_response) \<Rightarrow> (world \<times> served) option" where
  "serve_do n env w a req fail ok =
     (case cluster_do n (env_rt env) w a req of
        None \<Rightarrow> None
      | Some (w', Inl p) \<Rightarrow> Some (w', Aborted)
      | Some (w', Inr resp) \<Rightarrow>
          (case servers w' a of
             None \<Rightarrow> Some (w', Aborted)
           | Some s \<Rightarrow>
               Some (w', Served (case response_err (env_errorf env) resp of
                                   Some t \<Rightarrow> fail t resp
                                 | None \<Rightarrow> ok s resp))))"

abbreviation header_only :: "int \<Rightarrow> body http_response" where
  "header_only st \<equiv> \<lparr>hstatus = st, hreply = NoReply\<rparr>"

definition record_body :: "string \<Rightarrow> goval \<Rightarrow> server \<Rightarrow> response \<Rightarrow> body" where
  "record_body action d s resp =
     BResponse \<lparr>cr_action = action, cr_meta = meta_of resp, cr_data = d, cr_node = node_of s resp\<rparr>"

section \<open>Handlers\<close>

definition keys_of_data :: "goval \<Rightarrow> string list option" where
  "keys_of_data d = (case d of VSlice TyString xs \<Rightarrow> Some (map raw_string xs) | _ \<Rightarrow> None)"

definition keys_handler ::
    "nat \<Rightarrow> rest_env \<Rightarrow> world \<Rightarrow> tcp_addr \<Rightarrow> http_request \<Rightarrow> (world \<times> served) option" where
  "keys_handler n env w a r =
     (case format r of
        Inl st \<Rightarrow> Some (w, Served (header_only st))
      | Inr (_, fw) \<Rightarrow>
          serve_do n env w a (RequestKeys (env_uuid env))
            (\<lambda>t resp. write_body fw encode_body (Some (BError (''unable to load keys, '' @ t))) (status resp))
            (\<lambda>s resp.
               case keys_of_data (rdata (rrecord resp)) of
                 None \<Rightarrow> write_body fw encode_body (Some (BError ''invalid type of keys'')) 500
               | Some ks \<Rightarrow> write_body fw encode_body (Some (BKeys ks)) 200))"

definition load_handler ::
    "nat \<Rightarrow> rest_env \<Rightarrow> world \<Rightarrow> tcp_addr \<Rightarrow> http_request \<Rightarrow> (world \<times> served) option" where
  "load_handler n env w a r =
     (let key = param r ''key''
      in case format r of
           Inl st \<Rightarrow> Some (w, Served (header_only st))
         | Inr (_, fw) \<Rightarrow>
             serve_do n env w a (RequestLoad (env_uuid env) key)
               (\<lambda>t resp. write_body fw encode_body
                  (Some (BError (''unable to load '' @ key @ '' key, '' @ t))) (status resp))
               (\<lambda>s resp. write_body fw encode_body
                  (Some (record_body ''load'' (rdata (rrecord resp)) s resp)) 200))"

definition store_handler ::
    "nat \<Rightarrow> rest_env \<Rightarrow> world \<Rightarrow> tcp_addr \<Rightarrow> http_request \<Rightarrow> (world \<times> served) option" where
  "store_handler n env w a r =
     (let key = param r ''key''
      in case format r of
           Inl st \<Rightarrow> Some (w, Served (header_only st))
         | Inr (_, fw) \<Rightarrow>
             (case read_req (unmarshal_store_options (env_frac env)) r of
                Inl resp \<Rightarrow> Some (w, Served resp)
              | Inr opts \<Rightarrow>
                  serve_do n env w a (RequestStore (env_uuid env) (so_expire opts) key (so_data opts))
                    (\<lambda>t resp. write_body fw encode_body
                       (Some (BError (''unable to store '' @ key @ '' key, '' @ t))) (status resp))
                    (\<lambda>s resp. write_body fw encode_body
                       (Some (record_body ''store'' (rdata (rrecord resp)) s resp)) 200)))"

definition delete_handler ::
    "nat \<Rightarrow> rest_env \<Rightarrow> world \<Rightarrow> tcp_addr \<Rightarrow> http_request \<Rightarrow> (world \<times> served) option" where
  "delete_handler n env w a r =
     (let key = param r ''key''
      in case format r of
           Inl st \<Rightarrow> Some (w, Served (header_only st))
         | Inr (_, fw) \<Rightarrow>
             serve_do n env w a (RequestDelete (env_uuid env) key)
               (\<lambda>t resp. write_body fw encode_body
                  (Some (BError (''unable to delete '' @ key @ '' key, '' @ t))) (status resp))
               (\<lambda>s resp. write_body fw encode_body (Some (record_body ''delete'' VNil s resp)) 200))"

definition index_handler ::
    "nat \<Rightarrow> rest_env \<Rightarrow> world \<Rightarrow> tcp_addr \<Rightarrow> http_request \<Rightarrow> (world \<times> served) option" where
  "index_handler n env w a r =
     (let key = param r ''key''
      in case format r of
           Inl st \<Rightarrow> Some (w, Served (header_only st))
         | Inr (_, fw) \<Rightarrow>
             (case read_req unmarshal_list_index_options r of
                Inl resp \<Rightarrow> Some (w, Served resp)
              | Inr opts \<Rightarrow>
                  serve_do n env w a (RequestListIndex (env_uuid env) key (li_index opts))
                    (\<lambda>t resp. write_body fw encode_body
                       (Some (BError (''unable to load value, '' @ t))) (status resp))
                    (\<lambda>s resp. write_body fw encode_body
                       (Some (record_body ''index'' (rdata (rrecord resp)) s resp)) 200)))"

definition item_handler ::
    "nat \<Rightarrow> rest_env \<Rightarrow> world \<Rightarrow> tcp_addr \<Rightarrow> http_request \<Rightarrow> (world \<times> served) option" where
  "item_handler n env w a r =
     (let key = param r ''key''
      in case format r of
           Inl st \<Rightarrow> Some (w, Served (header_only st))
         | Inr (_, fw) \<Rightarrow>
             (case read_req unmarshal_dict_item_options r of
                Inl resp \<Rightarrow> Some (w, Served resp)
              | Inr opts \<Rightarrow>
                  serve_do n env w a (RequestDictItem (env_uuid env) key (di_item opts))
                    (\<lambda>t resp. write_body fw encode_body
                       (Some (BError (''unable to load value, '' @ t))) (status resp))
                    (\<lambda>s resp. write_body fw encode_body
                       (Some (record_body ''item'' (rdata (rrecord resp)) s resp)) 200)))"

definition nodes_handler :: "world \<Rightarrow> tcp_addr \<Rightarrow> http_request \<Rightarrow> (world \<times> served) option" where
  "nodes_handler w a r =
     (case servers w a of
        None \<Rightarrow> None
      | Some s \<Rightarrow>
          (let ns = map (\<lambda>nd. \<lparr>cn_id = node_id nd, cn_addr = addr_string (node_addr nd)\<rparr>) (nodes s)
           in case format r of
                Inl st \<Rightarrow> Some (w, Served (header_only st))
              | Inr (_, fw) \<Rightarrow> Some (w, Served (write_body fw encode_body (Some (BNodes ns)) 200))))"

section \<open>Routes\<close>

datatype handler =
  KeysHandler | LoadHandler | IndexHandler | ItemHandler | StoreHandler | DeleteHandler | NodesHandler

definition api_mux :: "handler serve_mux" where
  "api_mux =
     fold (\<lambda>(method, pattern, h). mux_handle method pattern h)
       [(''GET'', ''/v1/keys'', KeysHandler),
        (''GET'', ''/v1/keys/{key}'', LoadHandler),
        (''GET'', ''/v1/keys/{key}/index'', IndexHandler),
        (''GET'', ''/v1/keys/{key}/item'', ItemHandler),
        (''PUT'', ''/v1/keys/{key}'', StoreHandler),
        (''DELETE'', ''/v1/keys/{key}'', DeleteHandler),
        (''GET'', ''/v1/nodes'', NodesHandler)]
       new_serve_mux"

fun run_handler ::
    "nat \<Rightarrow> rest_env \<Rightarrow> world \<Rightarrow> tcp_addr \<Rightarrow> handler \<Rightarrow> http_request \<Rightarrow> (world \<times> served) option" where
  "run_handler n env w a KeysHandler r = keys_handler n env w a r"
| "run_handler n env w a LoadHandler r = load_handler n env w a r"
| "run_handler n env w a IndexHandler r = index_handler n env w a r"
| "run_handler n env w a ItemHandler r = item_handler n env w a r"
| "run_handler n env w a StoreHandler r = store_handler n env w a r"
| "run_handler n env w a DeleteHandler r = delete_handler n env w a r"
| "run_handler n env w a NodesHandler r = nodes_handler w a r"

definition serve_http ::
    "nat \<Rightarrow> rest_env \<Rightarrow> world \<Rightarrow> tcp_addr \<Rightarrow> http_request \<Rightarrow> (world \<times> served) option" where
  "serve_http n env w a r =
     (case serve_mux api_mux r of
        NotAllowed \<Rightarrow> Some (w, Served not_allowed)
      | NotFound \<Rightarrow> Some (w, Served not_found)
      | Dispatch h r' \<Rightarrow> run_handler n env w a h r')"

section \<open>What the multiplexer does\<close>

abbreviation key_segments :: "segment list" where
  "key_segments \<equiv> [Text '''', Text ''v1'', Text ''keys'', Group]"

lemma api_entries:
  "api_mux ''GET'' = Some
     [\<lparr>entry_handler = KeysHandler, entry_pattern = [Text '''', Text ''v1'', Text ''keys''], entry_params = []\<rparr>,
      \<lparr>entry_handler = LoadHandler, entry_pattern = key_segments, entry_params = [''key'']\<rparr>,
      \<lparr>entry_handler = IndexHandler, entry_pattern = key_segments @ [Text ''index''], entry_params = [''key'']\<rparr>,
      \<lparr>entry_handler = ItemHandler, entry_pattern = key_segments @ [Text ''item''], entry_params = [''key'']\<rparr>,
      \<lparr>entry_handler = NodesHandler, entry_pattern = [Text '''', Text ''v1'', Text ''nodes''], entry_params = []\<rparr>]"
  "api_mux ''PUT'' = Some
     [\<lparr>entry_handler = StoreHandler, entry_pattern = key_segments, entry_params = [''key'']\<rparr>]"
  "api_mux ''DELETE'' = Some
     [\<lparr>entry_handler = DeleteHandler, entry_pattern = key_segments, entry_params = [''key'']\<rparr>]"
  "m \<notin> {''GET'', ''PUT'', ''DELETE''} \<Longrightarrow> api_mux m = None"
  by (simp_all add: api_mux_def mux_handle_def compile_pattern_def new_serve_mux_def)

text \<open>The routes written as one decision on the method and the segments of the path.\<close>

definition api_route :: "http_request \<Rightarrow> handler dispatch" where
  "api_route r =
     (let segs = path_split (hpath r);
          keyed = (\<lambda>h. if segs ! 3 = [] then NotFound
                       else Dispatch h (r\<lparr>hquery := ''key='' @ segs ! 3 @ ''&'' @ hquery r\<rparr>));
          root = (3 \<le> length segs \<and> take 2 segs = ['''', ''v1'']);
          keys = (root \<and> segs ! 2 = ''keys'')
      in if hmethod r = ''GET'' then
           (if keys \<and> length segs = 3 then Dispatch KeysHandler r
            else if keys \<and> length segs = 4 then keyed LoadHandler
            else if keys \<and> length segs = 5 \<and> segs ! 4 = ''index'' then keyed IndexHandler
            else if keys \<and> length segs = 5 \<and> segs ! 4 = ''item'' then keyed ItemHandler
            else if root \<and> segs ! 2 = ''nodes'' \<and> length segs = 3 then Dispatch NodesHandler r
            else NotFound)
         else if hmethod r = ''PUT'' then
           (if keys \<and> length segs = 4 then keyed StoreHandler else NotFound)
         else if hmethod r = ''DELETE'' then
           (if keys \<and> length segs = 4 then keyed DeleteHandler else NotFound)
         else NotAllowed)"

lemma set_params_key: "set_params [''key''] [k] q = ''key='' @ k @ ''&'' @ q"
  by (simp add: set_params_def)

lemma set_params_none: "set_params [] [] q = q"
  by (simp add: set_params_def)

lemma match_path_Cons:
  "match_path (Text t # ps) xs =
     (case xs of [] \<Rightarrow> None | x # xs \<Rightarrow> if x = t then match_path ps xs else None)"
  "match_path (Group # ps) xs =
     (case xs of [] \<Rightarrow> None | x # xs \<Rightarrow> if x \<noteq> [] then map_option (Cons x) (match_path ps xs) else None)"
  "match_path [] xs = (if xs = [] then Some [] else None)"
  by (cases xs; simp)+

lemma serve_mux_route: "serve_mux api_mux r = api_route r"
proof -
  obtain segs where segs: "path_split (hpath r) = segs" by simp
  have cases: "segs = [] \<or> (\<exists>a. segs = [a]) \<or> (\<exists>a b. segs = [a, b]) \<or> (\<exists>a b c. segs = [a, b, c]) \<or>
      (\<exists>a b c d. segs = [a, b, c, d]) \<or> (\<exists>a b c d e. segs = [a, b, c, d, e]) \<or>
      (\<exists>a b c d e f xs. segs = a # b # c # d # e # f # xs)"
    by (metis neq_Nil_conv)
  consider "hmethod r = ''GET''" | "hmethod r = ''PUT''" | "hmethod r = ''DELETE''"
    | "hmethod r \<notin> {''GET'', ''PUT'', ''DELETE''}" by auto
  then show ?thesis
  proof cases
    case 1
    from cases show ?thesis
      by (elim disjE exE) (simp_all add: serve_mux_def 1 api_entries api_route_def segs match_path_Cons
          set_params_key set_params_none Let_def)
  next
    case 2
    from cases show ?thesis
      by (elim disjE exE) (simp_all add: serve_mux_def 2 api_entries api_route_def segs match_path_Cons
          set_params_key Let_def)
  next
    case 3
    from cases show ?thesis
      by (elim disjE exE) (simp_all add: serve_mux_def 3 api_entries api_route_def segs match_path_Cons
          set_params_key Let_def)
  next
    case 4
    then show ?thesis by (simp add: serve_mux_def api_entries(4) api_route_def Let_def)
  qed
qed

text \<open>A handler reads nothing of the path: two requests with the same key are one.\<close>

lemma read_req_cong:
  assumes "hcontent_type r = hcontent_type r'" and "haccept r = haccept r'" and "hbody r = hbody r'"
  shows "read_req dec r = read_req dec r'"
proof -
  have body: "read_body f dec r = read_body f dec r'" for f using assms(3) by (cases f) simp
  have format: "format r = format r'" using assms by (simp add: format_result)
  show ?thesis unfolding read_req_def format body ..
qed

lemma run_handler_cong:
  assumes "hcontent_type r = hcontent_type r'" and "haccept r = haccept r'" and "hbody r = hbody r'"
    and key: "param r ''key'' = param r' ''key''"
  shows "run_handler n env w a h r = run_handler n env w a h r'"
proof -
  have format: "format r = format r'" using assms by (simp add: format_result)
  note read = read_req_cong [OF assms(1-3)]
  show ?thesis
    by (cases h; hypsubst; unfold run_handler.simps keys_handler_def load_handler_def store_handler_def delete_handler_def
        index_handler_def item_handler_def nodes_handler_def format read key; rule refl)
qed

end
