(* ===== verification/Client.thy ===== *)
theory Client
  imports Httprest
begin

text \<open>
  Component \<open>client/client.go\<close>: the HTTP client. The network says at which host names an HTTP server
  of some node listens; any other host refuses the connection or, being the peer-to-peer port of a
  node, hangs up on the first bytes. An error is its text; the texts of errors of connections and
  codecs stand for those of the library.
\<close>

section \<open>One exchange\<close>

record client =
  c_host :: string
  c_tls :: bool

definition new_client :: "string \<Rightarrow> client" where
  "new_client host = \<lparr>c_host = host, c_tls = False\<rparr>"

definition scheme :: "client \<Rightarrow> string" where
  "scheme c = (if c_tls c then ''https'' else ''http'')"

record url =
  url_scheme :: string
  url_host :: string
  url_path :: string

definition url_of :: "client \<Rightarrow> string \<Rightarrow> url" where
  "url_of c path = \<lparr>url_scheme = scheme c, url_host = c_host c, url_path = path\<rparr>"

type_synonym http_net = "string \<Rightarrow> tcp_addr option"

abbreviation dial_error :: string where "dial_error \<equiv> ''dial tcp: connection refused''"
abbreviation syntax_error :: string where
  "syntax_error \<equiv> ''invalid character looking for beginning of value''"

definition status_text :: "int \<Rightarrow> string" where
  "status_text st =
     (case map_of [(200, ''OK''), (400, ''Bad Request''), (404, ''Not Found''), (405, ''Method Not Allowed''),
                   (406, ''Not Acceptable''), (409, ''Conflict''), (415, ''Unsupported Media Type''),
                   (500, ''Internal Server Error'')] st of
        None \<Rightarrow> [] | Some t \<Rightarrow> t)"

text \<open>
  \<open>http.Client.Do\<close> with the request that \<open>http.NewRequest\<close> makes of a URL: the path travels escaped,
  and neither a query nor one of the headers of interest is set. An empty body is the end of file
  for the decoder.
\<close>

definition exchange ::
    "nat \<Rightarrow> rest_env \<Rightarrow> http_net \<Rightarrow> world \<Rightarrow> string \<Rightarrow> url \<Rightarrow> json option \<Rightarrow>
     (world \<times> (string + body http_response)) option" where
  "exchange n env net w method u b =
     (case net (url_host u) of
        None \<Rightarrow> Some (w, Inl dial_error)
      | Some a \<Rightarrow>
          if servers w a = None then Some (w, Inl dial_error)
          else
            (case unescape False (escape_path (url_path u)) of
               None \<Rightarrow> Some (w, Inr \<lparr>hstatus = 400, hreply = TextReply ''400 Bad Request''\<rparr>)
             | Some path \<Rightarrow>
                 (case serve_http n env w a
                         \<lparr>hmethod = method, hpath = path, hquery = [], hcontent_type = [], haccept = [],
                          hbody = (case b of None \<Rightarrow> Inl eof_error | Some j \<Rightarrow> Inr j)\<rparr> of
                    None \<Rightarrow> None
                  | Some (w', Aborted) \<Rightarrow> Some (w', Inl eof_error)
                  | Some (w', Served resp) \<Rightarrow> Some (w', Inr resp))))"

text \<open>The argument \<open>in\<close>: nil, or a value whose encoding may fail.\<close>

datatype payload = NoPayload | Payload "json option"

text \<open>What \<open>do\<close> makes of a response.\<close>

definition read_response :: "(body \<Rightarrow> 'v option) \<Rightarrow> body http_response \<Rightarrow> string + 'v" where
  "read_response dec resp =
     (if hstatus resp \<noteq> 200 then
        Inl (case hreply resp of
               NoReply \<Rightarrow> status_text (hstatus resp)
             | TextReply t \<Rightarrow> syntax_error
             | JsonReply b \<Rightarrow> (case decode_client_error b of None \<Rightarrow> unmarshal_error | Some t \<Rightarrow> t))
      else
        (case hreply resp of
           NoReply \<Rightarrow> Inl eof_error
         | TextReply t \<Rightarrow> Inl syntax_error
         | JsonReply b \<Rightarrow> (case dec b of None \<Rightarrow> Inl unmarshal_error | Some v \<Rightarrow> Inr v)))"

definition client_do ::
    "nat \<Rightarrow> rest_env \<Rightarrow> http_net \<Rightarrow> world \<Rightarrow> string \<Rightarrow> url \<Rightarrow> payload \<Rightarrow> (body \<Rightarrow> 'v option) \<Rightarrow>
     (world \<times> (string + 'v)) option" where
  "client_do n env net w method u inp dec =
     (let send = (\<lambda>b. case exchange n env net w method u b of
             None \<Rightarrow> None
           | Some (w', Inl err) \<Rightarrow> Some (w', Inl err)
           | Some (w', Inr resp) \<Rightarrow> Some (w', read_response dec resp))
      in case inp of
           NoPayload \<Rightarrow> send None
         | Payload None \<Rightarrow> Some (w, Inl encode_error)
         | Payload (Some j) \<Rightarrow> send (Some j))"

section \<open>Operations on a key\<close>

definition key_path :: "string \<Rightarrow> string" where
  "key_path k = ''/v1/keys/'' @ k"

definition client_load ::
    "nat \<Rightarrow> rest_env \<Rightarrow> http_net \<Rightarrow> world \<Rightarrow> client \<Rightarrow> load_options \<Rightarrow>
     (world \<times> (string + client_response)) option" where
  "client_load n env net w c opts =
     client_do n env net w ''GET'' (url_of c (key_path (lo_key opts))) NoPayload (decode_response (env_frac env))"

definition client_store ::
    "nat \<Rightarrow> rest_env \<Rightarrow> http_net \<Rightarrow> world \<Rightarrow> client \<Rightarrow> store_options \<Rightarrow>
     (world \<times> (string + client_response)) option" where
  "client_store n env net w c opts =
     client_do n env net w ''PUT'' (url_of c (key_path (so_key opts)))
       (Payload (marshal_store_options opts)) (decode_response (env_frac env))"

definition client_delete ::
    "nat \<Rightarrow> rest_env \<Rightarrow> http_net \<Rightarrow> world \<Rightarrow> client \<Rightarrow> delete_options \<Rightarrow>
     (world \<times> (string + client_response)) option" where
  "client_delete n env net w c opts =
     client_do n env net w ''DELETE'' (url_of c (key_path (do_key opts))) NoPayload (decode_response (env_frac env))"

definition client_dict_item ::
    "nat \<Rightarrow> rest_env \<Rightarrow> http_net \<Rightarrow> world \<Rightarrow> client \<Rightarrow> dict_item_options \<Rightarrow>
     (world \<times> (string + client_response)) option" where
  "client_dict_item n env net w c opts =
     client_do n env net w ''GET'' (url_of c (key_path (di_key opts) @ ''/item''))
       (Payload (marshal_dict_item_options opts)) (decode_response (env_frac env))"

definition client_list_index ::
    "nat \<Rightarrow> rest_env \<Rightarrow> http_net \<Rightarrow> world \<Rightarrow> client \<Rightarrow> list_index_options \<Rightarrow>
     (world \<times> (string + client_response)) option" where
  "client_list_index n env net w c opts =
     client_do n env net w ''GET'' (url_of c (key_path (li_key opts) @ ''/index''))
       (Payload (marshal_list_index_options opts)) (decode_response (env_frac env))"

section \<open>Keys\<close>

definition client_nodes ::
    "nat \<Rightarrow> rest_env \<Rightarrow> http_net \<Rightarrow> world \<Rightarrow> client \<Rightarrow> (world \<times> (string + client_node list)) option" where
  "client_nodes n env net w c =
     client_do n env net w ''GET'' (url_of c ''/v1/nodes'') NoPayload decode_nodes"

text \<open>
  The goroutines of \<open>Keys\<close> share one loop variable: goroutine \<open>i\<close> reads the address of the node the
  variable holds by then, number \<open>seen i\<close>. They run in the order of the list \<open>is\<close>; each writes its
  error and then its keys to a channel.
\<close>

fun retrieve_all ::
    "nat \<Rightarrow> (nat \<Rightarrow> rest_env) \<Rightarrow> http_net \<Rightarrow> client \<Rightarrow> client_node list \<Rightarrow> (nat \<Rightarrow> nat) \<Rightarrow> nat list \<Rightarrow>
     world \<Rightarrow> (world \<times> (nat \<times> (string + string list)) list) option" where
  "retrieve_all n envs net c ns seen [] w = Some (w, [])"
| "retrieve_all n envs net c ns seen (i # is) w =
     (case client_do n (envs i) net w ''GET''
             \<lparr>url_scheme = scheme c, url_host = cn_addr (ns ! seen i), url_path = ''/v1/keys''\<rparr>
             NoPayload decode_keys of
        None \<Rightarrow> None
      | Some (w', r) \<Rightarrow> map_option (apsnd (Cons (i, r))) (retrieve_all n envs net c ns seen is w'))"

definition errors_of :: "(nat \<times> (string + 'v)) list \<Rightarrow> string list" where
  "errors_of rs = List.map_filter (\<lambda>(i, r). case r of Inl err \<Rightarrow> Some err | Inr _ \<Rightarrow> None) rs"

definition join_err :: "(string \<Rightarrow> string) \<Rightarrow> string list \<Rightarrow> string option" where
  "join_err errorf errs = (if errs = [] then None else Some (errorf (join_text '', '' errs)))"

definition keys_of :: "(nat \<times> (string + string list)) list \<Rightarrow> nat \<Rightarrow> string list" where
  "keys_of rs i = (case map_of rs i of Some (Inr ks) \<Rightarrow> ks | _ \<Rightarrow> [])"

text \<open>\<open>is\<close> is the order on the channel of errors, \<open>order\<close> that on the channel of keys.\<close>

definition client_keys ::
    "nat \<Rightarrow> rest_env \<Rightarrow> (nat \<Rightarrow> rest_env) \<Rightarrow> http_net \<Rightarrow> (nat \<Rightarrow> nat) \<Rightarrow> nat list \<Rightarrow> nat list \<Rightarrow> world \<Rightarrow> client \<Rightarrow>
     (world \<times> (string + string list)) option" where
  "client_keys n env envs net seen is order w c =
     (case client_nodes n env net w c of
        None \<Rightarrow> None
      | Some (w', Inl err) \<Rightarrow> Some (w', Inl err)
      | Some (w', Inr ns) \<Rightarrow>
          (case retrieve_all n envs net c ns seen is w' of
             None \<Rightarrow> None
           | Some (w'', rs) \<Rightarrow>
               Some (w'', case join_err (env_errorf env) (errors_of rs) of
                            Some err \<Rightarrow> Inl err
                          | None \<Rightarrow> Inr (concat (map (keys_of rs) order)))))"

text \<open>The loop variable only moves forward, up to the last node; every goroutine runs once.\<close>

definition keys_schedule :: "nat \<Rightarrow> (nat \<Rightarrow> nat) \<Rightarrow> nat list \<Rightarrow> nat list \<Rightarrow> bool" where
  "keys_schedule m seen is order \<longleftrightarrow>
     mset is = mset [0..<m] \<and> mset order = mset [0..<m] \<and> (\<forall>i < m. i \<le> seen i \<and> seen i < m)"

end
