(* ===== verification/Table.thy ===== *)
theory Table
  imports Requests Store Wire
begin

text \<open>
  The abstract table that a store promises its clients: a partial map from keys to records on
  which each request has one outcome. A node refines it (here) and so does the whole cluster
  (theory \<open>Cluster_Table\<close>). Only the listing of keys is left open in its order and multiplicity.
\<close>

section \<open>The table\<close>

type_synonym table = "string \<Rightarrow> hrecord option"

definition table_load :: "runtime \<Rightarrow> table \<Rightarrow> string \<Rightarrow> table \<times> hrecord option" where
  "table_load rt m k =
     (case m k of
        None \<Rightarrow> (m, None)
      | Some r \<Rightarrow>
          if is_expired (now_at rt 1) r then (m(k := None), None)
          else (m, Some (touch (now_at rt 0) r)))"

definition table_read ::
    "runtime \<Rightarrow> table \<Rightarrow> string \<Rightarrow> (hrecord \<Rightarrow> outcome) \<Rightarrow> table \<times> outcome" where
  "table_read rt m k sel =
     (let (m', r) = table_load rt m k
      in (m', case r of None \<Rightarrow> Inr (Inl (missing_error k)) | Some rec \<Rightarrow> sel rec))"

text \<open>\<open>here\<close> says which keys the node that lists them is in charge of.\<close>

fun table_step ::
    "(string \<Rightarrow> bool) \<Rightarrow> runtime \<Rightarrow> request \<Rightarrow> table \<Rightarrow> table \<times> outcome \<Rightarrow> bool" where
  "table_step here rt (RequestKeys i) m res =
     (fst res = m \<and>
      (\<exists>ks. snd res = Inr (Inr (record_zero\<lparr>rdata := VSlice TyString (map VString ks)\<rparr>)) \<and>
            set ks = {k \<in> dom m. here k}))"
| "table_step here rt (RequestStore i expire k data) m res =
     (let r = stored_request rt (m k) expire data in res = (m(k \<mapsto> r), Inr (Inr r)))"
| "table_step here rt (RequestLoad i k) m res =
     (res = table_read rt m k (\<lambda>r. Inr (Inr r)))"
| "table_step here rt (RequestDelete i k) m res = (res = (m(k := None), Inr (Inr record_zero)))"
| "table_step here rt (RequestListIndex i k ix) m res =
     (res = table_read rt m k (select_index k ix))"
| "table_step here rt (RequestDictItem i k item) m res =
     (res = table_read rt m k (select_item rt k item))"

section \<open>A store serves the table\<close>

lemma store_load_table:
  "table_load rt (store_abs s) k = (store_abs (fst (store_load rt s k)), snd (store_load rt s k))"
  by (auto simp: table_load_def store_load_result store_abs_load split: option.splits)

lemma store_read_table:
  "table_read rt (store_abs s) k sel =
     (store_abs (fst (store_load rt s k)),
      case snd (store_load rt s k) of None \<Rightarrow> Inr (Inl (missing_error k)) | Some r \<Rightarrow> sel r)"
  by (simp add: table_read_def store_load_table)

lemma store_process_step:
  assumes "rt_ok rt" and "store_inv s"
  shows "table_step (\<lambda>_. True) rt req (store_abs s)
     (store_abs (fst (process store_ops rt req s)), snd (process store_ops rt req s))"
proof (cases req)
  case (RequestKeys i)
  then show ?thesis
    using st.process_keys [OF assms, of i] by (simp add: st.keys_abs split_beta)
next
  case (RequestStore i expire key data)
  then show ?thesis by (simp add: st.process_store del: process.simps)
next
  case (RequestDelete i key)
  then show ?thesis by (simp add: st.process_delete del: process.simps)
qed (auto simp: store_read_table store_ops_def split: prod.splits option.splits)

section \<open>Data that can be listed, selected and sent\<close>

definition good_data :: "goval \<Rightarrow> bool" where
  "good_data v \<longleftrightarrow> json_shaped v \<and> v \<noteq> VNil \<and> (case v of VSlice t xs \<Rightarrow> length xs < 2 ^ 63 | _ \<Rightarrow> True)"

definition good_table :: "table \<Rightarrow> bool" where
  "good_table m \<longleftrightarrow> (\<forall>k r. m k = Some r \<longrightarrow> good_data (rdata r))"

fun good_request :: "request \<Rightarrow> bool" where
  "good_request (RequestStore i e k d) = (clean_request (RequestStore i e k d) \<and> k \<noteq> [] \<and> good_data d)"
| "good_request (RequestKeys i) = True"
| "good_request r = (clean_request r \<and> req_hash r \<noteq> [])"

text \<open>Outcomes that leave their node unharmed and can be sent: no panic, JSON-shaped data.\<close>

definition sendable :: "outcome \<Rightarrow> bool" where
  "sendable out \<longleftrightarrow>
     (case out of Inl p \<Rightarrow> False | Inr (Inl err) \<Rightarrow> True | Inr (Inr rec) \<Rightarrow> json_shaped (rdata rec))"

lemma sendable_simps [simp]:
  "\<not> sendable (Inl p)" "sendable (Inr (Inl err))" "sendable (Inr (Inr rec)) = json_shaped (rdata rec)"
  by (simp_all add: sendable_def)

lemma entry_lookup_shaped:
  "list_all (\<lambda>(k, v). json_string k \<and> json_shaped v) kvs \<Longrightarrow> entry_lookup kvs k = Some v \<Longrightarrow> json_shaped v"
  by (induction kvs) (auto split: if_splits)

lemma select_index_sendable: "good_data (rdata rec) \<Longrightarrow> sendable (select_index key ix rec)"
  by (cases "rdata rec") (auto simp: good_data_def select_index_slice select_index_other list_all_length)

lemma select_item_sendable:
  assumes "good_data (rdata rec)"
  shows "sendable (select_item rt key item rec)"
proof (cases "rdata rec")
  case (VMap kt t kvs)
  with assms have kvs: "list_all (\<lambda>(k, v). json_string k \<and> json_shaped v) kvs" and kt: "kt = TyString"
    by (simp_all add: good_data_def)
  show ?thesis
  proof (cases "\<exists>s. item = VString s")
    case True
    then show ?thesis
      using VMap kt by (auto simp: select_item_json split: option.split dest: entry_lookup_shaped [OF kvs])
  next
    case False
    then show ?thesis using VMap kt by (simp add: select_item_not_string)
  qed
qed (use assms in \<open>auto simp: good_data_def select_item_def\<close>)

lemma good_table_load: "good_table m \<Longrightarrow> good_table (fst (table_load rt m k))"
  by (auto simp: good_table_def table_load_def split: option.splits if_splits)

lemma table_load_good:
  "good_table m \<Longrightarrow> snd (table_load rt m k) = Some r \<Longrightarrow> good_data (rdata r)"
  by (auto simp: good_table_def table_load_def split: option.splits if_splits)

lemma table_read_good:
  assumes "good_table m" and "\<And>r. good_data (rdata r) \<Longrightarrow> sendable (sel r)"
  shows "good_table (fst (table_read rt m k sel)) \<and> sendable (snd (table_read rt m k sel))"
  using good_table_load [OF assms(1), of rt k] table_load_good [OF assms(1), of rt k] assms(2)
  by (auto simp: table_read_def split_beta split: option.split)

text \<open>A good request on good data neither panics nor spoils the table.\<close>

lemma table_step_good:
  assumes "table_step here rt req m res" and "good_table m" and "good_request req"
  shows "good_table (fst res) \<and> ((\<exists>i. req = RequestKeys i) \<or> sendable (snd res))"
proof (cases req)
  case (RequestLoad i key)
  then show ?thesis
    using assms table_read_good [OF assms(2), where sel = "\<lambda>r. Inr (Inr r)" and rt = rt and k = key]
    by (auto simp: good_data_def)
next
  case (RequestListIndex i key ix)
  then show ?thesis
    using assms table_read_good [OF assms(2), where sel = "select_index key ix" and rt = rt and k = key,
        OF select_index_sendable] by auto
next
  case (RequestDictItem i key item)
  then show ?thesis
    using assms table_read_good [OF assms(2), where sel = "select_item rt key item" and rt = rt and k = key,
        OF select_item_sendable] by auto
qed (use assms in \<open>auto simp: Let_def good_table_def good_data_def record_zero_def split: if_splits\<close>)

lemma table_step_frame:
  "table_step here rt req m res \<Longrightarrow> k \<noteq> req_hash req \<Longrightarrow> fst res k = m k"
  by (cases req) (auto simp: Let_def table_read_def table_load_def split: option.splits if_splits)

section \<open>Properties\<close>

text \<open>Requests served by one store, one after the other.\<close>

fun serve_all :: "store \<Rightarrow> (runtime \<times> request) list \<Rightarrow> store \<times> outcome list" where
  "serve_all s [] = (s, [])"
| "serve_all s ((rt, req) # xs) =
     (let (s', out) = process store_ops rt req s; (s'', outs) = serve_all s' xs in (s'', out # outs))"

fun table_serves :: "table \<Rightarrow> (runtime \<times> request) list \<Rightarrow> outcome list \<Rightarrow> table \<Rightarrow> bool" where
  "table_serves m [] [] m' = (m' = m)"
| "table_serves m ((rt, req) # xs) (out # outs) m' =
     (\<exists>m1. table_step (\<lambda>_. True) rt req m (m1, out) \<and> table_serves m1 xs outs m')"
| "table_serves m _ _ m' = False"

lemma serve_all_refines:
  "store_inv s \<Longrightarrow> list_all (rt_ok \<circ> fst) xs \<Longrightarrow>
     table_serves (store_abs s) xs (snd (serve_all s xs)) (store_abs (fst (serve_all s xs)))"
proof (induction xs arbitrary: s)
  case (Cons x xs)
  obtain rt req where x: "x = (rt, req)" by (cases x)
  with Cons.prems have rt: "rt_ok rt" "list_all (rt_ok \<circ> fst) xs" by (simp_all add: comp_def)
  from Cons.IH [OF st.process_inv [OF rt(1) Cons.prems(1)] rt(2), of req]
    store_process_step [OF rt(1) Cons.prems(1), of req]
  show ?case by (auto simp: x split_beta simp del: process.simps table_step.simps)
qed simp


definition sample_requests :: "(runtime \<times> request) list" where
  "sample_requests =
     [(rt_at 10, RequestStore ''1'' 0 ''k'' (VSlice TyInterface [VBool True])),
      (rt_at 20, RequestListIndex ''2'' ''k'' 0), (rt_at 30, RequestDelete ''3'' ''k''),
      (rt_at 40, RequestLoad ''4'' ''k''), (rt_at 50, RequestKeys ''5'')]"


text \<open>A list that was stored is read back element by element, and every position outside it is
  refused, the ones beyond the range of a signed integer included.\<close>

theorem list_index_roundtrip:
  assumes "sint e \<le> 0" and "length xs < 2 ^ 63"
  shows "map_sum id (map_sum id rdata)
     (snd (process store_ops rt' (RequestListIndex j k ix)
        (fst (process store_ops rt (RequestStore i e k (VSlice t xs)) s)))) =
     (if unat ix < length xs then Inr (Inr (xs ! unat ix))
      else Inr (Inl (ErrConflict (''position '' @ nat_text (unat ix) @ '' is out of range''))))"
proof -
  let ?s = "fst (process store_ops rt (RequestStore i e k (VSlice t xs)) s)"
  let ?r = "stored_request rt (store_abs s k) e (VSlice t xs)"
  have "snd (op_load store_ops rt' ?s k) = Some (touch (now_at rt' 0) ?r)"
    by (rule st.load_permanent)
       (simp_all add: st.process_store assms(1) is_permanent_def record_zero_def meta_zero_def
         del: process.simps)
  from st.process_found(2) [OF this, of j ix] show ?thesis
    using select_index_slice [of "touch (now_at rt' 0) ?r" t xs k ix] assms(2)
    by (simp add: record_zero_def del: process.simps)
qed

theorem list_index_roundtrip_witness:
  "map_sum id (map_sum id rdata)
     (snd (process store_ops (rt_at 2) (RequestListIndex ''2'' ''k'' 18446744073709551615)
        (fst (process store_ops (rt_at 1) (RequestStore ''1'' 0 ''k'' (VSlice TyInterface [VNil])) fresh_store)))) =
     Inr (Inl (ErrConflict (''position '' @ nat_text 18446744073709551615 @ '' is out of range'')))"
  by (subst list_index_roundtrip) simp_all

text \<open>An item of a dictionary that was stored is read back; a missing item is an internal error
  and an item that is no string a conflict.\<close>

theorem dict_item_roundtrip:
  assumes "sint e \<le> 0"
  shows "map_sum id (map_sum id rdata)
     (snd (process store_ops rt' (RequestDictItem j k item)
        (fst (process store_ops rt (RequestStore i e k (VMap TyString t kvs)) s)))) =
     Inr (case item of
            VString x \<Rightarrow>
              (case entry_lookup kvs (VString x) of
                 Some v \<Rightarrow> Inr v
               | None \<Rightarrow> Inl (ErrInternal (''unexpected value at key '' @ x)))
          | _ \<Rightarrow> Inl (ErrConflict (''item '' @ fmt_v (float_text rt') item @ '' is invalid'')))"
proof -
  let ?s = "fst (process store_ops rt (RequestStore i e k (VMap TyString t kvs)) s)"
  let ?r = "stored_request rt (store_abs s k) e (VMap TyString t kvs)"
  have "snd (op_load store_ops rt' ?s k) = Some (touch (now_at rt' 0) ?r)"
    by (rule st.load_permanent)
       (simp_all add: st.process_store assms(1) is_permanent_def record_zero_def meta_zero_def
         del: process.simps)
  note found = st.process_found(3) [OF this, of j item]
  have data: "rdata (touch (now_at rt' 0) ?r) = VMap TyString t kvs" by (simp add: record_zero_def)
  show ?thesis
    unfolding found
    using select_item_json [OF data, of rt' k] select_item_not_string [OF data, of item rt' k]
    by (cases item) (auto split: option.split)
qed

theorem dict_item_roundtrip_witness:
  "map_sum id (map_sum id rdata)
     (snd (process store_ops (rt_at 2) (RequestDictItem ''2'' ''k'' (VString ''x''))
        (fst (process store_ops (rt_at 1)
           (RequestStore ''1'' 0 ''k'' (VMap TyString TyInterface [(VString ''x'', VBool True)])) fresh_store)))) =
     Inr (Inr (VBool True))"
  by (subst dict_item_roundtrip) simp_all

text \<open>C27. A request panics in one case only: an index or item of a key whose data is null.\<close>

theorem process_panics_iff:
  assumes "\<And>r t xs. store_abs s (req_hash req) = Some r \<Longrightarrow> rdata r = VSlice t xs \<Longrightarrow> length xs < 2 ^ 63"
  shows "(\<exists>p. snd (process store_ops rt req s) = Inl p) \<longleftrightarrow>
     ((\<exists>i k ix. req = RequestListIndex i k ix) \<or> (\<exists>i k item. req = RequestDictItem i k item)) \<and>
     (\<exists>r. snd (store_load rt s (req_hash req)) = Some r \<and> rdata r = VNil)"
proof -
  have len: "length xs < 2 ^ 63"
    if "snd (store_load rt s (req_hash req)) = Some r" "rdata r = VSlice t xs" for r t xs
    using that assms by (auto simp: store_load_result split: option.splits if_splits)
  have ops: "op_load store_ops = store_load" by (simp add: store_ops_def)
  show ?thesis
  proof (cases req)
    case (RequestListIndex i k ix)
    show ?thesis
    proof (cases "snd (store_load rt s k)")
      case None
      then show ?thesis using st.process_missing(2) [of rt s k i ix] by (simp add: RequestListIndex ops)
    next
      case (Some r)
      have "length xs < 2 ^ 63" if "rdata r = VSlice t xs" for t xs
        using len [OF _ that] Some by (simp add: RequestListIndex)
      then show ?thesis
        using st.process_found(2) [of rt s k r i ix] Some select_index_panics [of r k ix]
        by (simp add: RequestListIndex ops del: process.simps)
    qed
  next
    case (RequestDictItem i k item)
    show ?thesis
      using st.process_found(3) [of rt s k _ i item] st.process_missing(3) [of rt s k i item]
        select_item_panics
      by (cases "snd (store_load rt s k)") (simp_all add: RequestDictItem ops del: process.simps)
  qed (auto split: prod.splits option.splits)
qed

theorem process_panics_iff_witness:
  "\<exists>p. snd (process store_ops (rt_at 2) (RequestListIndex ''2'' ''k'' 0)
          (fst (process store_ops (rt_at 1) (RequestStore ''1'' 0 ''k'' VNil) fresh_store))) = Inl p"
proof (subst process_panics_iff)
  let ?s = "fst (process store_ops (rt_at 1) (RequestStore ''1'' 0 ''k'' VNil) fresh_store)"
  have abs: "store_abs ?s = [''k'' \<mapsto> stored_request (rt_at 1) None 0 VNil]"
    by (simp add: st.process_store abs_fresh del: process.simps)
  then show "length xs < 2 ^ 63"
    if "store_abs ?s (req_hash (RequestListIndex ''2'' ''k'' 0)) = Some r" "rdata r = VSlice t xs" for r t xs
    using that by (auto simp: record_zero_def)
  show "((\<exists>i k ix. RequestListIndex ''2'' ''k'' 0 = RequestListIndex i k ix) \<or>
      (\<exists>i k item. RequestListIndex ''2'' ''k'' 0 = RequestDictItem i k item)) \<and>
     (\<exists>r. snd (store_load (rt_at 2) ?s (req_hash (RequestListIndex ''2'' ''k'' 0))) = Some r \<and> rdata r = VNil)"
    using abs by (simp add: store_load_result is_expired_def is_permanent_def record_zero_def meta_zero_def
        del: process.simps)
qed

end
