(* ===== verification/Cluster_Table.thy ===== *)
theory Cluster_Table
  imports Cluster Table
begin

text \<open>
  The cluster as one table: whatever node a request enters at, its outcome is that of the
  abstract table of theory \<open>Table\<close>, in which each key lives at the member in charge of it.
\<close>

section \<open>The table a cluster holds\<close>

definition cluster_abs :: "nat \<Rightarrow> tcp_addr list \<Rightarrow> world \<Rightarrow> table" where
  "cluster_abs parts members w k =
     (case servers w (owner parts members k) of None \<Rightarrow> None | Some s \<Rightarrow> store_abs (sstore s) k)"

text \<open>Every key lies where requests for it are sent.\<close>

definition placed :: "nat \<Rightarrow> tcp_addr list \<Rightarrow> world \<Rightarrow> bool" where
  "placed parts members w \<longleftrightarrow>
     (\<forall>a \<in> set members. \<forall>s k r. servers w a = Some s \<longrightarrow> store_abs (sstore s) k = Some r \<longrightarrow>
        owner parts members k = a)"

definition cluster_inv :: "nat \<Rightarrow> tcp_addr list \<Rightarrow> world \<Rightarrow> bool" where
  "cluster_inv parts members w \<longleftrightarrow>
     mesh parts members w \<and> placed parts members w \<and> good_table (cluster_abs parts members w)"

text \<open>The same of a cluster that has lost members or connections.\<close>

definition degraded_inv :: "nat \<Rightarrow> tcp_addr list \<Rightarrow> world \<Rightarrow> bool" where
  "degraded_inv parts members w \<longleftrightarrow>
     partial_mesh parts members w \<and> placed parts members w \<and> good_table (cluster_abs parts members w)"

lemma cluster_degraded:
  "cluster_inv parts members w \<longleftrightarrow>
     degraded_inv parts members w \<and> closed w = [] \<and> set members \<subseteq> dom (servers w)"
  by (auto simp: cluster_inv_def degraded_inv_def mesh_partial)

lemma degradedD:
  assumes "degraded_inv parts members w"
  shows "partial_mesh parts members w" "placed parts members w" "good_table (cluster_abs parts members w)"
    "members \<noteq> []"
  using assms by (simp_all add: degraded_inv_def partial_mesh_def)

text \<open>A request is processed at the node it enters at, or sent to a member that can be reached.\<close>

definition reaches :: "nat \<Rightarrow> tcp_addr list \<Rightarrow> world \<Rightarrow> tcp_addr \<Rightarrow> request \<Rightarrow> bool" where
  "reaches parts members w a req \<longleftrightarrow>
     req_hash req = [] \<or> owner parts members (req_hash req) = a \<or>
     linked w a (owner parts members (req_hash req))"

text \<open>What the caller sees of an outcome.\<close>

definition answers :: "outcome \<Rightarrow> response \<Rightarrow> bool" where
  "answers out resp \<longleftrightarrow>
     (case out of
        Inl p \<Rightarrow> False
      | Inr (Inl err) \<Rightarrow>
          status resp = status_of (StoreError err) \<and> utf8_fix (rerror resp) = utf8_fix (error_text err) \<and>
          rrecord resp = record_zero
      | Inr (Inr rec) \<Rightarrow> status resp = status_ok \<and> rerror resp = [] \<and> rrecord resp = rec)"

lemma respond_answers:
  assumes "\<exists>r. out = Inr r"
  shows "\<exists>resp. respond nd out = Inr resp \<and> answers out resp"
  using assms by (auto simp: respond_def answers_def response_zero_def split: sum.split)

text \<open>A sendable answer of a node without a connection to itself arrives as it was sent.\<close>

lemma respond_delivered:
  assumes "sendable out" and "node_conn nd = None"
  shows "\<exists>resp resp'. respond nd out = Inr resp \<and> wire_response resp = Delivered resp' \<and> answers out resp'"
  using assms
  by (auto simp: respond_def answers_def response_zero_def wire_response_def sendable_def node_zero_def
      record_zero_def wire_value_shaped utf8_fix_idem split: sum.splits)

lemma answer_delivered:
  assumes "sendable out" and "node_conn nd = None"
  shows "\<exists>resp. answer a c (w, respond nd out) = (w, Inr resp) \<and> answers out resp"
  using respond_delivered [OF assms] by auto

section \<open>One request\<close>

lemma good_clean: "good_request req \<Longrightarrow> clean_request req \<or> (\<exists>i. req = RequestKeys i)"
  by (cases req) simp_all

lemma good_hash: "good_request req \<Longrightarrow> (\<exists>i. req = RequestKeys i) \<or> req_hash req \<noteq> []"
  by (cases req) simp_all

text \<open>A request on a key, entering anywhere, is processed by the store of the owner, once.\<close>

lemma degraded_serves:
  assumes m: "partial_mesh parts members w" and a: "a \<in> set members" "servers w a = Some s0"
    and reach: "reaches parts members w a req"
    and good: "good_request req" and key: "req_hash req \<noteq> []"
    and s: "servers w (owner parts members (req_hash req)) = Some s"
    and send: "sendable (snd (process store_ops rt req (sstore s)))"
  shows "\<exists>resp. cluster_do (Suc (Suc n)) rt w a req =
       Some (put_server (owner parts members (req_hash req))
               (s\<lparr>sstore := fst (process store_ops rt req (sstore s))\<rparr>) w, Inr resp) \<and>
     answers (snd (process store_ops rt req (sstore s))) resp"
proof -
  let ?b = "owner parts members (req_hash req)" and ?out = "snd (process store_ops rt req (sstore s))"
  let ?w = "put_server ?b (s\<lparr>sstore := fst (process store_ops rt req (sstore s))\<rparr>) w"
  have ne: "members \<noteq> []" using m by (simp add: partial_mesh_def)
  have loc: "\<exists>nd. node_conn nd = None \<and> cluster_do (Suc n) rt w ?b req = Some (?w, respond nd ?out)" for n
    using partial_local [OF m owner_member [OF ne] _ s, where n = n and rt = rt and req = req] by auto
  have noPanic: "\<exists>r. ?out = Inr r" using send by (cases ?out) auto
  show ?thesis
  proof (cases "?b = a")
    case True
    with loc [of "Suc n"] obtain nd where "cluster_do (Suc (Suc n)) rt w a req = Some (?w, respond nd ?out)"
      by auto
    with respond_answers [OF noPanic, of nd] show ?thesis by auto
  next
    case False
    obtain nd where nd: "node_conn nd = None" "cluster_do (Suc n) rt w ?b req = Some (?w, respond nd ?out)"
      using loc by blast
    have "wire_request req = Some req"
      using good_clean [OF good] key by (auto intro: wire_clean_request)
    moreover have "linked w a ?b" using reach key False by (simp add: reaches_def)
    ultimately have "cluster_do (Suc (Suc n)) rt w a req =
        forwarded_result a ?b (Some (?w, respond nd ?out))"
      using partial_forward [OF m a False key, of "Suc n" rt] nd(2) by simp
    with answer_delivered [OF send nd(1), of a ?b ?w] show ?thesis by auto
  qed
qed

lemma abs_put_server:
  assumes p: "placed parts members w" and b: "b \<in> set members" and s: "servers w b = Some s"
    and frame: "\<And>k. owner parts members k \<noteq> b \<Longrightarrow> store_abs st k = store_abs (sstore s) k"
  shows "cluster_abs parts members (put_server b (s\<lparr>sstore := st\<rparr>) w) =
       (\<lambda>k. if owner parts members k = b then store_abs st k else cluster_abs parts members w k)"
    and "placed parts members (put_server b (s\<lparr>sstore := st\<rparr>) w)"
proof -
  show "cluster_abs parts members (put_server b (s\<lparr>sstore := st\<rparr>) w) =
       (\<lambda>k. if owner parts members k = b then store_abs st k else cluster_abs parts members w k)"
    by (auto simp: cluster_abs_def)
  have "owner parts members k = b" if "store_abs st k = Some r" for k r
    using that frame [of k] p s b unfolding placed_def by fastforce
  with p show "placed parts members (put_server b (s\<lparr>sstore := st\<rparr>) w)"
    unfolding placed_def by simp blast
qed

text \<open>The step of the node's own table is the step of the cluster's table.\<close>

definition patch :: "(string \<Rightarrow> bool) \<Rightarrow> table \<Rightarrow> table \<Rightarrow> table" where
  "patch P m g = (\<lambda>k. if P k then m k else g k)"

lemma patch_upd:
  assumes "\<forall>k. P k \<longrightarrow> m k = g k"
  shows "patch P m g = g" and "P k \<Longrightarrow> patch P (m(k := v)) g = g(k := v)"
  using assms by (auto simp: patch_def fun_eq_iff)

lemma table_read_global:
  assumes eq: "\<forall>k. P k \<longrightarrow> m k = g k" and k: "P k"
  shows "table_read rt g k sel = (patch P (fst (table_read rt m k sel)) g, snd (table_read rt m k sel))"
proof -
  from eq k have "m k = g k" by blast
  then show ?thesis
    using patch_upd [OF eq] k
    by (simp add: table_read_def table_load_def split: option.split)
qed

lemma table_step_global:
  assumes step: "table_step (\<lambda>_. True) rt req m (m', out)" and "req_hash req \<noteq> []"
    and eq: "\<forall>k. P k \<longrightarrow> m k = g k" and P: "P (req_hash req)"
  shows "table_step here rt req g (patch P m' g, out)"
proof -
  have read: "table_read rt g (req_hash req) sel = (patch P m' g, out)"
    if "(m', out) = table_read rt m (req_hash req) sel" for sel
    using table_read_global [OF eq P, of rt sel] by (simp flip: that)
  have at: "m (req_hash req) = g (req_hash req)" using eq P by blast
  show ?thesis
  proof (cases req)
    case (RequestStore i expire k data)
    with step at patch_upd(2) [OF eq P] show ?thesis by (simp add: Let_def)
  next
    case (RequestDelete i k)
    with step patch_upd(2) [OF eq P] show ?thesis by simp
  qed (use assms read in auto)
qed

text \<open>The store of the member in charge of a key takes the step of the cluster's table.\<close>

lemma degraded_process:
  fixes st
  assumes inv: "degraded_inv parts members w" and s: "servers w (owner parts members (req_hash req)) = Some s"
    and rt: "rt_ok rt" and good: "good_request req" and key: "req_hash req \<noteq> []"
  defines "st \<equiv> fst (process store_ops rt req (sstore s))" and "out \<equiv> snd (process store_ops rt req (sstore s))"
  defines "w' \<equiv> put_server (owner parts members (req_hash req)) (s\<lparr>sstore := st\<rparr>) w"
  shows "table_step here rt req (cluster_abs parts members w) (cluster_abs parts members w', out)"
    and "degraded_inv parts members w'" and "sendable out"
    and "dom (servers w') = dom (servers w)" and "closed w' = closed w"
proof -
  note m = degradedD(1) [OF inv] and p = degradedD(2) [OF inv] and g = degradedD(3) [OF inv]
  let ?b = "owner parts members (req_hash req)"
  have b: "?b \<in> set members" using degradedD(4) [OF inv] by (simp add: owner_member)
  have si: "store_inv (sstore s)" using partial_server(2) [OF m b s] by (simp add: mesh_node_def)
  have here: "store_abs (sstore s) k = cluster_abs parts members w k" if "owner parts members k = ?b" for k
    using that s(1) by (simp add: cluster_abs_def)
  have frame: "store_abs st k = store_abs (sstore s) k" if "owner parts members k \<noteq> ?b" for k
    unfolding st_def using that by (intro st.process_frame) auto
  note upd = abs_put_server [OF p b s(1)]
  have abs: "cluster_abs parts members w' =
      patch (\<lambda>k. owner parts members k = ?b) (store_abs st) (cluster_abs parts members w)"
    unfolding patch_def w'_def by (rule upd(1)) (rule frame)
  have placed: "placed parts members w'" unfolding w'_def by (rule upd(2)) (rule frame)
  show step: "table_step here rt req (cluster_abs parts members w) (cluster_abs parts members w', out)"
    unfolding abs st_def out_def
    by (rule table_step_global [OF store_process_step [OF rt si] key]) (simp_all add: here)
  have good': "good_table (cluster_abs parts members w')" "sendable out"
    using table_step_good [OF step g good] key by auto
  then show "sendable out" by simp
  have "partial_mesh parts members w'"
    unfolding w'_def st_def by (rule partial_update [OF m b s(1) st.process_inv [OF rt si]])
  with placed good'(1) show "degraded_inv parts members w'" by (simp add: degraded_inv_def)
  show "dom (servers w') = dom (servers w)" "closed w' = closed w" using s by (auto simp: w'_def)
qed

lemma degraded_step_key:
  assumes inv: "degraded_inv parts members w" and a: "a \<in> set members" "servers w a = Some s0"
    and reach: "reaches parts members w a req" and rt: "rt_ok rt" and good: "good_request req" and key: "req_hash req \<noteq> []"
  shows "\<exists>w' out resp. cluster_do (Suc (Suc n)) rt w a req = Some (w', Inr resp) \<and>
     table_step here rt req (cluster_abs parts members w) (cluster_abs parts members w', out) \<and>
     answers out resp \<and> degraded_inv parts members w' \<and>
     dom (servers w') = dom (servers w) \<and> closed w' = closed w"
proof -
  obtain s where s: "servers w (owner parts members (req_hash req)) = Some s"
    using reach key a(2) by (auto simp: reaches_def linked_def)
  note new = degraded_process [OF inv s rt good key]
  with degraded_serves [OF degradedD(1) [OF inv] a reach good key s new(3), of n] show ?thesis by blast
qed

lemma degraded_step_keys:
  assumes inv: "degraded_inv parts members w" and a: "a \<in> set members" "servers w a = Some s" and rt: "rt_ok rt"
  shows "\<exists>w' out resp. cluster_do (Suc n) rt w a (RequestKeys i) = Some (w', Inr resp) \<and>
     table_step (\<lambda>k. owner parts members k = a) rt (RequestKeys i)
       (cluster_abs parts members w) (cluster_abs parts members w', out) \<and>
     answers out resp \<and> degraded_inv parts members w' \<and>
     dom (servers w') = dom (servers w) \<and> closed w' = closed w"
proof -
  let ?req = "RequestKeys i"
  note m = degradedD(1) [OF inv] and p = degradedD(2) [OF inv] and g = degradedD(3) [OF inv]
  have s: "servers w a = Some s" "mesh_node parts members s"
    using a partial_server(2) [OF m] by blast+
  have si: "store_inv (sstore s)" using s(2) by (simp add: mesh_node_def)
  let ?st = "fst (process store_ops rt ?req (sstore s))" and ?out = "snd (process store_ops rt ?req (sstore s))"
  let ?w = "put_server a (s\<lparr>sstore := ?st\<rparr>) w"
  have same: "store_abs ?st = store_abs (sstore s)" by (simp add: split_beta st.keys_abs)
  note upd = abs_put_server [OF p a(1) s(1), of ?st, unfolded same, OF refl]
  have abs: "cluster_abs parts members ?w = cluster_abs parts members w"
    using upd(1) s(1) by (auto simp: cluster_abs_def same)
  have "k \<in> dom (store_abs (sstore s)) \<longleftrightarrow>
      k \<in> dom (cluster_abs parts members w) \<and> owner parts members k = a" for k
  proof (cases "owner parts members k = a")
    case True
    with s(1) show ?thesis by (simp add: cluster_abs_def domIff)
  next
    case False
    have "store_abs (sstore s) k \<noteq> Some r" for r
      using p a(1) s(1) False unfolding placed_def by blast
    with False show ?thesis by (simp add: domIff)
  qed
  then have keys: "dom (store_abs (sstore s)) = {k \<in> dom (cluster_abs parts members w). owner parts members k = a}"
    by blast
  have step: "table_step (\<lambda>k. owner parts members k = a) rt ?req
      (cluster_abs parts members w) (cluster_abs parts members ?w, ?out)"
    using st.process_keys [OF rt si, of i] by (simp add: abs keys del: process.simps)
  have "partial_mesh parts members ?w" by (rule partial_update [OF m a(1) s(1) st.process_inv [OF rt si]])
  with upd(2) g have "degraded_inv parts members ?w" by (simp add: degraded_inv_def abs del: process.simps)
  moreover obtain nd where "cluster_do (Suc n) rt w a ?req = Some (?w, respond nd ?out)"
    using partial_local [OF m a(1) _ s(1), where req = ?req and n = n and rt = rt] by (auto simp del: process.simps)
  moreover have "dom (servers ?w) = dom (servers w)" "closed ?w = closed w" using s(1) by auto
  moreover have "\<exists>r. ?out = Inr r" by (simp add: split_beta)
  ultimately show ?thesis using step respond_answers [of ?out nd] by (auto simp del: process.simps table_step.simps world_sel)
qed

text \<open>A request that can be processed is, wherever it enters.\<close>

lemma degraded_step:
  assumes inv: "degraded_inv parts members w" and a: "a \<in> set members" "servers w a \<noteq> None"
    and "reaches parts members w a req" and "rt_ok rt" and "good_request req"
  shows "\<exists>w' out resp. cluster_do 2 rt w a req = Some (w', Inr resp) \<and>
     table_step (\<lambda>k. owner parts members k = a) rt req
       (cluster_abs parts members w) (cluster_abs parts members w', out) \<and>
     answers out resp \<and> degraded_inv parts members w' \<and>
     dom (servers w') = dom (servers w) \<and> closed w' = closed w"
proof -
  obtain s where s: "servers w a = Some s" using a(2) by blast
  show ?thesis
  proof (cases "\<exists>i. req = RequestKeys i")
    case True
    then show ?thesis using degraded_step_keys [OF inv a(1) s assms(5), of 1] by (auto simp: numeral_2_eq_2)
  next
    case False
    with good_hash [OF assms(6)] have "req_hash req \<noteq> []" by simp
    from degraded_step_key [OF inv a(1) s assms(4-6) this, of 0] show ?thesis by (simp only: numeral_2_eq_2)
  qed
qed

section \<open>Sequences of requests\<close>

text \<open>
  Requests one after the other, each entering at a node of its own; two calls of \<open>Do\<close> are
  enough for each. \<open>None\<close> if some request is never answered or its node panics.
\<close>

fun cluster_run ::
    "world \<Rightarrow> (runtime \<times> tcp_addr \<times> request) list \<Rightarrow> (world \<times> response list) option" where
  "cluster_run w [] = Some (w, [])"
| "cluster_run w ((rt, a, req) # xs) =
     (case cluster_do 2 rt w a req of
        Some (w', Inr resp) \<Rightarrow> map_option (apsnd (Cons resp)) (cluster_run w' xs)
      | _ \<Rightarrow> None)"

fun table_run ::
    "(tcp_addr \<Rightarrow> string \<Rightarrow> bool) \<Rightarrow> table \<Rightarrow> (runtime \<times> tcp_addr \<times> request) list \<Rightarrow>
     response list \<Rightarrow> table \<Rightarrow> bool" where
  "table_run here m [] [] m' = (m' = m)"
| "table_run here m ((rt, a, req) # xs) (resp # resps) m' =
     (\<exists>m1 out. table_step (here a) rt req m (m1, out) \<and> answers out resp \<and>
        table_run here m1 xs resps m')"
| "table_run here m _ _ m' = False"

definition requests_ok :: "tcp_addr list \<Rightarrow> (runtime \<times> tcp_addr \<times> request) list \<Rightarrow> bool" where
  "requests_ok members xs \<longleftrightarrow>
     list_all (\<lambda>(rt, a, req). rt_ok rt \<and> a \<in> set members \<and> good_request req) xs"

lemma cluster_step:
  assumes "cluster_inv parts members w" and "a \<in> set members" and "rt_ok rt" and "good_request req"
  shows "\<exists>w' out resp. cluster_do 2 rt w a req = Some (w', Inr resp) \<and>
     table_step (\<lambda>k. owner parts members k = a) rt req
       (cluster_abs parts members w) (cluster_abs parts members w', out) \<and>
     answers out resp \<and> cluster_inv parts members w'"
proof -
  note d = assms(1) [unfolded cluster_degraded]
  have "owner parts members (req_hash req) \<in> set members" using d by (intro owner_member) (auto dest: degradedD(4))
  then have "reaches parts members w a req" using d by (auto simp: reaches_def linked_def)
  moreover have "servers w a \<noteq> None" using d assms(2) by blast
  ultimately show ?thesis
    using degraded_step [of parts members w a req rt] d assms(2-4) unfolding cluster_degraded by metis
qed

lemma cluster_run_table:
  assumes "cluster_inv parts members w" and "requests_ok members xs"
  shows "\<exists>w' resps. cluster_run w xs = Some (w', resps) \<and> cluster_inv parts members w' \<and>
     table_run (\<lambda>a k. owner parts members k = a)
       (cluster_abs parts members w) xs resps (cluster_abs parts members w')"
  using assms
proof (induction xs arbitrary: w)
  case (Cons x xs)
  obtain rt a req where x: "x = (rt, a, req)" by (cases x) auto
  from Cons.prems(2) x have ok: "rt_ok rt" "a \<in> set members" "good_request req" "requests_ok members xs"
    by (simp_all add: requests_ok_def)
  from cluster_step [OF Cons.prems(1) ok(2,1,3)] obtain w1 out resp where
    one: "cluster_do 2 rt w a req = Some (w1, Inr resp)" "answers out resp" "cluster_inv parts members w1"
      "table_step (\<lambda>k. owner parts members k = a) rt req
        (cluster_abs parts members w) (cluster_abs parts members w1, out)" by blast
  from Cons.IH [OF one(3) ok(4)] one show ?case by (fastforce simp: x)
qed simp

end
