(* ===== verification/Rest_Table.thy ===== *)
theory Rest_Table
  imports Httprest Cluster_Table
begin

text \<open>
  The HTTP interface of a cluster as the abstract table: a request that reaches a handler and
  decodes to a request on data is answered with the outcome of the table.
\<close>

section \<open>Errors have texts\<close>

lemma error_text_ne:
  assumes "table_step here rt req m (m', Inr (Inl err))"
  shows "error_text err \<noteq> []"
proof -
  have read: "error_text err \<noteq> []"
    if "(m', Inr (Inl err)) = table_read rt m k sel" "\<And>r e. sel r = Inr (Inl e) \<Longrightarrow> error_text e \<noteq> []" for k sel
    using that by (auto simp: table_read_def split_beta split: option.splits)
  have "error_text e \<noteq> []" if "select_index k ix r = Inr (Inl e)" for k ix r e
    using that by (auto simp: select_index_def split: sum.splits goval.splits if_splits option.splits)
  moreover have "error_text e \<noteq> []" if "select_item rt k i r = Inr (Inl e)" for k i r e
    using that by (auto simp: select_item_def split: sum.splits goval.splits if_splits option.splits)
  ultimately show ?thesis
    using assms read read [where sel = "\<lambda>r. Inr (Inr r)"] by (cases req) (auto simp: Let_def)
qed

section \<open>One call of Do\<close>

lemma serve_do_result:
  assumes inv: "cluster_inv parts members w" and a: "a \<in> set members" and rt: "rt_ok (env_rt env)"
    and good: "good_request req"
  shows "\<exists>w' out resp s.
     serve_do 2 env w a req fail ok = Some (w', Served
       (case out of Inr (Inl err) \<Rightarrow> fail (env_errorf env (rerror resp)) resp | _ \<Rightarrow> ok s resp)) \<and>
     table_step (\<lambda>k. owner parts members k = a) (env_rt env) req
       (cluster_abs parts members w) (cluster_abs parts members w', out) \<and>
     answers out resp \<and> cluster_inv parts members w' \<and> servers w' a = Some s \<and>
     ((\<exists>i. req = RequestKeys i) \<or> sendable out)"
proof -
  obtain w' out resp where step: "cluster_do 2 (env_rt env) w a req = Some (w', Inr resp)"
    "table_step (\<lambda>k. owner parts members k = a) (env_rt env) req
       (cluster_abs parts members w) (cluster_abs parts members w', out)"
    "answers out resp" "cluster_inv parts members w'"
    using cluster_step [OF inv a rt good] by blast
  obtain s where s: "servers w' a = Some s"
    using mesh_server [of parts members w' a] step(4) a by (auto simp: cluster_inv_def)
  have "(\<exists>i. req = RequestKeys i) \<or> sendable out"
    using table_step_good [OF step(2) _ good] inv by (simp add: cluster_inv_def)
  moreover have "response_err (env_errorf env) resp =
      (case out of Inr (Inl err) \<Rightarrow> Some (env_errorf env (rerror resp)) | _ \<Rightarrow> None)"
  proof (cases out)
    case (Inr r)
    show ?thesis
    proof (cases r)
      case (Inl err)
      with step(2) Inr have "error_text err \<noteq> []" by (auto dest: error_text_ne)
      moreover have "utf8_fix (rerror resp) = utf8_fix (error_text err)"
        using step(3) Inr Inl by (simp add: answers_def)
      ultimately have "rerror resp \<noteq> []" by (metis utf8_fix_Nil_iff)
      with Inr Inl show ?thesis by (simp add: response_err_def)
    qed (use step(3) Inr in \<open>simp add: answers_def response_err_def\<close>)
  qed (use step(3) in \<open>simp add: answers_def\<close>)
  then have "serve_do 2 env w a req fail ok = Some (w', Served
       (case out of Inr (Inl err) \<Rightarrow> fail (env_errorf env (rerror resp)) resp | _ \<Rightarrow> ok s resp))"
    using step(1) s by (simp add: serve_do_def split: sum.split)
  ultimately show ?thesis using step(2,3,4) s by blast
qed

section \<open>Requests and answers\<close>

text \<open>The request on data a handler makes of an HTTP request.\<close>

fun rest_request :: "rest_env \<Rightarrow> handler \<Rightarrow> http_request \<Rightarrow> request option" where
  "rest_request env KeysHandler r = Some (RequestKeys (env_uuid env))"
| "rest_request env LoadHandler r = Some (RequestLoad (env_uuid env) (param r ''key''))"
| "rest_request env DeleteHandler r = Some (RequestDelete (env_uuid env) (param r ''key''))"
| "rest_request env StoreHandler r =
     (case read_body JSONFormatter (unmarshal_store_options (env_frac env)) r of
        Inl err \<Rightarrow> None
      | Inr p \<Rightarrow> Some (RequestStore (env_uuid env) (so_expire p) (param r ''key'') (so_data p)))"
| "rest_request env IndexHandler r =
     (case read_body JSONFormatter unmarshal_list_index_options r of
        Inl err \<Rightarrow> None
      | Inr p \<Rightarrow> Some (RequestListIndex (env_uuid env) (param r ''key'') (li_index p)))"
| "rest_request env ItemHandler r =
     (case read_body JSONFormatter unmarshal_dict_item_options r of
        Inl err \<Rightarrow> None
      | Inr p \<Rightarrow> Some (RequestDictItem (env_uuid env) (param r ''key'') (di_item p)))"
| "rest_request env NodesHandler r = None"

fun handler_action :: "handler \<Rightarrow> string" where
  "handler_action LoadHandler = ''load''"
| "handler_action StoreHandler = ''store''"
| "handler_action DeleteHandler = ''delete''"
| "handler_action IndexHandler = ''index''"
| "handler_action ItemHandler = ''item''"
| "handler_action _ = []"

definition record_meta :: "hrecord \<Rightarrow> client_meta" where
  "record_meta rec =
     \<lparr>cm_index = index (rmeta rec), cm_expire = expire_time (rmeta rec), cm_accessed = accessed_at (rmeta rec),
      cm_created = created_at (rmeta rec), cm_updated = updated_at (rmeta rec)\<rparr>"

lemma meta_of_record: "meta_of resp = record_meta (rrecord resp)"
  by (simp add: meta_of_def record_meta_def)

text \<open>The status and body that stand for an outcome.\<close>

definition http_answers :: "handler \<Rightarrow> outcome \<Rightarrow> body http_response \<Rightarrow> bool" where
  "http_answers h out resp \<longleftrightarrow>
     (case out of
        Inl p \<Rightarrow> False
      | Inr (Inl err) \<Rightarrow> hstatus resp = status_of (StoreError err) \<and> (\<exists>t. hreply resp = JsonReply (BError t))
      | Inr (Inr rec) \<Rightarrow>
          hstatus resp = 200 \<and>
          (if h = KeysHandler then
             (\<exists>ks. rdata rec = VSlice TyString (map VString ks) \<and> hreply resp = JsonReply (BKeys (map utf8_fix ks)))
           else
             (\<exists>nd. hreply resp = JsonReply (BResponse
                \<lparr>cr_action = handler_action h, cr_meta = record_meta rec,
                 cr_data = (if h = DeleteHandler then VNil else rdata rec), cr_node = nd\<rparr>))))"

lemma action_fix: "utf8_fix (handler_action h) = handler_action h"
  by (cases h) (simp_all add: utf8_fix_valid utf8_valid_ascii)

lemma encode_record_body:
  assumes "json_shaped d"
  shows "\<exists>nd. encode_body (record_body (handler_action h) d s resp) =
     Some (BResponse \<lparr>cr_action = handler_action h, cr_meta = meta_of resp, cr_data = d, cr_node = nd\<rparr>)"
  using wire_value_shaped [OF assms] by (simp add: record_body_def action_fix)

text \<open>All handlers but the one of the keys answer alike.\<close>

lemma record_answers:
  assumes "answers out resp" and "sendable out" and "h \<noteq> KeysHandler"
    and "\<And>t. hstatus (fail t) = status resp \<and> (\<exists>t'. hreply (fail t) = JsonReply (BError t'))"
    and "ok = write_body JSONFormatter encode_body
       (Some (record_body (handler_action h) (if h = DeleteHandler then VNil else rdata (rrecord resp)) s resp)) 200"
  shows "http_answers h out (case out of Inr (Inl err) \<Rightarrow> fail t | _ \<Rightarrow> ok)"
proof (cases out)
  case (Inr r)
  show ?thesis
  proof (cases r)
    case (Inl err)
    with Inr assms(1,4) show ?thesis by (simp add: answers_def http_answers_def)
  next
    case rec: (Inr rec)
    let ?d = "if h = DeleteHandler then VNil else rdata (rrecord resp)"
    have resp: "rrecord resp = rec" "json_shaped (rdata rec)"
      using assms(1,2) Inr rec by (simp_all add: answers_def)
    then have "json_shaped ?d" by simp
    from encode_record_body [OF this, of h s resp] obtain nd where
      "encode_body (record_body (handler_action h) ?d s resp) = Some (BResponse
         \<lparr>cr_action = handler_action h, cr_meta = meta_of resp, cr_data = ?d, cr_node = nd\<rparr>)" by blast
    with Inr rec assms(3,5) resp show ?thesis by (simp add: http_answers_def meta_of_record)
  qed
qed (use assms(1) in \<open>simp add: answers_def\<close>)

section \<open>The interface serves the table\<close>

lemma keys_answers:
  assumes "answers out resp" and "\<exists>ks. out = Inr (Inr (record_zero\<lparr>rdata := VSlice TyString (map VString ks)\<rparr>))"
  shows "http_answers KeysHandler out
     (case out of Inr (Inl err) \<Rightarrow> fail
      | _ \<Rightarrow> (case keys_of_data (rdata (rrecord resp)) of
                None \<Rightarrow> fail'
              | Some ks \<Rightarrow> write_body JSONFormatter encode_body (Some (BKeys ks)) 200))"
  using assms by (auto simp: answers_def http_answers_def keys_of_data_def comp_def)

definition record_ok :: "handler \<Rightarrow> server \<Rightarrow> response \<Rightarrow> body http_response" where
  "record_ok h s resp = write_body JSONFormatter encode_body (Some (record_body (handler_action h)
     (if h = DeleteHandler then VNil else rdata (rrecord resp)) s resp)) 200"

definition error_reply :: "string \<Rightarrow> string \<Rightarrow> response \<Rightarrow> body http_response" where
  "error_reply prefix t resp =
     write_body JSONFormatter encode_body (Some (BError (prefix @ t))) (status resp)"

lemma error_reply_status:
  "hstatus (error_reply prefix t resp) = status resp \<and>
     (\<exists>t'. hreply (error_reply prefix t resp) = JsonReply (BError t'))"
  by (simp add: error_reply_def)

definition keys_ok :: "server \<Rightarrow> response \<Rightarrow> body http_response" where
  "keys_ok s resp =
     (case keys_of_data (rdata (rrecord resp)) of
        None \<Rightarrow> write_body JSONFormatter encode_body (Some (BError ''invalid type of keys'')) 500
      | Some ks \<Rightarrow> write_body JSONFormatter encode_body (Some (BKeys ks)) 200)"

text \<open>Once the formats are settled and the options decoded, a handler is its call of \<open>Do\<close>.\<close>

lemma keys_handler_run:
  assumes "format r = Inr (JSONFormatter, JSONFormatter)"
  shows "keys_handler n env w a r =
     serve_do n env w a (RequestKeys (env_uuid env)) (error_reply ''unable to load keys, '') keys_ok"
  using assms unfolding keys_handler_def error_reply_def keys_ok_def by simp

lemma record_handler_run:
  assumes format: "format r = Inr (JSONFormatter, JSONFormatter)"
    and req: "rest_request env h r = Some req" and h: "h \<noteq> KeysHandler"
  shows "\<exists>prefix. run_handler n env w a h r = serve_do n env w a req (error_reply prefix) (record_ok h)"
proof -
  have eta: "error_reply prefix = (\<lambda>t resp. write_body JSONFormatter encode_body (Some (BError (prefix @ t))) (status resp))"
    "record_ok h' = (\<lambda>s resp. write_body JSONFormatter encode_body (Some (record_body (handler_action h')
       (if h' = DeleteHandler then VNil else rdata (rrecord resp)) s resp)) 200)" for prefix h'
    by (simp_all add: fun_eq_iff error_reply_def record_ok_def)
  show ?thesis
  proof (cases h)
    case LoadHandler
    with format req show ?thesis
      by (intro exI [of _ "''unable to load '' @ param r ''key'' @ '' key, ''"]) (simp add: load_handler_def eta Let_def)
  next
    case StoreHandler
    with format req show ?thesis
      by (intro exI [of _ "''unable to store '' @ param r ''key'' @ '' key, ''"])
        (auto simp: store_handler_def read_req_def eta Let_def simp del: read_body.simps split: sum.splits)
  next
    case DeleteHandler
    with format req show ?thesis
      by (intro exI [of _ "''unable to delete '' @ param r ''key'' @ '' key, ''"]) (simp add: delete_handler_def eta Let_def)
  next
    case IndexHandler
    with format req show ?thesis
      by (intro exI [of _ "''unable to load value, ''"])
        (auto simp: index_handler_def read_req_def eta Let_def simp del: read_body.simps split: sum.splits)
  next
    case ItemHandler
    with format req show ?thesis
      by (intro exI [of _ "''unable to load value, ''"])
        (auto simp: item_handler_def read_req_def eta Let_def simp del: read_body.simps split: sum.splits)
  qed (use h req in simp_all)
qed

lemma keys_ok_answers:
  assumes "answers out resp" and "\<exists>ks. out = Inr (Inr (record_zero\<lparr>rdata := VSlice TyString (map VString ks)\<rparr>))"
  shows "http_answers KeysHandler out (case out of Inr (Inl err) \<Rightarrow> fail | _ \<Rightarrow> keys_ok s resp)"
  using keys_answers [OF assms] unfolding keys_ok_def .

lemma record_ok_answers:
  assumes "answers out resp" and "sendable out" and "h \<noteq> KeysHandler"
  shows "http_answers h out (case out of Inr (Inl err) \<Rightarrow> error_reply prefix t resp | _ \<Rightarrow> record_ok h s resp)"
  by (rule record_answers [OF assms, of "\<lambda>t. error_reply prefix t resp"])
    (simp_all add: error_reply_status record_ok_def)

lemma rest_step:
  assumes inv: "cluster_inv parts members w" and a: "a \<in> set members" and rt: "rt_ok (env_rt env)"
    and route: "api_route r = Dispatch h r'"
    and types: "supported (hcontent_type r')" "supported (haccept r')"
    and req: "rest_request env h r' = Some req" and good: "good_request req"
  shows "\<exists>w' out resp. serve_http 2 env w a r = Some (w', Served resp) \<and>
     table_step (\<lambda>k. owner parts members k = a) (env_rt env) req
       (cluster_abs parts members w) (cluster_abs parts members w', out) \<and>
     http_answers h out resp \<and> cluster_inv parts members w'"
proof -
  have http: "serve_http 2 env w a r = run_handler 2 env w a h r'"
    by (simp add: serve_http_def serve_mux_route route)
  have format: "format r' = Inr (JSONFormatter, JSONFormatter)" using types by (simp add: format_result)
  note run = serve_do_result [OF inv a rt good]
  show ?thesis
  proof (cases "h = KeysHandler")
    case True
    with req have keys: "req = RequestKeys (env_uuid env)" by simp
    have "run_handler 2 env w a h r' = serve_do 2 env w a req (error_reply ''unable to load keys, '') keys_ok"
      using keys_handler_run [OF format] by (simp add: True keys)
    moreover obtain w' out resp s where res: "serve_do 2 env w a req (error_reply ''unable to load keys, '') keys_ok =
        Some (w', Served (case out of Inr (Inl err) \<Rightarrow>
            error_reply ''unable to load keys, '' (env_errorf env (rerror resp)) resp | _ \<Rightarrow> keys_ok s resp))"
      "answers out resp" "cluster_inv parts members w'"
      "table_step (\<lambda>k. owner parts members k = a) (env_rt env) req
         (cluster_abs parts members w) (cluster_abs parts members w', out)"
      using run by blast
    moreover have "\<exists>ks. out = Inr (Inr (record_zero\<lparr>rdata := VSlice TyString (map VString ks)\<rparr>))"
      using res(4) by (auto simp: keys)
    ultimately show ?thesis using keys_ok_answers [OF res(2)] http True by auto
  next
    case False
    obtain prefix where "run_handler 2 env w a h r' = serve_do 2 env w a req (error_reply prefix) (record_ok h)"
      using record_handler_run [OF format req False] by blast
    moreover obtain w' out resp s where res: "serve_do 2 env w a req (error_reply prefix) (record_ok h) =
        Some (w', Served (case out of Inr (Inl err) \<Rightarrow>
            error_reply prefix (env_errorf env (rerror resp)) resp | _ \<Rightarrow> record_ok h s resp))"
      "answers out resp" "cluster_inv parts members w'" "(\<exists>i. req = RequestKeys i) \<or> sendable out"
      "table_step (\<lambda>k. owner parts members k = a) (env_rt env) req
         (cluster_abs parts members w) (cluster_abs parts members w', out)"
      using run by blast
    moreover have "sendable out" using res(4) req False by (cases h) (auto split: sum.splits)
    ultimately show ?thesis using record_ok_answers [OF res(2) _ False] http by auto
  qed
qed

end
