(* ===== verification/Client_Table.thy ===== *)
theory Client_Table
  imports Client Rest_Table
begin

text \<open>
  The cluster as its HTTP clients see it: operations on keys without special characters, made
  through any nodes, have the outcomes of the abstract table.
\<close>

section \<open>Keys and durations that travel unchanged\<close>

definition plain_key :: "string \<Rightarrow> bool" where
  "plain_key k \<longleftrightarrow> k \<noteq> [] \<and> list_all query_plain k \<and> CHR ''/'' \<notin> set k \<and> utf8_valid k"

text \<open>The smallest duration has no text that can be read back; no record may hold it.\<close>

definition printable :: "duration \<Rightarrow> bool" where
  "printable d \<longleftrightarrow> sint d \<noteq> - (2 ^ 63)"

definition printable_table :: "table \<Rightarrow> bool" where
  "printable_table m \<longleftrightarrow> (\<forall>k r. m k = Some r \<longrightarrow> printable (expire_time (rmeta r)))"

lemma select_meta:
  "select_index k ix rec = Inr (Inr rec') \<Longrightarrow> rmeta rec' = rmeta rec"
  "select_item rt k item rec = Inr (Inr rec') \<Longrightarrow> rmeta rec' = rmeta rec"
  by (auto simp: select_index_def select_item_def split: sum.splits goval.splits if_splits option.splits)

lemma printable_read:
  assumes read: "(m', out) = table_read rt m k sel" and m: "printable_table m"
    and sel: "\<And>r r'. sel r = Inr (Inr r') \<Longrightarrow> rmeta r' = rmeta r"
  shows "printable_table m' \<and> (\<forall>rec. out = Inr (Inr rec) \<longrightarrow> printable (expire_time (rmeta rec)))"
proof (cases "m k")
  case None
  with read m show ?thesis by (simp add: table_read_def table_load_def)
next
  case (Some r)
  show ?thesis
  proof (cases "is_expired (now_at rt 1) r")
    case True
    with Some read m show ?thesis by (simp add: table_read_def table_load_def printable_table_def)
  next
    case False
    with Some read have "m' = m" "out = sel (touch (now_at rt 0) r)"
      by (simp_all add: table_read_def table_load_def)
    moreover have "printable (expire_time (rmeta (touch (now_at rt 0) r)))"
      using m Some by (simp add: printable_table_def touch_def)
    ultimately show ?thesis using m sel by metis
  qed
qed

lemma printable_step:
  assumes step: "table_step here rt req m (m', out)" and m: "printable_table m"
    and req: "\<And>i e k d. req = RequestStore i e k d \<Longrightarrow> printable e"
  shows "printable_table m' \<and> (\<forall>rec. out = Inr (Inr rec) \<longrightarrow> printable (expire_time (rmeta rec)))"
proof -
  have zero: "printable (expire_time (rmeta (record_zero\<lparr>rdata := d\<rparr>)))" "printable (expire_time (rmeta record_zero))" for d
    by (simp_all add: record_zero_def meta_zero_def printable_def)
  show ?thesis
  proof (cases req)
    case (RequestKeys i)
    with step m zero show ?thesis by auto
  next
    case (RequestLoad i k)
    with step have "(m', out) = table_read rt m k (\<lambda>r. Inr (Inr r))" by simp
    from printable_read [OF this m] show ?thesis by simp
  next
    case (RequestStore i e k d)
    with step m req [OF RequestStore] show ?thesis
      by (auto simp: Let_def stored_def printable_table_def meta_zero_def record_zero_def)
  next
    case (RequestDelete i k)
    with step m zero show ?thesis by (auto simp: printable_table_def)
  next
    case (RequestListIndex i k ix)
    with step have "(m', out) = table_read rt m k (select_index k ix)" by simp
    from printable_read [OF this m select_meta(1)] show ?thesis by simp
  next
    case (RequestDictItem i k item)
    with step have "(m', out) = table_read rt m k (select_item rt k item)" by simp
    from printable_read [OF this m select_meta(2)] show ?thesis by simp
  qed
qed

section \<open>Operations\<close>

datatype client_op =
    OpLoad string
  | OpStore string goval duration
  | OpDelete string
  | OpListIndex string uint64
  | OpDictItem string goval

fun client_call ::
    "nat \<Rightarrow> rest_env \<Rightarrow> http_net \<Rightarrow> world \<Rightarrow> client \<Rightarrow> client_op \<Rightarrow> (world \<times> (string + client_response)) option" where
  "client_call n env net w c (OpLoad k) = client_load n env net w c \<lparr>lo_key = k\<rparr>"
| "client_call n env net w c (OpStore k d e) = client_store n env net w c \<lparr>so_key = k, so_data = d, so_expire = e\<rparr>"
| "client_call n env net w c (OpDelete k) = client_delete n env net w c \<lparr>do_key = k\<rparr>"
| "client_call n env net w c (OpListIndex k ix) = client_list_index n env net w c \<lparr>li_key = k, li_index = ix\<rparr>"
| "client_call n env net w c (OpDictItem k i) = client_dict_item n env net w c \<lparr>di_key = k, di_item = i\<rparr>"

text \<open>The request on data an operation stands for.\<close>

fun op_request :: "string \<Rightarrow> client_op \<Rightarrow> request" where
  "op_request i (OpLoad k) = RequestLoad i k"
| "op_request i (OpStore k d e) = RequestStore i e k d"
| "op_request i (OpDelete k) = RequestDelete i k"
| "op_request i (OpListIndex k ix) = RequestListIndex i k ix"
| "op_request i (OpDictItem k item) = RequestDictItem i k item"

fun op_ok :: "client_op \<Rightarrow> bool" where
  "op_ok (OpStore k d e) = (plain_key k \<and> good_data d \<and> printable e)"
| "op_ok (OpDictItem k item) = (plain_key k \<and> json_shaped item)"
| "op_ok (OpLoad k) = plain_key k"
| "op_ok (OpDelete k) = plain_key k"
| "op_ok (OpListIndex k ix) = plain_key k"

fun op_handler :: "client_op \<Rightarrow> handler" where
  "op_handler (OpLoad k) = LoadHandler"
| "op_handler (OpStore k d e) = StoreHandler"
| "op_handler (OpDelete k) = DeleteHandler"
| "op_handler (OpListIndex k ix) = IndexHandler"
| "op_handler (OpDictItem k item) = ItemHandler"

text \<open>What the client returns for an outcome: an error, or the response with the record.\<close>

definition client_answers :: "client_op \<Rightarrow> outcome \<Rightarrow> string + client_response \<Rightarrow> bool" where
  "client_answers op out r \<longleftrightarrow>
     (case out of
        Inl p \<Rightarrow> False
      | Inr (Inl err) \<Rightarrow> (\<exists>t. r = Inl t)
      | Inr (Inr rec) \<Rightarrow>
          (\<exists>nd. r = Inr \<lparr>cr_action = handler_action (op_handler op), cr_meta = record_meta rec,
                         cr_data = (case op of OpDelete k \<Rightarrow> VNil | _ \<Rightarrow> rdata rec), cr_node = nd\<rparr>))"

lemma op_request_good: "op_ok op \<Longrightarrow> utf8_valid i \<Longrightarrow> good_request (op_request i op)"
  by (cases op) (auto simp: plain_key_def good_data_def)

section \<open>Requests on the wire\<close>

text \<open>The HTTP request of an operation.\<close>

fun op_method :: "client_op \<Rightarrow> string" where
  "op_method (OpStore k d e) = ''PUT''"
| "op_method (OpDelete k) = ''DELETE''"
| "op_method _ = ''GET''"

fun op_path :: "client_op \<Rightarrow> string" where
  "op_path (OpListIndex k ix) = key_path k @ ''/index''"
| "op_path (OpDictItem k item) = key_path k @ ''/item''"
| "op_path (OpLoad k) = key_path k"
| "op_path (OpStore k d e) = key_path k"
| "op_path (OpDelete k) = key_path k"

fun op_body :: "client_op \<Rightarrow> payload" where
  "op_body (OpStore k d e) = Payload (marshal_store_options \<lparr>so_key = k, so_data = d, so_expire = e\<rparr>)"
| "op_body (OpListIndex k ix) = Payload (marshal_list_index_options \<lparr>li_key = k, li_index = ix\<rparr>)"
| "op_body (OpDictItem k item) = Payload (marshal_dict_item_options \<lparr>di_key = k, di_item = item\<rparr>)"
| "op_body _ = NoPayload"

lemma client_call_do:
  "client_call n env net w c op =
     client_do n env net w (op_method op) (url_of c (op_path op)) (op_body op) (decode_response (env_frac env))"
  by (cases op) (simp_all add: client_load_def client_store_def client_delete_def client_list_index_def
      client_dict_item_def)

definition wire_http :: "string \<Rightarrow> string \<Rightarrow> json option \<Rightarrow> http_request" where
  "wire_http method path b =
     \<lparr>hmethod = method, hpath = path, hquery = [], hcontent_type = [], haccept = [],
      hbody = (case b of None \<Rightarrow> Inl eof_error | Some j \<Rightarrow> Inr j)\<rparr>"

lemma exchange_serves:
  assumes "net (url_host u) = Some a" and "servers w a = Some s"
  shows "exchange n env net w method u b =
     (case serve_http n env w a (wire_http method (url_path u) b) of
        None \<Rightarrow> None
      | Some (w', Aborted) \<Rightarrow> Some (w', Inl eof_error)
      | Some (w', Served resp) \<Rightarrow> Some (w', Inr resp))"
  using assms by (simp add: exchange_def unescape_escape wire_http_def)

lemma split_raw_path:
  assumes "CHR ''/'' \<notin> set k"
  shows "path_split (key_path k) = ['''', ''v1'', ''keys'', k]"
    and "CHR ''/'' \<notin> set s \<Longrightarrow> path_split (key_path k @ ''/'' @ s) = ['''', ''v1'', ''keys'', k, s]"
proof -
  have k: "list_all (\<lambda>c. c \<noteq> CHR ''/'') k" using assms by (auto simp: list_all_iff)
  show "path_split (key_path k) = ['''', ''v1'', ''keys'', k]"
    using split_by_none [of "\<lambda>c. c = CHR ''/''", OF k] by (simp add: key_path_def)
  assume "CHR ''/'' \<notin> set s"
  then have "list_all (\<lambda>c. c \<noteq> CHR ''/'') s" by (auto simp: list_all_iff)
  then show "path_split (key_path k @ ''/'' @ s) = ['''', ''v1'', ''keys'', k, s]"
    using split_by_append [of "\<lambda>c. c = CHR ''/''", OF k] split_by_none [of "\<lambda>c. c = CHR ''/''"]
    by (simp add: key_path_def)
qed

fun op_key :: "client_op \<Rightarrow> string" where
  "op_key (OpLoad k) = k"
| "op_key (OpStore k d e) = k"
| "op_key (OpDelete k) = k"
| "op_key (OpListIndex k ix) = k"
| "op_key (OpDictItem k item) = k"

lemma op_plain_key: "op_ok op \<Longrightarrow> plain_key (op_key op)"
  by (cases op) simp_all

definition op_arrives :: "client_op \<Rightarrow> json option \<Rightarrow> http_request" where
  "op_arrives op b = (wire_http (op_method op) (op_path op) b)\<lparr>hquery := ''key='' @ op_key op @ ''&''\<rparr>"

lemma op_path_route:
  assumes "op_key op \<noteq> []" and "CHR ''/'' \<notin> set (op_key op)"
  shows "api_route (wire_http (op_method op) (op_path op) b) = Dispatch (op_handler op) (op_arrives op b)"
  using split_raw_path(1) [OF assms(2)] split_raw_path(2) [OF assms(2), of "''index''"]
    split_raw_path(2) [OF assms(2), of "''item''"] assms(1)
  by (cases op) (simp_all add: api_route_def wire_http_def op_arrives_def Let_def)

lemma op_route:
  "op_ok op \<Longrightarrow> api_route (wire_http (op_method op) (op_path op) b) = Dispatch (op_handler op) (op_arrives op b)"
  using op_path_route op_plain_key by (simp add: plain_key_def)

lemma op_param:
  assumes "op_ok op"
  shows "param (op_arrives op b) ''key'' = op_key op"
proof -
  have "list_all query_plain (op_key op)" using op_plain_key [OF assms] by (simp add: plain_key_def)
  from query_get_front [OF _ _ _ this, of "''key''" "[]"] show ?thesis
    by (simp add: param_def op_arrives_def query_plain_def)
qed

lemma op_arrives_sel [simp]:
  "hcontent_type (op_arrives op b) = []" "haccept (op_arrives op b) = []"
  "hbody (op_arrives op b) = (case b of None \<Rightarrow> Inl eof_error | Some j \<Rightarrow> Inr j)"
  by (simp_all add: op_arrives_def wire_http_def)

text \<open>The handler makes of it the request the operation stands for.\<close>

lemma op_decodes:
  assumes "op_ok op" and "frac_exact (env_frac env)"
  shows "\<exists>b. (case op_body op of NoPayload \<Rightarrow> b = None | Payload j \<Rightarrow> j \<noteq> None \<and> b = j) \<and>
     rest_request env (op_handler op) (op_arrives op b) = Some (op_request (env_uuid env) op)"
proof (cases op)
  case (OpStore k d e)
  let ?o = "\<lparr>so_key = k, so_data = d, so_expire = e\<rparr>"
  from OpStore assms(1) have "sint e \<noteq> - (2 ^ 63)" "json_shaped d"
    by (simp_all add: printable_def good_data_def)
  with store_options_arrive [OF assms(2), of ?o] obtain j where
    "marshal_store_options ?o = Some j" "unmarshal_store_options (env_frac env) j = Some (?o\<lparr>so_key := []\<rparr>)" by auto
  with OpStore op_param [OF assms(1), of "Some j"] show ?thesis by (intro exI [of _ "Some j"]) simp
next
  case (OpListIndex k ix)
  let ?o = "\<lparr>li_key = k, li_index = ix\<rparr>"
  from list_index_options_arrive [of ?o] obtain j where
    "marshal_list_index_options ?o = Some j" "unmarshal_list_index_options j = Some (?o\<lparr>li_key := []\<rparr>)" by auto
  with OpListIndex op_param [OF assms(1), of "Some j"] show ?thesis by (intro exI [of _ "Some j"]) simp
next
  case (OpDictItem k item)
  let ?o = "\<lparr>di_key = k, di_item = item\<rparr>"
  from OpDictItem assms(1) dict_item_options_arrive [of ?o] obtain j where
    "marshal_dict_item_options ?o = Some j" "unmarshal_dict_item_options j = Some (?o\<lparr>di_key := []\<rparr>)" by auto
  with OpDictItem op_param [OF assms(1), of "Some j"] show ?thesis by (intro exI [of _ "Some j"]) simp
qed (use op_param [OF assms(1), of None] in simp_all)

section \<open>Operations on the cluster\<close>

lemma read_response_answers:
  assumes "http_answers (op_handler op) out resp" and "frac_exact fm"
    and "\<forall>rec. out = Inr (Inr rec) \<longrightarrow> printable (expire_time (rmeta rec))"
  shows "client_answers op out (read_response (decode_response fm) resp)"
proof (cases out)
  case (Inr r)
  show ?thesis
  proof (cases r)
    case (Inl err)
    with Inr assms(1) have "hstatus resp \<noteq> 200" by (cases err) (auto simp: http_answers_def)
    with Inr Inl show ?thesis by (simp add: client_answers_def read_response_def)
  next
    case rec: (Inr rec)
    have h: "op_handler op \<noteq> KeysHandler" "(op_handler op = DeleteHandler) = (\<exists>k. op = OpDelete k)"
      by (cases op; simp)+
    from assms(1) Inr rec h obtain nd where "hstatus resp = 200" "hreply resp = JsonReply (BResponse
        \<lparr>cr_action = handler_action (op_handler op), cr_meta = record_meta rec,
         cr_data = (if op_handler op = DeleteHandler then VNil else rdata rec), cr_node = nd\<rparr>)"
      by (auto simp: http_answers_def)
    moreover have "unmarshal_duration fm (marshal_duration (cm_expire (record_meta rec))) = Some (cm_expire (record_meta rec))"
      using assms(2,3) Inr rec
      by (intro unmarshal_marshal_duration) (simp_all add: record_meta_def printable_def)
    ultimately show ?thesis
      using Inr rec by (cases op) (simp_all add: client_answers_def read_response_def)
  qed
qed (use assms(1) in \<open>simp add: http_answers_def\<close>)

lemma client_step:
  assumes inv: "cluster_inv parts members w" and a: "net (c_host c) = Some a" "a \<in> set members"
    and env: "rt_ok (env_rt env)" "frac_exact (env_frac env)" "utf8_valid (env_uuid env)"
    and op: "op_ok op" and pr: "printable_table (cluster_abs parts members w)"
  shows "\<exists>w' out r. client_call 2 env net w c op = Some (w', r) \<and>
     table_step (\<lambda>k. owner parts members k = a) (env_rt env) (op_request (env_uuid env) op)
       (cluster_abs parts members w) (cluster_abs parts members w', out) \<and>
     client_answers op out r \<and> cluster_inv parts members w' \<and> printable_table (cluster_abs parts members w')"
proof -
  obtain s where s: "servers w a = Some s"
    using mesh_server [of parts members w a] inv a(2) by (auto simp: cluster_inv_def)
  obtain b where b: "case op_body op of NoPayload \<Rightarrow> b = None | Payload j \<Rightarrow> j \<noteq> None \<and> b = j"
    "rest_request env (op_handler op) (op_arrives op b) = Some (op_request (env_uuid env) op)"
    using op_decodes [OF op env(2)] by blast
  obtain w' out resp where step:
    "serve_http 2 env w a (wire_http (op_method op) (op_path op) b) = Some (w', Served resp)"
    "table_step (\<lambda>k. owner parts members k = a) (env_rt env) (op_request (env_uuid env) op)
       (cluster_abs parts members w) (cluster_abs parts members w', out)"
    "http_answers (op_handler op) out resp" "cluster_inv parts members w'"
    using rest_step [OF inv a(2) env(1) op_route [OF op] _ _ b(2) op_request_good [OF op env(3)]]
    by (auto simp: supported_def)
  have "client_call 2 env net w c op = Some (w', read_response (decode_response (env_frac env)) resp)"
    using b(1) exchange_serves [of net "url_of c (op_path op)" a w s 2 env "op_method op" b] s a(1) step(1)
    by (auto simp: client_call_do client_do_def url_of_def Let_def split: payload.splits)
  moreover have "printable_table (cluster_abs parts members w') \<and>
      (\<forall>rec. out = Inr (Inr rec) \<longrightarrow> printable (expire_time (rmeta rec)))"
    by (rule printable_step [OF step(2) pr]) (use op in \<open>cases op; simp\<close>)
  ultimately show ?thesis using step read_response_answers [OF step(3) env(2)] by blast
qed

section \<open>Sequences of operations\<close>

text \<open>Operations one after the other, each with a client of its own, and the same on a table.\<close>

fun client_run ::
    "http_net \<Rightarrow> world \<Rightarrow> (rest_env \<times> client \<times> client_op) list \<Rightarrow>
     (world \<times> (string + client_response) list) option" where
  "client_run net w [] = Some (w, [])"
| "client_run net w ((env, c, op) # xs) =
     (case client_call 2 env net w c op of
        None \<Rightarrow> None
      | Some (w', r) \<Rightarrow> map_option (apsnd (Cons r)) (client_run net w' xs))"

fun client_table_run ::
    "table \<Rightarrow> (rest_env \<times> client \<times> client_op) list \<Rightarrow> (string + client_response) list \<Rightarrow> table \<Rightarrow> bool" where
  "client_table_run m [] [] m' = (m' = m)"
| "client_table_run m ((env, c, op) # xs) (r # rs) m' =
     (\<exists>m1 out. table_step (\<lambda>_. True) (env_rt env) (op_request (env_uuid env) op) m (m1, out) \<and>
        client_answers op out r \<and> client_table_run m1 xs rs m')"
| "client_table_run m _ _ m' = False"

definition calls_ok :: "http_net \<Rightarrow> tcp_addr list \<Rightarrow> (rest_env \<times> client \<times> client_op) list \<Rightarrow> bool" where
  "calls_ok net members xs \<longleftrightarrow>
     list_all (\<lambda>(env, c, op). rt_ok (env_rt env) \<and> frac_exact (env_frac env) \<and> utf8_valid (env_uuid env) \<and>
       op_ok op \<and> (\<exists>a \<in> set members. net (c_host c) = Some a)) xs"

lemma op_step_here:
  "table_step here rt (op_request i op) m res = table_step here' rt (op_request i op) m res"
  by (cases op) simp_all

lemma client_run_table:
  assumes "cluster_inv parts members w" and "printable_table (cluster_abs parts members w)"
    and "calls_ok net members xs"
  shows "\<exists>w' rs. client_run net w xs = Some (w', rs) \<and> cluster_inv parts members w' \<and>
     client_table_run (cluster_abs parts members w) xs rs (cluster_abs parts members w')"
  using assms
proof (induction xs arbitrary: w)
  case (Cons x xs)
  obtain env c op where x: "x = (env, c, op)" by (cases x) auto
  from Cons.prems(3) x obtain a where ok: "rt_ok (env_rt env)" "frac_exact (env_frac env)" "utf8_valid (env_uuid env)"
      "op_ok op" "a \<in> set members" "net (c_host c) = Some a" "calls_ok net members xs"
    by (auto simp: calls_ok_def)
  from client_step [where net = net and c = c, OF Cons.prems(1) ok(6,5,1,2,3,4) Cons.prems(2)] obtain w1 out r where
    one: "client_call 2 env net w c op = Some (w1, r)" "client_answers op out r" "cluster_inv parts members w1"
      "printable_table (cluster_abs parts members w1)"
      "table_step (\<lambda>_. True) (env_rt env) (op_request (env_uuid env) op)
        (cluster_abs parts members w) (cluster_abs parts members w1, out)"
    using op_step_here by blast
  from Cons.IH [OF one(3,4) ok(7)] one show ?case by (fastforce simp: x)
qed simp

section \<open>Keys with special characters\<close>

text \<open>
  The key the handler reads for a key the client was given: the part in front of the first
  \<open>&\<close> or \<open>;\<close>, with its escapes removed.
\<close>

definition key_read :: "string \<Rightarrow> string option" where
  "key_read k = unescape True (takeWhile (\<lambda>c. \<not> query_break c) k)"

lemma key_read_plain: "plain_key k \<Longrightarrow> key_read k = Some k"
proof -
  assume k: "plain_key k"
  then have plain: "list_all query_plain k" by (simp add: plain_key_def)
  then have "takeWhile (\<lambda>c. \<not> query_break c) k = k"
    by (auto simp: takeWhile_eq_all_conv list_all_iff query_plain_def query_break_def)
  then show ?thesis by (simp only: key_read_def unescape_plain [OF plain])
qed

text \<open>The same operation on another key.\<close>

fun with_key :: "string \<Rightarrow> client_op \<Rightarrow> client_op" where
  "with_key k (OpLoad _) = OpLoad k"
| "with_key k (OpStore _ d e) = OpStore k d e"
| "with_key k (OpDelete _) = OpDelete k"
| "with_key k (OpListIndex _ ix) = OpListIndex k ix"
| "with_key k (OpDictItem _ item) = OpDictItem k item"

lemma with_key_same [simp]:
  "op_key (with_key k op) = k" "op_method (with_key k op) = op_method op" "op_handler (with_key k op) = op_handler op"
  by (cases op; simp)+

lemma serve_key_read:
  assumes "k \<noteq> []" "CHR ''/'' \<notin> set k" "k' \<noteq> []" "CHR ''/'' \<notin> set k'"
    and "key_read k = Some x" "key_read k' = Some x"
  shows "serve_http n env w a (wire_http (op_method op) (op_path (with_key k op)) b) =
    serve_http n env w a (wire_http (op_method op) (op_path (with_key k' op)) b)"
proof -
  let ?r = "\<lambda>k. op_arrives (with_key k op) b"
  have key: "param (?r k) ''key'' = x" if "key_read k = Some x" for k
    using query_get_raw [of "''key''" k x "[]"] that
    by (simp add: param_def op_arrives_def key_read_def query_plain_def)
  have "run_handler n env w a (op_handler op) (?r k) = run_handler n env w a (op_handler op) (?r k')"
    by (rule run_handler_cong)
      (use key [OF assms(5)] key [OF assms(6)] in \<open>simp_all add: op_arrives_def wire_http_def\<close>)
  then show ?thesis
    using op_path_route [of "with_key k op" b] op_path_route [of "with_key k' op" b] assms(1-4)
    by (simp add: serve_http_def serve_mux_route del: run_handler.simps)
qed

lemma call_key_read:
  assumes "k \<noteq> []" "CHR ''/'' \<notin> set k" "k' \<noteq> []" "CHR ''/'' \<notin> set k'"
    and "key_read k = Some x" "key_read k' = Some x"
  shows "client_call n env net w c (with_key k op) = client_call n env net w c (with_key k' op)"
proof -
  have "exchange n env net w (op_method op) (url_of c (op_path (with_key k op))) b =
      exchange n env net w (op_method op) (url_of c (op_path (with_key k' op))) b" for b
    using serve_key_read [OF assms, of n env w _ op b]
    by (simp add: exchange_def unescape_escape url_of_def wire_http_def split: option.split)
  moreover have "op_body (with_key k op) = op_body (with_key k' op)"
    by (cases op) (simp_all add: marshal_store_options_def marshal_list_index_options_def marshal_dict_item_options_def)
  ultimately show ?thesis by (simp only: client_call_do client_do_def with_key_same)
qed

end
