(* ===== verification/Client_Keys.thy ===== *)
theory Client_Keys
  imports Client_Table
begin

text \<open>
  \<open>Keys\<close> of the client: the list of nodes it asks for, the listing of one node, and what the
  goroutines that share a loop variable bring together.
\<close>

section \<open>The list of nodes\<close>

definition nodes_listed :: "tcp_addr list \<Rightarrow> client_node list \<Rightarrow> bool" where
  "nodes_listed members ns \<longleftrightarrow> map cn_addr ns = map addr_text (sort members)"

lemma nodes_route: "api_route (wire_http ''GET'' ''/v1/nodes'' None) = Dispatch NodesHandler (wire_http ''GET'' ''/v1/nodes'' None)"
  by (simp add: api_route_def wire_http_def)

lemma keys_route: "api_route (wire_http ''GET'' ''/v1/keys'' None) = Dispatch KeysHandler (wire_http ''GET'' ''/v1/keys'' None)"
  by (simp add: api_route_def wire_http_def)

lemma wire_http_format: "format (wire_http m p b) = Inr (JSONFormatter, JSONFormatter)"
  by (simp add: format_result wire_http_def supported_def)

lemma client_nodes_mesh:
  assumes m: "mesh parts members w" and a: "net (c_host c) = Some a" "a \<in> set members"
    and ascii: "\<forall>b \<in> set members. utf8_valid (addr_text b)"
  shows "\<exists>ns. client_nodes n env net w c = Some (w, Inr ns) \<and> nodes_listed members ns"
proof -
  obtain s where s: "servers w a = Some s" "mesh_node parts members s"
    using mesh_server [OF m a(2)] by blast
  let ?ns = "map (\<lambda>nd. \<lparr>cn_id = node_id nd, cn_addr = addr_string (node_addr nd)\<rparr>) (nodes s)"
  have "serve_http n env w a (wire_http ''GET'' ''/v1/nodes'' None) =
      Some (w, Served \<lparr>hstatus = 200, hreply = JsonReply (BNodes (map fix_node ?ns))\<rparr>)"
    by (simp add: serve_http_def serve_mux_route nodes_route nodes_handler_def s(1) wire_http_format)
  then have res: "client_nodes n env net w c = Some (w, Inr (map fix_node ?ns))"
    using exchange_serves [of net "url_of c ''/v1/nodes''" a w s n env "''GET''" None] a(1) s(1)
    by (simp add: client_nodes_def client_do_def url_of_def read_response_def)
  have "map addr_string (map node_addr (nodes s)) = map addr_text (sort members)"
    using s(2) by (simp only: mesh_node_def) simp
  moreover have "map cn_addr (map fix_node ?ns) = map utf8_fix (map addr_string (map node_addr (nodes s)))"
    by (simp add: fix_node_def comp_def)
  ultimately have "map cn_addr (map fix_node ?ns) = map utf8_fix (map addr_text (sort members))" by metis
  then have "nodes_listed members (map fix_node ?ns)"
    using ascii by (simp add: nodes_listed_def utf8_fix_valid)
  with res show ?thesis by blast
qed

section \<open>The listing of one node\<close>

lemma keys_request:
  assumes inv: "cluster_inv parts members w" and b: "net (url_host u) = Some b" "b \<in> set members"
    and rt: "rt_ok (env_rt env)" and path: "url_path u = ''/v1/keys''"
  shows "\<exists>w' ks. client_do 2 env net w ''GET'' u NoPayload decode_keys = Some (w', Inr ks) \<and>
     set ks = utf8_fix ` {k \<in> dom (cluster_abs parts members w). owner parts members k = b} \<and>
     cluster_inv parts members w' \<and> cluster_abs parts members w' = cluster_abs parts members w"
proof -
  obtain s where s: "servers w b = Some s"
    using mesh_server [of parts members w b] inv b(2) by (auto simp: cluster_inv_def)
  have types: "supported (hcontent_type (wire_http ''GET'' ''/v1/keys'' None))"
    "supported (haccept (wire_http ''GET'' ''/v1/keys'' None))"
    by (simp_all add: wire_http_def supported_def)
  obtain w' out resp where step: "serve_http 2 env w b (wire_http ''GET'' ''/v1/keys'' None) = Some (w', Served resp)"
    "table_step (\<lambda>k. owner parts members k = b) (env_rt env) (RequestKeys (env_uuid env))
       (cluster_abs parts members w) (cluster_abs parts members w', out)"
    "http_answers KeysHandler out resp" "cluster_inv parts members w'"
    using rest_step [where req = "RequestKeys (env_uuid env)", OF inv b(2) rt keys_route types] by auto
  from step(2) obtain ks where ks: "out = Inr (Inr (record_zero\<lparr>rdata := VSlice TyString (map VString ks)\<rparr>))"
    "set ks = {k \<in> dom (cluster_abs parts members w). owner parts members k = b}"
    and same: "cluster_abs parts members w' = cluster_abs parts members w" by auto
  have "inj VString" by (rule injI) simp
  then have reply: "hstatus resp = 200" "hreply resp = JsonReply (BKeys (map utf8_fix ks))"
    using step(3) ks(1) by (auto simp: http_answers_def dest: map_injective)
  have "client_do 2 env net w ''GET'' u NoPayload decode_keys = Some (w', Inr (map utf8_fix ks))"
    using exchange_serves [of net u b w s 2 env "''GET''" None] b(1) s step(1) reply path
    by (simp add: client_do_def read_response_def)
  with ks(2) same step(4) show ?thesis by (metis set_map)
qed

section \<open>All goroutines\<close>

lemma retrieve_all_seen:
  assumes "cluster_inv parts members w" and "\<forall>i. rt_ok (env_rt (envs i))"
    and "\<forall>b \<in> set members. net (addr_text b) = Some b"
    and "\<forall>i \<in> set is. seen i < length members" and "nodes_listed members ns"
  shows "\<exists>w' rs. retrieve_all 2 envs net c ns seen is w = Some (w', rs) \<and> map fst rs = is \<and>
     cluster_inv parts members w' \<and> cluster_abs parts members w' = cluster_abs parts members w \<and>
     (\<forall>(i, r) \<in> set rs. \<exists>ks. r = Inr ks \<and> set ks = utf8_fix `
        {k \<in> dom (cluster_abs parts members w). owner parts members k = sort members ! seen i})"
  using assms(1,4)
proof (induction "is" arbitrary: w)
  case (Cons i "is")
  let ?u = "\<lparr>url_scheme = scheme c, url_host = cn_addr (ns ! seen i), url_path = ''/v1/keys''\<rparr>"
  have i: "seen i < length members" using Cons.prems(2) by simp
  have addrs: "map cn_addr ns = map addr_text (sort members)" using assms(5) by (simp only: nodes_listed_def)
  have "length ns = length (map cn_addr ns)" by simp
  also have "\<dots> = length members" unfolding addrs by simp
  finally have len: "length ns = length members" .
  have "cn_addr (ns ! seen i) = map cn_addr ns ! seen i" using i len by simp
  then have "cn_addr (ns ! seen i) = addr_text (sort members ! seen i)" using i by (simp add: addrs)
  moreover have b: "sort members ! seen i \<in> set members" using i nth_mem [of "seen i" "sort members"] by simp
  ultimately have net: "net (url_host ?u) = Some (sort members ! seen i)" using assms(3) by simp
  obtain w1 ks where one: "client_do 2 (envs i) net w ''GET'' ?u NoPayload decode_keys = Some (w1, Inr ks)"
    "set ks = utf8_fix ` {k \<in> dom (cluster_abs parts members w). owner parts members k = sort members ! seen i}"
    "cluster_inv parts members w1" "cluster_abs parts members w1 = cluster_abs parts members w"
    using keys_request [where net = net and u = ?u and env = "envs i", OF Cons.prems(1) net b] assms(2) by (metis url.select_convs(3))
  from Cons.IH [OF one(3)] Cons.prems(2) obtain w2 rs where
    rest: "retrieve_all 2 envs net c ns seen is w1 = Some (w2, rs)" "map fst rs = is"
      "cluster_inv parts members w2" "cluster_abs parts members w2 = cluster_abs parts members w"
      "\<forall>(i, r) \<in> set rs. \<exists>ks. r = Inr ks \<and> set ks = utf8_fix `
        {k \<in> dom (cluster_abs parts members w). owner parts members k = sort members ! seen i}"
    unfolding one(4) by auto
  show ?case
    using one(1,2) rest by (intro exI [of _ w2] exI [of _ "(i, Inr ks) # rs"]) simp
qed simp

lemma errors_none:
  assumes "\<forall>(i, r) \<in> set rs. \<exists>v. r = Inr v"
  shows "errors_of rs = []"
  using assms by (induction rs) (auto simp: errors_of_def)

text \<open>Without an error \<open>Keys\<close> returns the keys of the members its goroutines saw.\<close>

lemma client_keys_collect:
  assumes inv: "cluster_inv parts members w" and a: "net (c_host c) = Some a" "a \<in> set members"
    and net: "\<forall>b \<in> set members. net (addr_text b) = Some b \<and> utf8_valid (addr_text b)"
    and rt: "\<forall>i. rt_ok (env_rt (envs i))" and sched: "keys_schedule (length members) seen is order"
  shows "\<exists>w' ks. client_keys 2 env envs net seen is order w c = Some (w', Inr ks) \<and>
     set ks = utf8_fix ` {k \<in> dom (cluster_abs parts members w).
        \<exists>i < length members. owner parts members k = sort members ! seen i}"
proof -
  let ?K = "\<lambda>i. utf8_fix ` {k \<in> dom (cluster_abs parts members w). owner parts members k = sort members ! seen i}"
  have is_set: "set is = {..<length members}" "set order = {..<length members}" "distinct is"
    using sched unfolding keys_schedule_def
    by (metis set_mset_mset set_upt atLeast0LessThan, metis set_mset_mset set_upt atLeast0LessThan,
        metis mset_eq_imp_distinct_iff distinct_upt)
  have m: "mesh parts members w" using inv by (simp add: cluster_inv_def)
  obtain ns where ns: "client_nodes 2 env net w c = Some (w, Inr ns)" "nodes_listed members ns"
    using client_nodes_mesh [where net = net and c = c, OF m a] net by blast
  have seen: "\<forall>i \<in> set is. seen i < length members"
    using sched is_set(1) by (simp add: keys_schedule_def)
  obtain w' rs where rs: "retrieve_all 2 envs net c ns seen is w = Some (w', rs)" "map fst rs = is"
    "\<forall>(i, r) \<in> set rs. \<exists>ks. r = Inr ks \<and> set ks = ?K i"
    using retrieve_all_seen [OF inv rt _ seen ns(2)] net by blast
  have "errors_of rs = []" by (rule errors_none) (use rs(3) in fastforce)
  then have res: "client_keys 2 env envs net seen is order w c = Some (w', Inr (concat (map (keys_of rs) order)))"
    by (simp add: client_keys_def ns(1) rs(1) join_err_def)
  have "set (keys_of rs i) = ?K i" if "i < length members" for i
  proof -
    have "i \<in> set (map fst rs)" using that by (simp add: rs(2) is_set(1))
    then obtain r where r: "map_of rs i = Some r" by (metis domD dom_map_of_keys)
    then have "(i, r) \<in> set rs" by (rule map_of_SomeD)
    with rs(3) r show ?thesis by (fastforce simp: keys_of_def)
  qed
  then have "set (concat (map (keys_of rs) order)) = (\<Union>i < length members. ?K i)"
    by (simp add: is_set(2))
  also have "\<dots> = utf8_fix ` {k \<in> dom (cluster_abs parts members w).
        \<exists>i < length members. owner parts members k = sort members ! seen i}" by blast
  finally show ?thesis using res by blast
qed

section \<open>Nodes that do not speak HTTP at their addresses\<close>

lemma retrieve_all_refused:
  "\<forall>i \<in> set is. net (cn_addr (ns ! seen i)) = None \<Longrightarrow>
     retrieve_all n envs net c ns seen is w = Some (w, map (\<lambda>i. (i, Inl dial_error)) is)"
  by (induction "is") (simp_all add: client_do_def exchange_def)

lemma client_keys_refused:
  assumes m: "mesh parts members w" and a: "net (c_host c) = Some a" "a \<in> set members"
    and net: "\<forall>b \<in> set members. net (addr_text b) = None \<and> utf8_valid (addr_text b)"
    and sched: "keys_schedule (length members) seen is order"
  shows "client_keys n env envs net seen is order w c =
     Some (w, Inl (env_errorf env (join_text '', '' (replicate (length members) dial_error))))"
proof -
  obtain ns where ns: "client_nodes n env net w c = Some (w, Inr ns)" "nodes_listed members ns"
    using client_nodes_mesh [where net = net and c = c, OF m a] net by blast
  have addrs: "map cn_addr ns = map addr_text (sort members)" using ns(2) by (simp only: nodes_listed_def)
  have "mset is = mset [0..<length members]" using sched unfolding keys_schedule_def by blast
  then have is_len: "length is = length members" "set is = {..<length members}"
    by (metis length_upt diff_zero mset_eq_length, metis set_mset_mset set_upt atLeast0LessThan)
  have "net (cn_addr (ns ! seen i)) = None" if "i \<in> set is" for i
  proof -
    from that is_len(2) sched have i: "seen i < length members" by (simp add: keys_schedule_def)
    have "length ns = length (map cn_addr ns)" by simp
    also have "\<dots> = length members" unfolding addrs by simp
    finally have "cn_addr (ns ! seen i) = map cn_addr ns ! seen i" using i by simp
    also have "\<dots> = addr_text (sort members ! seen i)" using i by (simp add: addrs)
    finally show ?thesis using i net nth_mem [of "seen i" "sort members"] by simp
  qed
  then have "retrieve_all n envs net c ns seen is w = Some (w, map (\<lambda>i. (i, Inl dial_error)) is)"
    by (intro retrieve_all_refused) blast
  moreover have "errors_of (map (\<lambda>i. (i, Inl dial_error :: string + string list)) is) = replicate (length members) dial_error"
    unfolding is_len(1) [symmetric] by (induction "is") (simp_all add: errors_of_def)
  moreover have "members \<noteq> []" using m by (simp add: mesh_def)
  ultimately show ?thesis by (simp add: client_keys_def ns(1) join_err_def)
qed

end
