(* ===== verification/Memhashd.thy ===== *)
theory Memhashd
  imports Cluster_Table
begin

text \<open>
  The program \<open>memhashd.go\<close> up to the start of the storage server: the flags of the command
  line, the configuration \<open>main\<close> makes of them, and the cluster that comes up when every
  member is started that way. As an example, the three containers of \<open>docker-compose.yml\<close>.
\<close>

section \<open>Flags\<close>

record flags =
  fl_join_retries :: int64
  fl_join :: "tcp_addr list"
  fl_server_addr :: tcp_addr
  fl_client_addr :: tcp_addr
  fl_num_partitions :: int64

definition default_flags :: "tcp_addr \<Rightarrow> flags" where
  "default_flags a =
     \<lparr>fl_join_retries = 5, fl_join = [], fl_server_addr = a, fl_client_addr = TCPAddr '':0'',
      fl_num_partitions = 16384\<rparr>"

definition config_of :: "flags \<Rightarrow> config" where
  "config_of fl =
     \<lparr>local_addr = fl_server_addr fl,
      cfg_nodes = map (\<lambda>a. node_zero\<lparr>node_addr := Some a\<rparr>) (fl_join fl),
      num_partitions = fl_num_partitions fl,
      num_retries = fl_join_retries fl\<rparr>"

text \<open>\<open>server.New\<close> and \<open>Start\<close>; the program exits with the error of the latter.\<close>

definition boot ::
    "string \<Rightarrow> (tcp_addr option \<Rightarrow> nat \<Rightarrow> string + conn) \<Rightarrow> (nat \<Rightarrow> string) \<Rightarrow> nat list \<Rightarrow> flags \<Rightarrow>
     (server \<times> string option) res" where
  "boot i dial uuid finish fl =
     (case new_server i (config_of fl) of
        Inl p \<Rightarrow> Inl p
      | Inr s \<Rightarrow> start dial uuid finish s)"

text \<open>
  The HTTP servers of the started nodes by the address each listens at (its client address, without
  TLS).
\<close>

definition http_listeners :: "flags list \<Rightarrow> string \<Rightarrow> tcp_addr option" where
  "http_listeners fls = map_of (map (\<lambda>fl. (addr_text (fl_client_addr fl), fl_server_addr fl)) fls)"

text \<open>Every address of the join flags answers one of the allowed attempts.\<close>

definition peers_answer :: "(tcp_addr option \<Rightarrow> nat \<Rightarrow> string + conn) \<Rightarrow> flags \<Rightarrow> bool" where
  "peers_answer dial fl \<longleftrightarrow>
     (\<forall>p \<in> set (fl_join fl). \<exists>m. int m \<le> sint (fl_join_retries fl) \<and> dial (Some p) m = Inr p \<and>
        (\<forall>k < m. \<exists>e. dial (Some p) k = Inl e))"

lemma peers_answer_reachable:
  assumes "new_server i (config_of fl) = Inr s" and "peers_answer dial fl"
  shows "reachable_peers dial s"
proof -
  from assms(1) have s: "nodes s = map (\<lambda>a. node_zero\<lparr>node_addr := Some a\<rparr>) (fl_join fl)"
    "retries s = fl_join_retries fl"
    by (auto simp: new_server_def config_of_def split: sum.splits)
  have "fst (join_node (dial (Some p)) s (node_zero\<lparr>node_addr := Some p\<rparr>)) = Inr p"
    if "p \<in> set (fl_join fl)" for p
  proof -
    from assms(2) that obtain m where m: "int m \<le> sint (fl_join_retries fl)" "dial (Some p) m = Inr p"
      "\<And>k. k < m \<Longrightarrow> \<exists>e. dial (Some p) k = Inl e"
      unfolding peers_answer_def by blast
    have "join_loop (dial (Some p)) a (sint (fl_join_retries fl)) 0 b [] =
        (Inr p, [] @ map (\<lambda>k. b * 2 ^ k) [0..<m - 0])" for a b
      by (rule join_loop_success) (use m in auto)
    then show ?thesis by (simp add: join_node_def s(2))
  qed
  then show ?thesis by (auto simp: reachable_peers_def s(1))
qed

text \<open>A store that nothing was put into: no record, and no expiration to come.\<close>

definition blank :: "store \<Rightarrow> bool" where
  "blank st \<longleftrightarrow> store_abs st = Map.empty \<and> expire_heap st = []"

lemma new_server_result:
  assumes "0 < sint (num_partitions cfg)" and "sint (num_partitions cfg) < 2 ^ 32"
  shows "\<exists>s. new_server i cfg = Inr s \<and> blank (sstore s)"
proof -
  from new_ring_inv [OF assms] obtain r :: "nat ring" where "new_ring (num_partitions cfg) = Inr r"
    by blast
  with assms show ?thesis
    by (auto simp: new_server_def new_store_def blank_def store_abs_def table_simps new_time_heap_def)
qed

lemma boot_mesh:
  assumes parts: "fl_num_partitions fl = parts" "0 < sint parts" "sint parts < 2 ^ 32"
    and other: "fl_server_addr fl \<notin> set (fl_join fl)"
    and dial: "peers_answer dial fl" and fin: "set finish = {0..<length (fl_join fl)}"
  shows "\<exists>s. boot i dial uuid finish fl = Inr (s, None) \<and> laddr s = fl_server_addr fl \<and>
     mesh_node (nat (sint parts)) (fl_server_addr fl # fl_join fl) s \<and> blank (sstore s)"
proof -
  let ?cfg = "config_of fl"
  have p: "num_partitions ?cfg = parts" by (simp add: config_of_def parts(1))
  obtain s0 where s0: "new_server i ?cfg = Inr s0" "blank (sstore s0)"
    using new_server_result [of ?cfg i] parts(2,3) p by auto
  have "map node_addr (cfg_nodes ?cfg) = map Some (fl_join fl)"
    by (simp add: config_of_def comp_def)
  from start_mesh [OF s0(1) _ _ this _ peers_answer_reachable [OF s0(1) dial] fin, of uuid]
  have "\<exists>s. start dial uuid finish s0 = Inr (s, None) \<and> laddr s = local_addr ?cfg \<and>
      mesh_node (nat (sint parts)) (local_addr ?cfg # fl_join fl) s \<and> sstore s = sstore s0"
    using parts(2,3) p other by (simp add: config_of_def)
  with s0 show ?thesis by (auto simp: boot_def config_of_def)
qed

lemma mesh_node_members:
  "mset members = mset members' \<Longrightarrow> mesh_node parts members s = mesh_node parts members' s"
  using mset_eq_setD [of members members'] properties_for_sort [of "sort members'" members]
  by (simp add: mesh_node_def)

section \<open>A cluster of started members\<close>

type_synonym network = "tcp_addr \<Rightarrow> tcp_addr option \<Rightarrow> nat \<Rightarrow> string + conn"

text \<open>Each member with the outcomes of its dials, its identifiers and the order of its joins.\<close>

definition boot_member ::
    "(tcp_addr \<Rightarrow> string) \<Rightarrow> network \<Rightarrow> (tcp_addr \<Rightarrow> nat \<Rightarrow> string) \<Rightarrow> (tcp_addr \<Rightarrow> nat list) \<Rightarrow>
     flags \<Rightarrow> server option" where
  "boot_member i dial uuid finish fl =
     (let a = fl_server_addr fl
      in case boot (i a) (dial a) (uuid a) (finish a) fl of
           Inr (s, None) \<Rightarrow> Some s
         | _ \<Rightarrow> None)"

definition boot_world ::
    "(tcp_addr \<Rightarrow> string) \<Rightarrow> network \<Rightarrow> (tcp_addr \<Rightarrow> nat \<Rightarrow> string) \<Rightarrow> (tcp_addr \<Rightarrow> nat list) \<Rightarrow>
     flags list \<Rightarrow> world" where
  "boot_world i dial uuid finish fls =
     \<lparr>servers = map_of (concat (map (\<lambda>fl.
        case boot_member i dial uuid finish fl of
          Some s \<Rightarrow> [(fl_server_addr fl, s)]
        | None \<Rightarrow> []) fls)),
      closed = []\<rparr>"

text \<open>Flags that describe one and the same cluster: each member joins all the others.\<close>

definition same_cluster :: "int64 \<Rightarrow> flags list \<Rightarrow> bool" where
  "same_cluster parts fls \<longleftrightarrow> fls \<noteq> [] \<and> distinct (map fl_server_addr fls) \<and>
     list_all (\<lambda>fl. fl_num_partitions fl = parts \<and>
       mset (fl_server_addr fl # fl_join fl) = mset (map fl_server_addr fls)) fls"

lemma boot_world_servers:
  assumes "distinct (map fl_server_addr fls)"
    and up: "\<And>fl. fl \<in> set fls \<Longrightarrow> boot_member i dial uuid finish fl = Some (srv fl)"
    and "fl \<in> set fls"
  shows "servers (boot_world i dial uuid finish fls) (fl_server_addr fl) = Some (srv fl)"
proof -
  have "servers (boot_world i dial uuid finish fls) =
      map_of (concat (map (\<lambda>fl. [(fl_server_addr fl, srv fl)]) fls))"
    unfolding boot_world_def world.simps
    by (rule arg_cong [where f = "\<lambda>xss. map_of (concat xss)"], rule map_cong) (simp_all add: up)
  also have "concat (map (\<lambda>fl. [(fl_server_addr fl, srv fl)]) fls) = map (\<lambda>fl. (fl_server_addr fl, srv fl)) fls"
    by (induction fls) auto
  finally show ?thesis
    using assms(1,3) by (simp add: map_of_eq_Some_iff comp_def)
qed

lemma same_cluster_member:
  assumes "same_cluster parts fls" and "fl \<in> set fls"
  shows "fl_num_partitions fl = parts" "fl_server_addr fl \<notin> set (fl_join fl)"
    "mset (fl_server_addr fl # fl_join fl) = mset (map fl_server_addr fls)"
proof -
  from assms show "fl_num_partitions fl = parts"
    and ms: "mset (fl_server_addr fl # fl_join fl) = mset (map fl_server_addr fls)"
    by (simp_all add: same_cluster_def list_all_iff)
  have "distinct (fl_server_addr fl # fl_join fl)"
    using assms(1) mset_eq_imp_distinct_iff [OF ms] by (simp add: same_cluster_def)
  then show "fl_server_addr fl \<notin> set (fl_join fl)" by simp
qed

lemma boot_member_mesh:
  assumes same: "same_cluster parts fls" and parts: "0 < sint parts" "sint parts < 2 ^ 32"
    and fl: "fl \<in> set fls" and dial: "peers_answer (dial (fl_server_addr fl)) fl"
    and fin: "set (finish (fl_server_addr fl)) = {0..<length (fl_join fl)}"
  shows "\<exists>s. boot_member i dial uuid finish fl = Some s \<and> laddr s = fl_server_addr fl \<and>
     mesh_node (nat (sint parts)) (map fl_server_addr fls) s \<and> blank (sstore s)"
proof -
  let ?a = "fl_server_addr fl"
  from boot_mesh [OF same_cluster_member(1) [OF same fl] parts same_cluster_member(2) [OF same fl] dial fin,
      of "i ?a" "uuid ?a"]
  obtain s where "boot (i ?a) (dial ?a) (uuid ?a) (finish ?a) fl = Inr (s, None)" "laddr s = ?a"
    "mesh_node (nat (sint parts)) (?a # fl_join fl) s" "blank (sstore s)" by blast
  then show ?thesis
    by (simp add: boot_member_def flip: mesh_node_members [OF same_cluster_member(3) [OF same fl]])
qed

lemma boot_world_inv:
  assumes same: "same_cluster parts fls" and parts: "0 < sint parts" "sint parts < 2 ^ 32"
    and dial: "\<forall>fl \<in> set fls. peers_answer (dial (fl_server_addr fl)) fl"
    and fin: "\<forall>fl \<in> set fls. set (finish (fl_server_addr fl)) = {0..<length (fl_join fl)}"
  shows "cluster_inv (nat (sint parts)) (map fl_server_addr fls) (boot_world i dial uuid finish fls) \<and>
     cluster_abs (nat (sint parts)) (map fl_server_addr fls) (boot_world i dial uuid finish fls) = Map.empty \<and>
     (\<forall>a \<in> set (map fl_server_addr fls). \<forall>s. servers (boot_world i dial uuid finish fls) a = Some s \<longrightarrow>
        blank (sstore s))"
proof -
  let ?ms = "map fl_server_addr fls" and ?p = "nat (sint parts)"
  let ?w = "boot_world i dial uuid finish fls"
  define srv where "srv fl = the (boot_member i dial uuid finish fl)" for fl
  have dist: "distinct ?ms" using same by (simp add: same_cluster_def)
  have up: "boot_member i dial uuid finish fl = Some (srv fl)" "laddr (srv fl) = fl_server_addr fl"
    "mesh_node ?p ?ms (srv fl)" "blank (sstore (srv fl))" if "fl \<in> set fls" for fl
  proof -
    from dial fin that have "peers_answer (dial (fl_server_addr fl)) fl"
      "set (finish (fl_server_addr fl)) = {0..<length (fl_join fl)}" by simp_all
    from boot_member_mesh [where dial = dial and finish = finish and i = i and uuid = uuid,
        OF same parts that this]
    show "boot_member i dial uuid finish fl = Some (srv fl)" "laddr (srv fl) = fl_server_addr fl"
      "mesh_node ?p ?ms (srv fl)" "blank (sstore (srv fl))"
      by (auto simp: srv_def)
  qed
  have at: "servers ?w (fl_server_addr fl) = Some (srv fl)" if "fl \<in> set fls" for fl
    by (rule boot_world_servers [OF dist up(1) that])
  have "mesh ?p ?ms ?w"
    using same dist up at by (auto simp: mesh_def list_all_iff same_cluster_def boot_world_def)
  moreover have "cluster_abs ?p ?ms ?w = Map.empty"
  proof
    fix k
    have "owner ?p ?ms k \<in> set ?ms" using same by (intro owner_member) (simp add: same_cluster_def)
    then show "cluster_abs ?p ?ms ?w k = None" using at up by (auto simp: cluster_abs_def blank_def)
  qed
  moreover have "placed ?p ?ms ?w"
    unfolding placed_def using at up by (auto simp: blank_def)
  moreover have "\<forall>a \<in> set ?ms. \<forall>s. servers ?w a = Some s \<longrightarrow> blank (sstore s)"
    using at up(4) by auto
  ultimately show ?thesis by (simp add: cluster_inv_def good_table_def)
qed

section \<open>The containers of docker-compose.yml\<close>

abbreviation node1 :: tcp_addr where "node1 \<equiv> TCPAddr ''172.16.239.10:2371''"
abbreviation node2 :: tcp_addr where "node2 \<equiv> TCPAddr ''172.16.239.20:2372''"
abbreviation node3 :: tcp_addr where "node3 \<equiv> TCPAddr ''172.16.239.30:2373''"

definition compose_flags :: "flags list" where
  "compose_flags =
     [(default_flags node1)\<lparr>fl_join := [node2, node3], fl_client_addr := TCPAddr ''172.16.239.10:8001''\<rparr>,
      (default_flags node2)\<lparr>fl_join := [node1, node3], fl_client_addr := TCPAddr ''172.16.239.20:8002''\<rparr>,
      (default_flags node3)\<lparr>fl_join := [node1, node2], fl_client_addr := TCPAddr ''172.16.239.30:8003''\<rparr>]"

text \<open>Every dial succeeds at once but the first to \<open>node3\<close>.\<close>

fun compose_dial :: "tcp_addr option \<Rightarrow> nat \<Rightarrow> string + conn" where
  "compose_dial (Some a) n =
     (if a = node3 \<and> n = 0 then Inl ''connection refused'' else Inr a)"
| "compose_dial None n = Inl ''missing address''"

definition compose_world :: world where
  "compose_world =
     boot_world (\<lambda>_. ''id'') (\<lambda>_. compose_dial) (\<lambda>_ _. ''uuid'') (\<lambda>_. [1, 0]) compose_flags"

abbreviation compose_members :: "tcp_addr list" where
  "compose_members \<equiv> [node1, node2, node3]"

lemma compose_same: "same_cluster 16384 compose_flags"
  by (simp add: same_cluster_def compose_flags_def default_flags_def)

lemma compose_answers: "fl \<in> set compose_flags \<Longrightarrow> peers_answer compose_dial fl"
proof -
  assume "fl \<in> set compose_flags"
  then have "fl_join_retries fl = 5" by (auto simp: compose_flags_def default_flags_def)
  then show ?thesis
    unfolding peers_answer_def by (intro ballI exI [of _ "if p = node3 then 1 else 0" for p]) auto
qed

lemma compose_finish: "\<forall>fl \<in> set compose_flags. set [1, 0] = {0..<length (fl_join fl)}"
  by (auto simp: compose_flags_def default_flags_def)

lemma compose_inv:
  "cluster_inv 16384 compose_members compose_world"
  "cluster_abs 16384 compose_members compose_world = Map.empty"
proof -
  have "map fl_server_addr compose_flags = compose_members"
    by (simp add: compose_flags_def default_flags_def)
  with boot_world_inv [OF compose_same, of "\<lambda>_. compose_dial" "\<lambda>_. [1, 0]" "\<lambda>_. ''id''" "\<lambda>_ _. ''uuid''"]
  show "cluster_inv 16384 compose_members compose_world"
    "cluster_abs 16384 compose_members compose_world = Map.empty"
    using compose_answers compose_finish by (simp_all add: compose_world_def)
qed

end
