(* ===== verification/Http_Api.thy ===== *)
theory Http_Api
  imports Client_Keys Memhashd
begin

text \<open>
  The properties of the HTTP interface and its client: what the multiplexer and the handlers answer,
  the cluster as its clients see it, and the cases in which they do not see it right.
\<close>

section \<open>Answers of the handlers\<close>

text \<open>C21. The multiplexer with the registered patterns decides as one function of the method and the
  segments of the path; the key goes in front of the query.\<close>

theorem api_routes: "serve_mux api_mux r = api_route r"
  by (rule serve_mux_route)

text \<open>The options of a request that its handler cannot decode.\<close>

definition body_rejected :: "rest_env \<Rightarrow> handler \<Rightarrow> http_request \<Rightarrow> bool" where
  "body_rejected env h r \<longleftrightarrow> h \<noteq> NodesHandler \<and> rest_request env h r = None"

definition reply_typed :: "handler \<Rightarrow> body http_response \<Rightarrow> bool" where
  "reply_typed h resp \<longleftrightarrow>
     (case hreply resp of
        NoReply \<Rightarrow> hstatus resp = 200
      | TextReply t \<Rightarrow> False
      | JsonReply (BError t) \<Rightarrow> True
      | JsonReply (BKeys ks) \<Rightarrow> hstatus resp = 200 \<and> h = KeysHandler
      | JsonReply (BNodes ns) \<Rightarrow> hstatus resp = 200 \<and> h = NodesHandler
      | JsonReply (BResponse c) \<Rightarrow>
          hstatus resp = 200 \<and> h \<noteq> KeysHandler \<and> h \<noteq> NodesHandler \<and> cr_action c = handler_action h)"

lemma reply_typed_simps [simp]:
  "reply_typed h (error_reply prefix t resp)"
  "reply_typed KeysHandler (keys_ok s resp)"
  "h \<noteq> KeysHandler \<Longrightarrow> h \<noteq> NodesHandler \<Longrightarrow> reply_typed h (record_ok h s resp)"
  using action_fix [of h]
  by (auto simp: reply_typed_def error_reply_def keys_ok_def record_ok_def record_body_def split: option.split)

lemma serve_do_typed:
  assumes "serve_do n env w a req fail ok = Some (w', Served resp)"
    and "\<And>t r. reply_typed h (fail t r)" and "\<And>s r. reply_typed h (ok s r)"
  shows "reply_typed h resp"
  using assms by (auto simp: serve_do_def split: option.splits sum.splits)

lemma run_handler_typed:
  assumes run: "run_handler n env w a h r = Some (w', Served resp)"
    and types: "supported (hcontent_type r)" "supported (haccept r)" and body: "\<not> body_rejected env h r"
  shows "reply_typed h resp"
proof -
  have format: "format r = Inr (JSONFormatter, JSONFormatter)" using types by (simp add: format_result)
  consider "h = KeysHandler" | "h = NodesHandler" | "h \<noteq> KeysHandler" "h \<noteq> NodesHandler" by auto
  then show ?thesis
  proof cases
    case 1
    with run keys_handler_run [OF format, of n env w a] show ?thesis
      by (auto intro: serve_do_typed)
  next
    case 2
    with run show ?thesis by (auto simp: nodes_handler_def format reply_typed_def split: option.splits)
  next
    case 3
    with body obtain req where "rest_request env h r = Some req" by (auto simp: body_rejected_def)
    from record_handler_run [OF format this 3(1), of n w a] obtain prefix where
      "run_handler n env w a h r = serve_do n env w a req (error_reply prefix) (record_ok h)" by blast
    with run 3 show ?thesis by (auto intro: serve_do_typed)
  qed
qed

text \<open>What is wrong with a request is found out before the storage is asked.\<close>

lemma run_handler_rejects:
  "\<not> supported (hcontent_type r) \<Longrightarrow> servers w a \<noteq> None \<Longrightarrow> run_handler n env w a h r = Some (w, Served (header_only 415))"
  "supported (hcontent_type r) \<Longrightarrow> \<not> supported (haccept r) \<Longrightarrow> servers w a \<noteq> None \<Longrightarrow>
     run_handler n env w a h r = Some (w, Served (header_only 406))"
  "supported (hcontent_type r) \<Longrightarrow> supported (haccept r) \<Longrightarrow> body_rejected env h r \<Longrightarrow>
     \<exists>t. run_handler n env w a h r = Some (w, Served \<lparr>hstatus = 400, hreply = JsonReply (BError t)\<rparr>)"
  by (cases h; auto simp: keys_handler_def load_handler_def store_handler_def delete_handler_def index_handler_def
      item_handler_def nodes_handler_def format_result Let_def body_rejected_def read_req_def
      simp del: read_body.simps split: sum.splits)+

text \<open>C22. Every answer fits its route: 405 and 404 in text for an unknown method or path, 415, 406 and 400
  before the storage is touched, and otherwise an error, or status 200 with the kind of body the
  operation returns.\<close>

theorem replies_typed:
  assumes "serve_http n env w a r = Some (w', Served resp)" and "servers w a = Some s"
  shows "case api_route r of
       NotAllowed \<Rightarrow> resp = not_allowed \<and> w' = w
     | NotFound \<Rightarrow> resp = not_found \<and> w' = w
     | Dispatch h r' \<Rightarrow>
         (if \<not> supported (hcontent_type r') then resp = header_only 415 \<and> w' = w
          else if \<not> supported (haccept r') then resp = header_only 406 \<and> w' = w
          else if body_rejected env h r' then
            hstatus resp = 400 \<and> (\<exists>t. hreply resp = JsonReply (BError t)) \<and> w' = w
          else reply_typed h resp)"
proof (cases "api_route r")
  case (Dispatch h r')
  with assms(1) have run: "run_handler n env w a h r' = Some (w', Served resp)"
    by (simp add: serve_http_def serve_mux_route)
  then show ?thesis
    using assms(2) run_handler_rejects [where r = r' and w = w and a = a and n = n and env = env and h = h] run_handler_typed [OF run] by (auto simp: Dispatch)
qed (use assms(1) in \<open>simp_all add: serve_http_def serve_mux_route\<close>)

section \<open>An example cluster\<close>

text \<open>The containers of \<open>docker-compose.yml\<close>, without TLS, and runs at a clock that stands.\<close>

definition demo_env :: "time \<Rightarrow> rest_env" where
  "demo_env t = \<lparr>env_rt = rt_at t, env_errorf = (\<lambda>t. t), env_frac = (\<lambda>f un scale. f * un div scale), env_uuid = ''id''\<rparr>"

lemma demo_env_ok:
  "rt_ok (env_rt (demo_env t))" "frac_exact (env_frac (demo_env t))" "utf8_valid (env_uuid (demo_env t))"
  "env_rt (demo_env t) = rt_at t" "env_errorf (demo_env t) = (\<lambda>t. t)"
  by (simp_all add: demo_env_def frac_exact_div utf8_valid_ascii)

abbreviation http1 :: client where "http1 \<equiv> new_client ''172.16.239.10:8001''"
abbreviation http2 :: client where "http2 \<equiv> new_client ''172.16.239.20:8002''"
abbreviation http3 :: client where "http3 \<equiv> new_client ''172.16.239.30:8003''"

lemma compose_listeners:
  "http_listeners compose_flags (c_host http1) = Some node1"
  "http_listeners compose_flags (c_host http2) = Some node2"
  "http_listeners compose_flags (c_host http3) = Some node3"
  by (simp_all add: http_listeners_def compose_flags_def default_flags_def new_client_def)

lemma compose_server: "\<exists>s. servers compose_world node1 = Some s"
  using mesh_server [of 16384 compose_members compose_world node1] compose_inv(1)
  by (auto simp: cluster_inv_def)

lemma demo_key: "plain_key ''k''"
  by (simp add: plain_key_def query_plain_def utf8_valid_ascii)

theorem replies_typed_witness:
  "\<exists>s. servers compose_world node1 = Some s \<and>
     serve_http 2 (demo_env 10) compose_world node1 (wire_http ''PUT'' ''/v1/keys/k'' None) =
       Some (compose_world, Served \<lparr>hstatus = 400,
         hreply = JsonReply (BError ''failed to read request body, EOF'')\<rparr>)"
proof -
  let ?r = "wire_http ''PUT'' ''/v1/keys/k'' None"
  obtain s where s: "servers compose_world node1 = Some s" using compose_server by blast
  have route: "api_route ?r = Dispatch StoreHandler (?r\<lparr>hquery := ''key=k&''\<rparr>)"
    by (simp add: api_route_def wire_http_def)
  have valid: "utf8_fix ''failed to read request body, EOF'' = ''failed to read request body, EOF''"
    by (rule utf8_fix_valid, rule utf8_valid_ascii) simp
  have "run_handler 2 (demo_env 10) compose_world node1 StoreHandler (?r\<lparr>hquery := ''key=k&''\<rparr>) =
      Some (compose_world, Served \<lparr>hstatus = 400, hreply = JsonReply (BError ''failed to read request body, EOF'')\<rparr>)"
    using valid by (simp add: store_handler_def read_req_def format_result wire_http_def supported_def)
  then have run: "serve_http 2 (demo_env 10) compose_world node1 ?r = Some (compose_world, Served \<lparr>hstatus = 400,
      hreply = JsonReply (BError ''failed to read request body, EOF'')\<rparr>)"
    by (simp only: serve_http_def serve_mux_route route dispatch.case)
  from replies_typed [OF run s] run s show ?thesis by blast
qed

section \<open>The cluster behind its clients\<close>

text \<open>C12. One HTTP request with supported formats whose handler gets a good request has the outcome of
  the abstract table: its status, and its error, listing or record as the body.\<close>

theorem http_serves_table:
  assumes "cluster_inv parts members w" and "a \<in> set members" and "rt_ok (env_rt env)"
    and "api_route r = Dispatch h r'" and "supported (hcontent_type r')" and "supported (haccept r')"
    and "rest_request env h r' = Some req" and "good_request req"
  shows "\<exists>w' out resp. serve_http 2 env w a r = Some (w', Served resp) \<and>
     table_step (\<lambda>k. owner parts members k = a) (env_rt env) req
       (cluster_abs parts members w) (cluster_abs parts members w', out) \<and>
     http_answers h out resp \<and> cluster_inv parts members w'"
  by (rule rest_step [OF assms])

theorem http_serves_table_witness:
  "\<exists>w' out resp. serve_http 2 (demo_env 10) compose_world node2 (wire_http ''GET'' ''/v1/keys'' None) = Some (w', Served resp) \<and>
     table_step (\<lambda>k. owner 16384 compose_members k = node2) (rt_at 10) (RequestKeys ''id'')
       (cluster_abs 16384 compose_members compose_world) (cluster_abs 16384 compose_members w', out) \<and>
     http_answers KeysHandler out resp \<and> cluster_inv 16384 compose_members w'"
  using http_serves_table [OF compose_inv(1) _ demo_env_ok(1) keys_route, of node2 10 "RequestKeys ''id''"]
  by (simp add: demo_env_def wire_http_def supported_def)


definition demo_calls :: "(rest_env \<times> client \<times> client_op) list" where
  "demo_calls =
     [(demo_env 10, http1, OpStore ''k'' (VSlice TyInterface [VBool True]) 5400000000000),
      (demo_env 20, http2, OpListIndex ''k'' 0),
      (demo_env 30, http3, OpDictItem ''k'' (VString ''x'')),
      (demo_env 40, http2, OpDelete ''k''),
      (demo_env 50, http1, OpLoad ''k'')]"

lemma demo_calls_ok: "calls_ok (http_listeners compose_flags) compose_members demo_calls"
  using compose_listeners
  by (simp add: calls_ok_def demo_calls_def demo_env_ok demo_key good_data_def printable_def utf8_valid_ascii)

lemma compose_flag_addrs: "map fl_server_addr compose_flags = compose_members"
  by (simp add: compose_flags_def default_flags_def)


text \<open>What a client stores under a plain key through one node, another client loads through any
  other: the same data, and the metadata the store returned.\<close>

theorem client_store_load:
  assumes inv: "cluster_inv parts members w" "printable_table (cluster_abs parts members w)"
    and a: "net (c_host c) = Some a" "a \<in> set members" and b: "net (c_host c') = Some b" "b \<in> set members"
    and env: "rt_ok (env_rt env)" "frac_exact (env_frac env)" "utf8_valid (env_uuid env)"
    and env': "rt_ok (env_rt env')" "frac_exact (env_frac env')" "utf8_valid (env_uuid env')"
    and op: "plain_key k" "good_data d" "sint e \<le> 0" "sint e \<noteq> - (2 ^ 63)"
  shows "\<exists>w1 w2 r1 r2.
     client_store 2 env net w c \<lparr>so_key = k, so_data = d, so_expire = e\<rparr> = Some (w1, Inr r1) \<and>
     client_load 2 env' net w1 c' \<lparr>lo_key = k\<rparr> = Some (w2, Inr r2) \<and>
     cr_data r2 = d \<and> cr_meta r2 = (cr_meta r1)\<lparr>cm_accessed := now_at (env_rt env') 0\<rparr>"
proof -
  have ok: "op_ok (OpStore k d e)" "op_ok (OpLoad k)" using op by (simp_all add: printable_def)
  obtain w1 out1 r1 where one: "client_store 2 env net w c \<lparr>so_key = k, so_data = d, so_expire = e\<rparr> = Some (w1, r1)"
    "table_step (\<lambda>x. owner parts members x = a) (env_rt env) (RequestStore (env_uuid env) e k d)
       (cluster_abs parts members w) (cluster_abs parts members w1, out1)"
    "client_answers (OpStore k d e) out1 r1" "cluster_inv parts members w1"
    "printable_table (cluster_abs parts members w1)"
    using client_step [where net = net and c = c, OF inv(1) a env ok(1) inv(2)] by auto
  obtain w2 out2 r2 where two: "client_load 2 env' net w1 c' \<lparr>lo_key = k\<rparr> = Some (w2, r2)"
    "table_step (\<lambda>x. owner parts members x = b) (env_rt env') (RequestLoad (env_uuid env') k)
       (cluster_abs parts members w1) (cluster_abs parts members w2, out2)"
    "client_answers (OpLoad k) out2 r2"
    using client_step [where net = net and c = c', OF one(4) b env' ok(2) one(5)] by auto
  let ?r = "stored_request (env_rt env) (cluster_abs parts members w k) e d"
  have out1: "out1 = Inr (Inr ?r)" and at: "cluster_abs parts members w1 k = Some ?r"
    using one(2) by (simp_all add: Let_def)
  have "is_permanent ?r" using op(3) by (simp add: is_permanent_def record_zero_def meta_zero_def)
  then have "out2 = Inr (Inr (touch (now_at (env_rt env') 0) ?r))"
    using two(2) at by (simp add: table_read_def table_load_def is_expired_def)
  with one(1,3) two(1,3) out1 show ?thesis
    by (auto simp: client_answers_def record_meta_def touch_def record_zero_def stored_def)
qed

theorem client_store_load_witness:
  "\<exists>w1 w2 r1 r2.
     client_store 2 (demo_env 10) (http_listeners compose_flags) compose_world http1
       \<lparr>so_key = ''k'', so_data = VBool True, so_expire = 0\<rparr> = Some (w1, Inr r1) \<and>
     client_load 2 (demo_env 20) (http_listeners compose_flags) w1 http3 \<lparr>lo_key = ''k''\<rparr> = Some (w2, Inr r2) \<and>
     cr_data r2 = VBool True \<and> cr_meta r2 = (cr_meta r1)\<lparr>cm_accessed := 20\<rparr>"
proof -
  have "printable_table (cluster_abs 16384 compose_members compose_world)"
    by (simp add: compose_inv(2) printable_table_def)
  from client_store_load [where net = "http_listeners compose_flags", OF compose_inv(1) this compose_listeners(1) _
      compose_listeners(3) _ demo_env_ok(1,2,3) [of 10] demo_env_ok(1,2,3) [of 20] demo_key, of "VBool True" 0]
  show ?thesis by (simp add: demo_env_ok good_data_def)
qed

section \<open>Keys that do not arrive\<close>

text \<open>C29. A key with special characters is read as another: the part before the first \<open>&\<close> or \<open>;\<close>, with
  a plus as a blank and escapes decoded. Two keys, neither empty and neither with a slash, that are
  read as the same are one key to the client: each of its operations on the one is that operation on
  the other, at the same node and with the same result. A key of plain characters is read as itself.\<close>

theorem client_keys_collide:
  assumes "k \<noteq> []" and "CHR ''/'' \<notin> set k" and "k' \<noteq> []" and "CHR ''/'' \<notin> set k'"
    and "key_read k = Some x" and "key_read k' = Some x"
  shows "client_call n env net w c (OpStore k d e) = client_call n env net w c (OpStore k' d e) \<and>
     client_call n env net w c (OpLoad k) = client_call n env net w c (OpLoad k') \<and>
     client_call n env net w c (OpDelete k) = client_call n env net w c (OpDelete k') \<and>
     client_call n env net w c (OpListIndex k ix) = client_call n env net w c (OpListIndex k' ix) \<and>
     client_call n env net w c (OpDictItem k item) = client_call n env net w c (OpDictItem k' item) \<and>
     (plain_key x \<longrightarrow> key_read x = Some x)"
  using call_key_read [OF assms, of n env net w c "OpStore k d e"] call_key_read [OF assms, of n env net w c "OpLoad k"]
    call_key_read [OF assms, of n env net w c "OpDelete k"] call_key_read [OF assms, of n env net w c "OpListIndex k ix"]
    call_key_read [OF assms, of n env net w c "OpDictItem k item"] key_read_plain
  by simp

theorem client_keys_collide_witness:
  "client_call 2 (demo_env 10) (http_listeners compose_flags) compose_world http1 (OpListIndex ''a+b&c'' 0) =
   client_call 2 (demo_env 10) (http_listeners compose_flags) compose_world http1 (OpListIndex ''a b'' 0)"
proof -
  have "key_read ''a+b&c'' = Some ''a b''" "key_read ''a b'' = Some ''a b''"
    by (simp_all add: key_read_def query_break_def unescape.simps(2))
  then show ?thesis using client_keys_collide [of "''a+b&c''" "''a b''" "''a b''"] by simp
qed

section \<open>Listing the keys\<close>

text \<open>Were there an HTTP server at the peer-to-peer address of every node, \<open>Keys\<close> would return the keys
  of the members its goroutines saw in the loop variable they share, so when all of them saw the
  last node, only the keys of that node.\<close>

theorem client_keys_seen:
  assumes "cluster_inv parts members w" and "net (c_host c) = Some a" and "a \<in> set members"
    and "\<forall>b \<in> set members. net (addr_text b) = Some b \<and> utf8_valid (addr_text b)"
    and "\<forall>i. rt_ok (env_rt (envs i))" and "keys_schedule (length members) seen is order"
  shows "\<exists>w' ks. client_keys 2 env envs net seen is order w c = Some (w', Inr ks) \<and>
     set ks = utf8_fix ` {k \<in> dom (cluster_abs parts members w).
        \<exists>i < length members. owner parts members k = sort members ! seen i}"
  by (rule client_keys_collect [where net = net and c = c, OF assms])

text \<open>C33. \<open>Client.Keys\<close> sends its requests to the peer-to-peer addresses that the nodes list. Where no
  HTTP server listens at any of them, as in every cluster of this program, whose nodes serve HTTP at
  another address, it always fails, with one error for each node, and lists nothing, in whatever
  order its goroutines run and whatever is stored.\<close>

theorem client_keys_fails:
  assumes "mesh parts members w" and "net (c_host c) = Some a" and "a \<in> set members"
    and "\<forall>b \<in> set members. net (addr_text b) = None \<and> utf8_valid (addr_text b)"
    and "keys_schedule (length members) seen is order"
  shows "client_keys n env envs net seen is order w c =
     Some (w, Inl (env_errorf env (join_text '', '' (replicate (length members) dial_error))))"
  by (rule client_keys_refused [where net = net and c = c, OF assms])

lemma compose_addr_valid: "\<forall>b \<in> set compose_members. utf8_valid (addr_text b)"
  by (simp add: utf8_valid_ascii)

lemma compose_length: "length compose_members = 3"
  by simp

lemma compose_schedule: "keys_schedule (length compose_members) (\<lambda>_. 2) [2, 0, 1] [2, 0, 1]"
  by (simp add: keys_schedule_def upt_rec numeral_eq_Suc)

theorem client_keys_seen_witness:
  "\<exists>w' ks. client_keys 2 (demo_env 0) (\<lambda>_. demo_env 1) (Some \<circ> TCPAddr) (\<lambda>_. 2) [2, 0, 1] [2, 0, 1] compose_world
       (new_client (addr_text node1)) = Some (w', Inr ks) \<and>
     set ks = utf8_fix ` {k \<in> dom (cluster_abs 16384 compose_members compose_world).
        \<exists>i < 3 :: nat. owner 16384 compose_members k = sort compose_members ! 2}"
proof -
  have "\<forall>b \<in> set compose_members. (Some \<circ> TCPAddr) (addr_text b) = Some b \<and> utf8_valid (addr_text b)"
    using compose_addr_valid by simp
  moreover have "(Some \<circ> TCPAddr) (c_host (new_client (addr_text node1))) = Some node1"
    by (simp add: new_client_def)
  ultimately have "\<exists>w' ks. client_keys 2 (demo_env 0) (\<lambda>_. demo_env 1) (Some \<circ> TCPAddr) (\<lambda>_. 2) [2, 0, 1] [2, 0, 1]
      compose_world (new_client (addr_text node1)) = Some (w', Inr ks) \<and>
     set ks = utf8_fix ` {k \<in> dom (cluster_abs 16384 compose_members compose_world).
        \<exists>i < length compose_members. owner 16384 compose_members k = sort compose_members ! 2}"
    by (intro client_keys_seen [where net = "Some \<circ> TCPAddr" and c = "new_client (addr_text node1)" and a = node1
        and seen = "\<lambda>_. 2", OF compose_inv(1) _ _ _ _ compose_schedule]) (simp_all add: demo_env_ok)
  then show ?thesis by (simp only: compose_length)
qed

theorem client_keys_fails_witness:
  "client_keys 2 (demo_env 0) (\<lambda>_. demo_env 1) (http_listeners compose_flags) (\<lambda>_. 2) [2, 0, 1] [2, 0, 1] compose_world http1 =
     Some (compose_world, Inl (join_text '', '' (replicate 3 dial_error)))"
proof -
  have m: "mesh 16384 compose_members compose_world" using compose_inv(1) by (simp add: cluster_inv_def)
  have "\<forall>b \<in> set compose_members. http_listeners compose_flags (addr_text b) = None \<and> utf8_valid (addr_text b)"
    using compose_addr_valid by (simp add: http_listeners_def compose_flags_def default_flags_def)
  then have "client_keys 2 (demo_env 0) (\<lambda>_. demo_env 1) (http_listeners compose_flags) (\<lambda>_. 2) [2, 0, 1] [2, 0, 1]
      compose_world http1 = Some (compose_world, Inl (env_errorf (demo_env 0)
        (join_text '', '' (replicate (length compose_members) dial_error))))"
    by (intro client_keys_fails [where net = "http_listeners compose_flags" and c = http1,
        OF m compose_listeners(1) _ _ compose_schedule]) simp_all
  then show ?thesis by (simp only: demo_env_ok compose_length)
qed

end
