(* ===== verification/Concurrent.thy ===== *)
theory Concurrent
  imports Cluster_Table Store_Machine
begin

text \<open>
  The cluster as a concurrent program (\<open>server/server.go\<close>). Every call of \<open>Do\<close> is a goroutine of its
  own: those of the callers, and one \<open>handle\<close> loop for each connection, which calls \<open>Do\<close> for the
  event it has read. A step is what happens between two points at which another goroutine can
  interfere: the choice of the node, the critical section of the store, the writing and the
  reading of a message, each connection being a queue in either direction. \<open>roundTrip\<close> holds the
  mutex of the node from before the write until after the read. The timers of the stores run
  beside all this, with the steps of theory \<open>Store_Machine\<close>.

  The requests are any: theory \<open>Deadlock\<close> has a run that ends in a deadlock. Theories \<open>Linearizable\<close> and
  \<open>Progress\<close> are about well-formed ones (\<open>good_request\<close>).

  Against \<open>cluster_do\<close> of theory \<open>Cluster\<close>, where one request is followed from its call to its
  response, nothing is assumed here about the order of the steps of different requests, nor
  about the clocks of the nodes.
\<close>

section \<open>Goroutines\<close>

type_synonym link = "tcp_addr \<times> conn"

text \<open>A caller of \<open>Do\<close>, or the loop at the serving end of the connection (dialling, serving node).\<close>

datatype goroutine = Caller nat | Handler link

datatype phase =
    Routing                          \<comment> \<open>at the start of \<open>Do\<close>\<close>
  | Waiting conn                     \<comment> \<open>at \<open>node.mu.Lock()\<close>\<close>
  | Awaiting conn                    \<comment> \<open>at the second \<open>readWire\<close>, the event is written\<close>
  | Returning "response res"         \<comment> \<open>\<open>Do\<close> is over\<close>

record task =
  at_node :: tcp_addr
  asked :: request
  phase :: phase

text \<open>
  The state: the processes with their closed connections, the goroutines inside \<open>Do\<close> (a handler
  that is not in it waits for an event), the holder of each node's mutex, what was written to a
  connection and not yet read, and the callbacks started by the timer of each store. A written
  response is kept as what reading it gives.
\<close>

record net =
  net_world :: world
  tasks :: "goroutine \<Rightarrow> task option"
  holder :: "link \<Rightarrow> goroutine option"
  events :: "link \<Rightarrow> json list"
  replies :: "link \<Rightarrow> (string + response) list"
  callbacks :: "tcp_addr \<Rightarrow> callback multiset"

definition at_phase :: "goroutine \<Rightarrow> task \<Rightarrow> phase \<Rightarrow> net \<Rightarrow> net" where
  "at_phase g t p n = n\<lparr>tasks := (tasks n)(g \<mapsto> t\<lparr>phase := p\<rparr>)\<rparr>"

text \<open>The end of a process takes its goroutines with it.\<close>

definition kill :: "tcp_addr \<Rightarrow> net \<Rightarrow> net" where
  "kill c n = n\<lparr>net_world := crash c (net_world n),
     tasks := (\<lambda>g. case tasks n g of None \<Rightarrow> None | Some t \<Rightarrow> if at_node t = c then None else Some t),
     callbacks := (callbacks n)(c := {#})\<rparr>"

definition cut :: "link \<Rightarrow> net \<Rightarrow> bool" where
  "cut l n \<longleftrightarrow> servers (net_world n) (snd l) = None \<or> l \<in> set (closed (net_world n))"

section \<open>Steps\<close>

subsection \<open>Inside Do\<close>

text \<open>
  From the start of \<open>Do\<close>: the local branch up to its return, or the decision to forward. A list of keys in
  the response is that of this instant; what is read of it later, by whoever got it, is left to the
  steps \<open>return\<close> and \<open>reply\<close>.
\<close>

definition do_start :: "runtime \<Rightarrow> goroutine \<Rightarrow> task \<Rightarrow> server \<Rightarrow> net \<Rightarrow> net" where
  "do_start rt g t s n =
     (case do_plan s (asked t) of
        PlanPanic p \<Rightarrow> at_phase g t (Returning (Inl p)) n
      | PlanLocal nd \<Rightarrow>
          (let (s', r) = do_local rt s nd (asked t)
           in at_phase g t (Returning r) (n\<lparr>net_world := put_server (at_node t) s' (net_world n)\<rparr>))
      | PlanForward nd c \<Rightarrow> at_phase g t (Waiting c) n)"

text \<open>
  The first half of \<open>roundTrip\<close>, once the mutex is free. A request that cannot be encoded or
  written gives the mutex back at once.
\<close>

definition send_event :: "goroutine \<Rightarrow> task \<Rightarrow> conn \<Rightarrow> net \<Rightarrow> net" where
  "send_event g t c n =
     (let l = (at_node t, c)
      in case encode_event (asked t) of
           None \<Rightarrow> at_phase g t (Returning (Inr (do_forwarded (Inl encode_error)))) n
         | Some ev \<Rightarrow>
             if cut l n then at_phase g t (Returning (Inr (do_forwarded (Inl eof_error)))) n
             else at_phase g t (Awaiting c)
                    (n\<lparr>holder := (holder n)(l \<mapsto> g), events := (events n)(l := events n l @ [ev])\<rparr>))"

text \<open>The second half: the response is read, or the end of the connection, and the mutex unlocked.\<close>

definition take_reply :: "goroutine \<Rightarrow> task \<Rightarrow> conn \<Rightarrow> string + response \<Rightarrow> net \<Rightarrow> net" where
  "take_reply g t c m n =
     (let l = (at_node t, c)
      in at_phase g t (Returning (Inr (do_forwarded m)))
           (n\<lparr>holder := (holder n)(l := None), replies := (replies n)(l := tl (replies n l))\<rparr>))"

subsection \<open>The handle loop\<close>

text \<open>An event is read from the connection.\<close>

definition read_event :: "link \<Rightarrow> json \<Rightarrow> net \<Rightarrow> net" where
  "read_event l ev n =
     (let n = n\<lparr>events := (events n)(l := tl (events n l))\<rparr>
      in case handle_event ev of
           HClose \<Rightarrow> n\<lparr>net_world := close_link (fst l) (snd l) (net_world n)\<rparr>
         | HSilent \<Rightarrow> n
         | HCrash p \<Rightarrow> kill (snd l) n
         | HRequest req \<Rightarrow>
             n\<lparr>tasks := (tasks n)(Handler l \<mapsto> \<lparr>at_node = snd l, asked = req, phase = Routing\<rparr>)\<rparr>)"

text \<open>\<open>Do\<close> has returned to the loop, or has panicked through it.\<close>

definition write_reply :: "link \<Rightarrow> response res \<Rightarrow> net \<Rightarrow> net" where
  "write_reply l r n =
     (let n' = n\<lparr>tasks := (tasks n)(Handler l := None)\<rparr>
      in case r of
           Inl p \<Rightarrow> kill (snd l) n
         | Inr resp \<Rightarrow>
             (case wire_response resp of
                Unsent \<Rightarrow> n'\<lparr>net_world := close_link (fst l) (snd l) (net_world n')\<rparr>
              | Unread \<Rightarrow> n'\<lparr>replies := (replies n')(l := replies n' l @ [Inl decode_error])\<rparr>
              | Delivered resp' \<Rightarrow> n'\<lparr>replies := (replies n')(l := replies n' l @ [Inr resp'])\<rparr>))"

subsection \<open>The timer of a store\<close>

definition put_store :: "tcp_addr \<Rightarrow> server \<Rightarrow> store \<Rightarrow> net \<Rightarrow> net" where
  "put_store b s st n = n\<lparr>net_world := put_server b (s\<lparr>sstore := st\<rparr>) (net_world n)\<rparr>"

text \<open>A sweep or a rescheduling; a panic in its goroutine ends the process.\<close>

definition timer_goes :: "tcp_addr \<Rightarrow> server \<Rightarrow> callback multiset \<Rightarrow> store res \<Rightarrow> net \<Rightarrow> net" where
  "timer_goes b s cbs r n =
     (case r of
        Inl p \<Rightarrow> kill b n
      | Inr st \<Rightarrow> (put_store b s st n)\<lparr>callbacks := (callbacks n)(b := cbs)\<rparr>)"

subsection \<open>The list of the keys\<close>

text \<open>
  The answer to \<open>RequestKeys\<close> holds the slice \<open>h.keys\<close> of the table itself (\<open>unsafeHash.Keys\<close>), and
  \<open>Store.Keys\<close> gives back the lock before anybody reads it. After a deletion the next \<open>Keys\<close> writes
  other keys into the same array (theory \<open>Keys_Slice\<close>), and nothing orders these writes with the
  reads of whoever got the answer. Its length belongs to the answer. Its strings are left open: the
  reader may find any strings in it. Every other answer is read as it was given.
\<close>

fun is_string :: "goval \<Rightarrow> bool" where
  "is_string (VString s) = True"
| "is_string v = False"

definition listing_read :: "goval \<Rightarrow> goval \<Rightarrow> bool" where
  "listing_read v v' \<longleftrightarrow>
     (case (v, v') of
        (VSlice TyString xs, VSlice TyString ys) \<Rightarrow> length ys = length xs \<and> list_all is_string ys
      | _ \<Rightarrow> v' = v)"

fun read_back :: "request \<Rightarrow> response \<Rightarrow> response \<Rightarrow> bool" where
  "read_back (RequestKeys i) resp resp' \<longleftrightarrow>
     listing_read (rdata (rrecord resp)) (rdata (rrecord resp')) \<and>
     resp' = resp\<lparr>rrecord := (rrecord resp)\<lparr>rdata := rdata (rrecord resp')\<rparr>\<rparr>"
| "read_back req resp resp' \<longleftrightarrow> resp' = resp"

fun reads :: "request \<Rightarrow> response res \<Rightarrow> response res \<Rightarrow> bool" where
  "reads req (Inr resp) (Inr resp') \<longleftrightarrow> read_back req resp resp'"
| "reads req r r' \<longleftrightarrow> r' = r"

lemma read_back_plain: "req_hash req \<noteq> [] \<Longrightarrow> read_back req resp resp' \<longleftrightarrow> resp' = resp"
  by (cases req) simp_all

lemma reads_plain: "req_hash req \<noteq> [] \<Longrightarrow> reads req r r' \<longleftrightarrow> r' = r"
  by (cases r; cases r') (auto simp: read_back_plain)

lemma reads_Inr: "reads req (Inr resp) r' \<longleftrightarrow> (\<exists>resp'. r' = Inr resp' \<and> read_back req resp resp')"
  by (cases r') auto

text \<open>Something can always be read.\<close>

lemma listing_readable: "\<exists>v'. listing_read v v'"
proof (cases "\<exists>xs. v = VSlice TyString xs")
  case True
  then obtain xs where "v = VSlice TyString xs" by blast
  then have "listing_read v (VSlice TyString (replicate (length xs) (VString [])))"
    by (simp add: listing_read_def list_all_length)
  then show ?thesis by blast
next
  case False
  then have "listing_read v v" by (auto simp: listing_read_def split: goval.split gotype.split)
  then show ?thesis by blast
qed

lemma reads_total: "\<exists>r'. reads req r r'"
proof (cases r)
  case (Inr resp)
  obtain v where "listing_read (rdata (rrecord resp)) v" using listing_readable by blast
  then have "\<exists>resp'. read_back req resp resp'"
    by (cases req) (auto intro!: exI [of _ "resp\<lparr>rrecord := (rrecord resp)\<lparr>rdata := v\<rparr>\<rparr>"])
  with Inr show ?thesis by (auto simp: reads_Inr)
qed (use reads.simps in blast)

subsection \<open>All steps\<close>

datatype action = Call nat tcp_addr request | Return nat "response res"

datatype label = Visible action | Work goroutine | Background tcp_addr

inductive net_step :: "net \<Rightarrow> label \<Rightarrow> net \<Rightarrow> bool" where
  call: "tasks n (Caller i) = None \<Longrightarrow> servers (net_world n) a \<noteq> None \<Longrightarrow>
     net_step n (Visible (Call i a req))
       (n\<lparr>tasks := (tasks n)(Caller i \<mapsto> \<lparr>at_node = a, asked = req, phase = Routing\<rparr>)\<rparr>)"
| return: "tasks n (Caller i) = Some t \<Longrightarrow> phase t = Returning r \<Longrightarrow> reads (asked t) r r' \<Longrightarrow>
     net_step n (Visible (Return i r')) (n\<lparr>tasks := (tasks n)(Caller i := None)\<rparr>)"
| start: "tasks n g = Some t \<Longrightarrow> phase t = Routing \<Longrightarrow>
     servers (net_world n) (at_node t) = Some s \<Longrightarrow> rt_ok rt \<Longrightarrow>
     net_step n (Work g) (do_start rt g t s n)"
| send: "tasks n g = Some t \<Longrightarrow> phase t = Waiting c \<Longrightarrow> holder n (at_node t, c) = None \<Longrightarrow>
     net_step n (Work g) (send_event g t c n)"
| take: "tasks n g = Some t \<Longrightarrow> phase t = Awaiting c \<Longrightarrow> replies n (at_node t, c) = m # ms \<Longrightarrow>
     net_step n (Work g) (take_reply g t c m n)"
| eof: "tasks n g = Some t \<Longrightarrow> phase t = Awaiting c \<Longrightarrow> replies n (at_node t, c) = [] \<Longrightarrow>
     cut (at_node t, c) n \<Longrightarrow>
     net_step n (Work g) (take_reply g t c (Inl eof_error) n)"
| read: "tasks n (Handler l) = None \<Longrightarrow> events n l = ev # evs \<Longrightarrow> \<not> cut l n \<Longrightarrow>
     net_step n (Work (Handler l)) (read_event l ev n)"
| reply: "tasks n (Handler l) = Some t \<Longrightarrow> phase t = Returning r \<Longrightarrow> reads (asked t) r r' \<Longrightarrow>
     net_step n (Work (Handler l)) (write_reply l r' n)"
| fire: "servers (net_world n) b = Some s \<Longrightarrow> timer_fire now (expire_timer (sstore s)) = Some (c, tm) \<Longrightarrow>
     net_step n (Background b)
       ((put_store b s ((sstore s)\<lparr>expire_timer := tm\<rparr>) n)
          \<lparr>callbacks := (callbacks n)(b := add_mset (Sweep c) (callbacks n b))\<rparr>)"
| sweep: "servers (net_world n) b = Some s \<Longrightarrow> Sweep c \<in># callbacks n b \<Longrightarrow>
     net_step n (Background b)
       (timer_goes b s (add_mset Resched (callbacks n b - {#Sweep c#})) (delete_expired_keys c (sstore s)) n)"
| resched: "servers (net_world n) b = Some s \<Longrightarrow> Resched \<in># callbacks n b \<Longrightarrow>
     net_step n (Background b)
       (timer_goes b s (callbacks n b - {#Resched#}) (reschedule now (sstore s)) n)"

inductive_cases net_stepE [consumes 1, case_names call return start send take eof read reply fire sweep resched]:
  "net_step n e n'"

inductive net_run :: "net \<Rightarrow> label list \<Rightarrow> net \<Rightarrow> bool" where
  net_nil: "net_run n [] n"
| net_snoc: "net_run n es n' \<Longrightarrow> net_step n' e n'' \<Longrightarrow> net_run n (es @ [e]) n''"

text \<open>No request under way, no callback started.\<close>

definition net_init :: "world \<Rightarrow> net" where
  "net_init w = \<lparr>net_world = w, tasks = (\<lambda>_. None), holder = (\<lambda>_. None), events = (\<lambda>_. []),
     replies = (\<lambda>_. []), callbacks = (\<lambda>_. {#})\<rparr>"

section \<open>The atomic table\<close>

text \<open>
  What the callers are promised: a table on which each call takes effect at one instant between
  its call and its return, and returns the answer of that instant, as \<open>read_back\<close> lets it be read. Keys that were once stored with an expiration may disappear at any
  time, for the sweeper of the store takes them even after they were made permanent; no other
  key does.
\<close>

datatype status = Pending tcp_addr request | Answered request response

record obj =
  cells :: table
  fleeting :: "string set"
  calls :: "nat \<Rightarrow> status option"

fun temp_keys :: "request \<Rightarrow> string set" where
  "temp_keys (RequestStore i expire k data) = (if 0 < sint expire then {k} else {})"
| "temp_keys _ = {}"

inductive obj_run :: "(tcp_addr \<Rightarrow> string \<Rightarrow> bool) \<Rightarrow> obj \<Rightarrow> action list \<Rightarrow> obj \<Rightarrow> bool"
  for here :: "tcp_addr \<Rightarrow> string \<Rightarrow> bool" and ob :: obj where
  obj_nil: "obj_run here ob [] ob"
| obj_call: "obj_run here ob acts ob' \<Longrightarrow> calls ob' i = None \<Longrightarrow>
     obj_run here ob (acts @ [Call i a req]) (ob'\<lparr>calls := (calls ob')(i \<mapsto> Pending a req)\<rparr>)"
| obj_effect: "obj_run here ob acts ob' \<Longrightarrow> calls ob' i = Some (Pending a req) \<Longrightarrow> rt_ok rt \<Longrightarrow>
     table_step (here a) rt req (cells ob') (m, out) \<Longrightarrow> answers out resp \<Longrightarrow>
     obj_run here ob acts
       (ob'\<lparr>cells := m, fleeting := fleeting ob' \<union> temp_keys req, calls := (calls ob')(i \<mapsto> Answered req resp)\<rparr>)"
| obj_evict: "obj_run here ob acts ob' \<Longrightarrow> K \<subseteq> fleeting ob' \<Longrightarrow>
     obj_run here ob acts (ob'\<lparr>cells := cells ob' |` (- K)\<rparr>)"
| obj_return: "obj_run here ob acts ob' \<Longrightarrow> calls ob' i = Some (Answered req resp) \<Longrightarrow> read_back req resp resp' \<Longrightarrow>
     obj_run here ob (acts @ [Return i (Inr resp')]) (ob'\<lparr>calls := (calls ob')(i := None)\<rparr>)"

fun visible :: "label list \<Rightarrow> action list" where
  "visible [] = []"
| "visible (Visible a # es) = a # visible es"
| "visible (e # es) = visible es"

lemma visible_append [simp]: "visible (xs @ ys) = visible xs @ visible ys"
  by (induction xs rule: visible.induct) simp_all

end
