(* ===== verification/Link_Inv.thy ===== *)
theory Link_Inv
  imports Concurrent
begin

text \<open>
  The invariant of the mutexes and connections of the concurrent cluster (theory \<open>Concurrent\<close>), the
  state of the atomic table that a state of the cluster stands for, the steps that a request still
  takes, and what a step on one connection leaves unchanged.
\<close>

section \<open>The invariant\<close>

text \<open>A request that node \<open>a\<close> forwards to \<open>c\<close>.\<close>

definition asking :: "nat \<Rightarrow> tcp_addr list \<Rightarrow> tcp_addr \<Rightarrow> request \<Rightarrow> conn \<Rightarrow> bool" where
  "asking parts members a req c \<longleftrightarrow>
     owner parts members (req_hash req) = c \<and> c \<noteq> a \<and> req_hash req \<noteq> []"

fun phase_ok :: "nat \<Rightarrow> tcp_addr list \<Rightarrow> net \<Rightarrow> goroutine \<Rightarrow> task \<Rightarrow> phase \<Rightarrow> bool" where
  "phase_ok parts members n g t Routing = True"
| "phase_ok parts members n g t (Waiting c) = asking parts members (at_node t) (asked t) c"
| "phase_ok parts members n g t (Awaiting c) = (holder n (at_node t, c) = Some g)"
| "phase_ok parts members n g t (Returning r) = (\<exists>resp. r = Inr resp)"

definition caller_ok :: "nat \<Rightarrow> tcp_addr list \<Rightarrow> net \<Rightarrow> nat \<Rightarrow> task \<Rightarrow> bool" where
  "caller_ok parts members n i t \<longleftrightarrow> at_node t \<in> set members \<and> good_request (asked t) \<and>
     phase_ok parts members n (Caller i) t (phase t)"

text \<open>
  Where the request of the goroutine that holds the mutex is: written and not read, in the
  hands of the handler, or answered and not read.
\<close>

datatype stage = Written | Served task | Replied response

fun at_stage :: "net \<Rightarrow> link \<Rightarrow> request \<Rightarrow> stage \<Rightarrow> bool" where
  "at_stage n l req Written \<longleftrightarrow>
     (\<exists>ev. encode_event req = Some ev \<and> events n l = [ev]) \<and> replies n l = [] \<and> tasks n (Handler l) = None"
| "at_stage n l req (Served t) \<longleftrightarrow>
     events n l = [] \<and> replies n l = [] \<and> tasks n (Handler l) = Some t \<and>
     at_node t = snd l \<and> asked t = req \<and>
     (phase t = Routing \<or>
      (\<exists>resp resp'. phase t = Returning (Inr resp) \<and> wire_response resp = Delivered resp'))"
| "at_stage n l req (Replied resp) \<longleftrightarrow>
     events n l = [] \<and> replies n l = [Inr resp] \<and> tasks n (Handler l) = None"

definition link_ok :: "nat \<Rightarrow> tcp_addr list \<Rightarrow> net \<Rightarrow> link \<Rightarrow> bool" where
  "link_ok parts members n l \<longleftrightarrow>
     (case holder n l of
        None \<Rightarrow> events n l = [] \<and> replies n l = [] \<and> tasks n (Handler l) = None
      | Some g \<Rightarrow> \<exists>i t st. g = Caller i \<and> tasks n g = Some t \<and> at_node t = fst l \<and>
          phase t = Awaiting (snd l) \<and> asking parts members (fst l) (asked t) (snd l) \<and>
          at_stage n l (asked t) st)"

definition heaps_in :: "tcp_addr list \<Rightarrow> string set \<Rightarrow> world \<Rightarrow> bool" where
  "heaps_in members K w \<longleftrightarrow>
     (\<forall>a \<in> set members. \<forall>s. servers w a = Some s \<longrightarrow> edata ` set (expire_heap (sstore s)) \<subseteq> K)"

definition net_inv :: "nat \<Rightarrow> tcp_addr list \<Rightarrow> string set \<Rightarrow> net \<Rightarrow> bool" where
  "net_inv parts members K n \<longleftrightarrow>
     cluster_inv parts members (net_world n) \<and> heaps_in members K (net_world n) \<and>
     (\<forall>i t. tasks n (Caller i) = Some t \<longrightarrow> caller_ok parts members n i t) \<and>
     (\<forall>l. link_ok parts members n l)"

lemma net_inv_link: "net_inv parts members K n \<Longrightarrow> link_ok parts members n l"
  by (cases l) (simp add: net_inv_def)

lemma link_okD:
  assumes "net_inv parts members K n" and "holder n l = Some g"
  obtains i t st where "g = Caller i" "tasks n (Caller i) = Some t" "at_node t = fst l"
    "phase t = Awaiting (snd l)" "asking parts members (fst l) (asked t) (snd l)"
    "at_stage n l (asked t) st"
  using net_inv_link [OF assms(1), of l] assms(2) unfolding link_ok_def by auto

text \<open>Who does not wait for a reply holds no mutex.\<close>

lemma not_holder:
  assumes inv: "net_inv parts members K n" and idle: "\<And>t c. tasks n g = Some t \<Longrightarrow> phase t \<noteq> Awaiting c"
  shows "holder n l \<noteq> Some g"
proof
  assume "holder n l = Some g"
  then obtain i t where "g = Caller i" "tasks n (Caller i) = Some t" "phase t = Awaiting (snd l)"
    by (rule link_okD [OF inv])
  with idle show False by blast
qed

lemma link_freeD:
  assumes "net_inv parts members K n" and "holder n l = None"
  shows "events n l = []" "replies n l = []" "tasks n (Handler l) = None"
  using net_inv_link [OF assms(1), of l] assms(2) by (simp_all add: link_ok_def)

lemma holder_unique:
  assumes "net_inv parts members K n" and "holder n l = Some g" and "holder n l' = Some g"
  shows "l' = l"
  using link_okD [OF assms(1,2)] link_okD [OF assms(1,3)]
  by (metis goroutine.inject(1) option.inject phase.inject(2) prod.collapse)

lemma callerD:
  assumes "net_inv parts members K n" and "tasks n (Caller i) = Some t"
  shows "caller_ok parts members n i t"
  using assms by (simp add: net_inv_def)

text \<open>A connection in use is held by the one caller whose request is on it.\<close>

lemma handler_holder:
  assumes inv: "net_inv parts members K n" and t: "tasks n (Handler l) = Some t"
  obtains i tc where "holder n l = Some (Caller i)" "tasks n (Caller i) = Some tc" "at_node tc = fst l"
    "phase tc = Awaiting (snd l)" "asking parts members (fst l) (asked tc) (snd l)"
    "at_stage n l (asked tc) (Served t)"
proof -
  obtain g where g: "holder n l = Some g" using link_freeD(3) [OF inv, of l] t by (cases "holder n l") auto
  obtain i tc st where i: "g = Caller i" "tasks n (Caller i) = Some tc" "at_node tc = fst l"
    "phase tc = Awaiting (snd l)" "asking parts members (fst l) (asked tc) (snd l)"
    "at_stage n l (asked tc) st" by (rule link_okD [OF inv g])
  have "st = Served t" using i(6) t by (cases st) auto
  with that g i show thesis by blast
qed

section \<open>The state of the atomic table\<close>

definition link_status :: "net \<Rightarrow> link \<Rightarrow> task \<Rightarrow> status" where
  "link_status n l t =
     (case replies n l of
        Inr resp # _ \<Rightarrow> Answered (asked t) resp
      | _ \<Rightarrow>
          (case map_option phase (tasks n (Handler l)) of
             Some (Returning (Inr resp)) \<Rightarrow>
               (case wire_response resp of
                  Delivered resp' \<Rightarrow> Answered (asked t) resp'
                | _ \<Rightarrow> Pending (at_node t) (asked t))
           | _ \<Rightarrow> Pending (at_node t) (asked t)))"

definition call_status :: "net \<Rightarrow> task \<Rightarrow> status" where
  "call_status n t =
     (case phase t of
        Returning (Inr resp) \<Rightarrow> Answered (asked t) resp
      | Awaiting c \<Rightarrow> link_status n (at_node t, c) t
      | _ \<Rightarrow> Pending (at_node t) (asked t))"

definition call_at :: "net \<Rightarrow> nat \<Rightarrow> status option" where
  "call_at n i = map_option (call_status n) (tasks n (Caller i))"

definition sim :: "nat \<Rightarrow> tcp_addr list \<Rightarrow> net \<Rightarrow> obj \<Rightarrow> bool" where
  "sim parts members n ob \<longleftrightarrow> net_inv parts members (fleeting ob) n \<and>
     cells ob = cluster_abs parts members (net_world n) \<and> calls ob = call_at n"

lemma link_status_cong:
  "replies n' l = replies n l \<Longrightarrow> tasks n' (Handler l) = tasks n (Handler l) \<Longrightarrow>
     link_status n' l t = link_status n l t"
  by (simp only: link_status_def)

text \<open>
  How many steps the request of a caller still takes, its return included: on its way to another
  node at most seven.
\<close>

definition link_remaining :: "net \<Rightarrow> link \<Rightarrow> nat" where
  "link_remaining n l =
     (if replies n l \<noteq> [] then 2
      else case map_option phase (tasks n (Handler l)) of
             None \<Rightarrow> 5
           | Some Routing \<Rightarrow> 4
           | _ \<Rightarrow> 3)"

definition remaining :: "net \<Rightarrow> task \<Rightarrow> nat" where
  "remaining n t =
     (case phase t of
        Routing \<Rightarrow> 7
      | Waiting c \<Rightarrow> 6
      | Awaiting c \<Rightarrow> link_remaining n (at_node t, c)
      | Returning r \<Rightarrow> 1)"

definition remaining_at :: "net \<Rightarrow> nat \<Rightarrow> nat" where
  "remaining_at n i = (case tasks n (Caller i) of None \<Rightarrow> 0 | Some t \<Rightarrow> remaining n t)"

lemmas remaining_defs = remaining_at_def remaining_def link_remaining_def

text \<open>A step of the request of caller \<open>i\<close> brings it nearer to its end and moves no other.\<close>

definition others_stay :: "nat \<Rightarrow> net \<Rightarrow> net \<Rightarrow> bool" where
  "others_stay i n n' \<longleftrightarrow> (\<forall>j. j \<noteq> i \<longrightarrow> remaining_at n' j = remaining_at n j)"

definition advances :: "net \<Rightarrow> net \<Rightarrow> bool" where
  "advances n n' \<longleftrightarrow> (\<exists>i. others_stay i n n' \<and> remaining_at n' i < remaining_at n i)"

lemma link_remaining_cong:
  "replies n' l = replies n l \<Longrightarrow> tasks n' (Handler l) = tasks n (Handler l) \<Longrightarrow>
     link_remaining n' l = link_remaining n l"
  by (simp only: link_remaining_def)

section \<open>Frames\<close>

text \<open>
  A step changes the task of one caller and the connections in \<open>L\<close>, which nobody else holds.
\<close>

lemma net_frame:
  assumes inv: "net_inv parts members K n"
    and callers: "\<And>j. j \<noteq> i \<Longrightarrow> tasks n' (Caller j) = tasks n (Caller j)"
    and links: "\<And>l. l \<notin> L \<Longrightarrow> holder n' l = holder n l \<and> events n' l = events n l \<and>
        replies n' l = replies n l \<and> tasks n' (Handler l) = tasks n (Handler l)"
    and mine: "\<And>l. l \<notin> L \<Longrightarrow> holder n l \<noteq> Some (Caller i)"
    and others: "\<And>l. l \<in> L \<Longrightarrow> holder n l = None \<or> holder n l = Some (Caller i)"
    and caller: "\<And>t. tasks n' (Caller i) = Some t \<Longrightarrow> caller_ok parts members n' i t"
    and link: "\<And>l. l \<in> L \<Longrightarrow> link_ok parts members n' l"
    and world: "cluster_inv parts members (net_world n')" "heaps_in members K' (net_world n')"
  shows "net_inv parts members K' n'" and "\<And>j. j \<noteq> i \<Longrightarrow> call_at n' j = call_at n j"
    and "others_stay i n n'"
proof -
  have away: "(at_node t, c) \<notin> L" if "tasks n (Caller j) = Some t" "phase t = Awaiting c" "j \<noteq> i" for j t c
    using callerD [OF inv that(1)] that(2,3) others [of "(at_node t, c)"] by (auto simp: caller_ok_def)
  have "caller_ok parts members n' j t" if t: "tasks n' (Caller j) = Some t" for j t
  proof (cases "j = i")
    case True
    then show ?thesis using caller t by simp
  next
    case False
    then have t': "tasks n (Caller j) = Some t" using t callers by simp
    from callerD [OF inv t'] away [OF t' _ False] links show ?thesis
      by (cases "phase t") (auto simp: caller_ok_def)
  qed
  moreover have "link_ok parts members n' l" for l
  proof (cases "l \<in> L")
    case False
    have ok: "link_ok parts members n l" by (rule net_inv_link [OF inv])
    have stage: "at_stage n' l req st = at_stage n l req st" for req st
      using links [OF False] by (cases st) simp_all
    show ?thesis
    proof (cases "holder n l")
      case None
      then show ?thesis using ok links [OF False] by (simp add: link_ok_def)
    next
      case (Some g)
      then obtain j where "g = Caller j" "j \<noteq> i"
        using link_okD [OF inv Some] mine [OF False] by metis
      with Some ok links [OF False] callers [of j] show ?thesis by (simp add: link_ok_def stage)
    qed
  qed (rule link)
  ultimately show "net_inv parts members K' n'" using world by (simp add: net_inv_def)
  have same: "call_status n' t = call_status n t" "remaining n' t = remaining n t"
    if "tasks n (Caller j) = Some t" "j \<noteq> i" for j t
    using links away [OF that(1) _ that(2)]
    by (cases "phase t"; auto simp: call_status_def remaining_def intro!: link_status_cong link_remaining_cong)+
  show "call_at n' j = call_at n j" if "j \<noteq> i" for j
    using callers [OF that] same(1) [OF _ that] by (auto simp: call_at_def intro: option.map_cong0)
  show "others_stay i n n'"
    unfolding others_stay_def remaining_at_def
    using callers same(2) by (auto split: option.split)
qed

text \<open>What a step for caller \<open>i\<close> leads to.\<close>

definition follows :: "nat \<Rightarrow> tcp_addr list \<Rightarrow> nat \<Rightarrow> net \<Rightarrow> obj \<Rightarrow> string set \<Rightarrow> net \<Rightarrow> bool" where
  "follows parts members i n ob K n' \<longleftrightarrow>
     sim parts members n'
       (ob\<lparr>cells := cluster_abs parts members (net_world n'), fleeting := K, calls := (calls ob)(i := call_at n' i)\<rparr>) \<and>
     others_stay i n n'"

lemma sim_frame:
  assumes sim: "sim parts members n ob"
    and callers: "\<And>j. j \<noteq> i \<Longrightarrow> tasks n' (Caller j) = tasks n (Caller j)"
    and links: "\<And>l. l \<notin> L \<Longrightarrow> holder n' l = holder n l \<and> events n' l = events n l \<and>
        replies n' l = replies n l \<and> tasks n' (Handler l) = tasks n (Handler l)"
    and mine: "\<And>l. l \<notin> L \<Longrightarrow> holder n l \<noteq> Some (Caller i)"
    and others: "\<And>l. l \<in> L \<Longrightarrow> holder n l = None \<or> holder n l = Some (Caller i)"
    and caller: "\<And>t. tasks n' (Caller i) = Some t \<Longrightarrow> caller_ok parts members n' i t"
    and link: "\<And>l. l \<in> L \<Longrightarrow> link_ok parts members n' l"
    and world: "cluster_inv parts members (net_world n')" "heaps_in members K' (net_world n')"
  shows "follows parts members i n ob K' n'"
proof -
  have inv: "net_inv parts members (fleeting ob) n" using sim by (simp add: sim_def)
  note frame = net_frame [where n = n and n' = n' and i = i and L = L, OF inv callers links mine others caller link world]
  have "(calls ob)(i := call_at n' i) = call_at n'" using sim frame(2) by (auto simp: sim_def)
  with frame(1,3) show ?thesis by (simp add: follows_def sim_def)
qed

lemma sim_same:
  assumes "sim parts members n ob" and "follows parts members i n ob (fleeting ob) n'"
    and "call_at n' i = call_at n i" and "net_world n' = net_world n"
    and "remaining_at n' i < remaining_at n i"
  shows "sim parts members n' ob \<and> advances n n'"
proof -
  have "ob\<lparr>cells := cluster_abs parts members (net_world n'), fleeting := fleeting ob,
      calls := (calls ob)(i := call_at n' i)\<rparr> = ob"
    using assms(1,3,4) by (cases ob) (simp add: sim_def)
  with assms(2,5) show ?thesis by (auto simp: follows_def advances_def)
qed

end
