(* ===== verification/Linearizable.thy ===== *)
theory Linearizable
  imports Link_Inv
begin

text \<open>
  The concurrent cluster of theory \<open>Concurrent\<close> refines the atomic table: the simulation, one lemma
  for each kind of step, and its extension to runs.
\<close>

section \<open>The critical section of a store\<close>

lemma process_heap:
  assumes "store_inv st"
  shows "edata ` set (expire_heap (fst (process store_ops rt req st))) \<subseteq>
     edata ` set (expire_heap st) \<union> temp_keys req"
proof -
  have h: "heap_inv (expire_heap st)" using assms by (simp add: store_inv_def)
  have ops: "op_keys store_ops = store_keys" "op_load store_ops = store_load"
    "op_store store_ops = store_store" "op_delete store_ops = store_delete"
    by (simp_all add: store_ops_def)
  show ?thesis
  proof (cases req)
    case (RequestStore i expire key data)
    let ?r = "record_zero\<lparr>rdata := data, rmeta := meta_zero\<lparr>expire_time := expire\<rparr>\<rparr>"
    have "is_permanent ?r \<longleftrightarrow> sint expire \<le> 0" by (simp add: is_permanent_def)
    then show ?thesis
      by (simp add: RequestStore ops split_beta store_store_fields set_heap_push [OF h])
  next
    case (RequestLoad i key)
    then show ?thesis by (auto simp: ops split_beta split: option.split)
  next
    case (RequestListIndex i key ix)
    then show ?thesis by (auto simp: ops split_beta split: option.split)
  next
    case (RequestDictItem i key item)
    then show ?thesis by (auto simp: ops split_beta split: option.split)
  qed (simp_all add: ops split_beta)
qed

lemma heaps_in_local:
  assumes m: "partial_mesh parts members w" and h: "heaps_in members K w" and c: "c \<in> set members"
    and s: "servers w c = Some s" and serve: "do_local rt s nd req = (s', r)"
  shows "heaps_in members (K \<union> temp_keys req) (put_server c s' w)"
proof -
  have "store_inv (sstore s)" using partial_server(2) [OF m c s] by (simp add: mesh_node_def)
  note heap = process_heap [OF this, of rt req]
  have "sstore s' = fst (process store_ops rt req (sstore s))"
    using serve by (auto simp: do_local_def split_beta simp del: process.simps)
  with heap have new: "edata ` set (expire_heap (sstore s')) \<subseteq>
      edata ` set (expire_heap (sstore s)) \<union> temp_keys req" by (simp del: process.simps)
  show ?thesis
    unfolding heaps_in_def
  proof (intro ballI allI impI)
    fix a sa assume a: "a \<in> set members" "servers (put_server c s' w) a = Some sa"
    show "edata ` set (expire_heap (sstore sa)) \<subseteq> K \<union> temp_keys req"
    proof (cases "a = c")
      case True
      with a have "sa = s'" by simp
      moreover have "edata ` set (expire_heap (sstore s)) \<subseteq> K" using h c s by (simp add: heaps_in_def)
      ultimately show ?thesis using new by blast
    next
      case False
      with a h have "edata ` set (expire_heap (sstore sa)) \<subseteq> K" by (simp add: heaps_in_def)
      then show ?thesis by blast
    qed
  qed
qed

lemma heaps_in_mono: "heaps_in members K w \<Longrightarrow> K \<subseteq> K' \<Longrightarrow> heaps_in members K' w"
  unfolding heaps_in_def by blast

lemma plan_at:
  assumes "partial_mesh parts members w" and "servers w a = Some s" and "a \<in> set members"
  obtains nd where "do_plan s req =
      (if owner parts members (req_hash req) = a \<or> req_hash req = [] then PlanLocal nd
       else PlanForward nd (owner parts members (req_hash req)))"
    "owner parts members (req_hash req) = a \<longrightarrow> node_conn nd = None"
proof -
  note s = partial_server [OF assms(1,3,2)]
  have "members \<noteq> []" using assms(1) by (simp add: partial_mesh_def)
  from mesh_plan [OF s(2) this, of req] s(1) that show thesis by (metis (no_types, lifting))
qed

lemma local_answer:
  assumes "cluster_inv parts members w" and "a \<in> set members" and "servers w a = Some s"
    and "rt_ok rt" and "good_request req" and "do_plan s req = PlanLocal nd" and "do_local rt s nd req = (s', r)"
  obtains out resp where "r = Inr resp" "answers out resp" "cluster_inv parts members (put_server a s' w)"
    "table_step (\<lambda>k. owner parts members k = a) rt req
       (cluster_abs parts members w) (cluster_abs parts members (put_server a s' w), out)"
proof -
  have "cluster_do 2 rt w a req = Some (put_server a s' w, r)"
    using assms(3,6,7) by (simp add: numeral_2_eq_2 cluster_do.simps(2))
  with cluster_step [OF assms(1,2,4,5)] that show thesis by auto
qed

text \<open>The same on behalf of another node: the outcome is the one the asking node is owed.\<close>

lemma remote_answer:
  assumes inv: "cluster_inv parts members w" and a: "a \<in> set members" and s: "servers w c = Some s"
    and rt: "rt_ok rt" and good: "good_request req" and ask: "asking parts members a req c"
    and plan: "do_plan s req = PlanLocal nd" "node_conn nd = None" and serve: "do_local rt s nd req = (s', r)"
  obtains out resp resp' where "r = Inr resp" "wire_response resp = Delivered resp'" "answers out resp'"
    "cluster_inv parts members (put_server c s' w)"
    "table_step (\<lambda>k. owner parts members k = a) rt req
       (cluster_abs parts members w) (cluster_abs parts members (put_server c s' w), out)"
proof -
  have m: "mesh parts members w" using inv by (simp add: cluster_inv_def)
  have req: "wire_request req = Some req"
    using ask good_clean [OF good] by (auto simp: asking_def intro: wire_clean_request)
  have "cluster_do 1 rt w c req = Some (put_server c s' w, r)"
    using s plan serve by (simp add: cluster_do.simps(2))
  then have two: "cluster_do 2 rt w a req = forwarded_result a c (Some (put_server c s' w, r))"
    using cluster_forward [OF m a, of req 1 rt] ask req by (auto simp: asking_def numeral_2_eq_2)
  obtain w' out resp where one: "cluster_do 2 rt w a req = Some (w', Inr resp)" "answers out resp"
    "cluster_inv parts members w'"
    "table_step (\<lambda>k. owner parts members k = a) rt req (cluster_abs parts members w) (cluster_abs parts members w', out)"
    using cluster_step [OF inv a rt good] by blast
  have m': "mesh parts members w'" using one(3) by (simp add: cluster_inv_def)
  have "members \<noteq> []" using m by (simp add: mesh_def)
  then have "c \<in> set members" using ask owner_member [of members parts "req_hash req"] by (simp add: asking_def)
  with m' have up: "servers w' c \<noteq> None" "closed w' = []"
    using mesh_server [OF m'] by (blast, simp add: mesh_def)
  show thesis
  proof (cases r)
    case (Inl p)
    then show ?thesis using two one(1) up by (auto split: prod.splits)
  next
    case (Inr resp1)
    then have "node_conn (rnode resp1) = None"
      using serve plan(2)
      by (auto simp: do_local_def respond_def response_zero_def node_zero_def split: prod.splits sum.splits)
    then have "wire_response resp1 \<noteq> Unread" by (auto simp: wire_response_def split: option.splits)
    moreover have "wire_response resp1 \<noteq> Unsent" using Inr two one(1) up by auto
    ultimately obtain resp' where d: "wire_response resp1 = Delivered resp'" by (cases "wire_response resp1") auto
    with Inr two one that show ?thesis by auto
  qed
qed

section \<open>The simulation, step by step\<close>

abbreviation here_of :: "nat \<Rightarrow> tcp_addr list \<Rightarrow> tcp_addr \<Rightarrow> string \<Rightarrow> bool" where
  "here_of parts members \<equiv> \<lambda>a k. owner parts members k = a"

lemma sim_worldD:
  assumes "sim parts members n ob"
  shows "net_inv parts members (fleeting ob) n" "cluster_inv parts members (net_world n)"
    "heaps_in members (fleeting ob) (net_world n)" "mesh parts members (net_world n)"
    "cells ob = cluster_abs parts members (net_world n)" "calls ob = call_at n"
    "partial_mesh parts members (net_world n)"
  using assms by (simp_all add: sim_def net_inv_def cluster_inv_def mesh_partial)

lemma sim_call:
  assumes sim: "sim parts members n ob" and "tasks n (Caller i) = None"
    and "a \<in> set members" and "good_request req"
  shows "calls ob i = None" and
    "sim parts members (n\<lparr>tasks := (tasks n)(Caller i \<mapsto> \<lparr>at_node = a, asked = req, phase = Routing\<rparr>)\<rparr>)
       (ob\<lparr>calls := (calls ob)(i \<mapsto> Pending a req)\<rparr>)"
    and "others_stay i n (n\<lparr>tasks := (tasks n)(Caller i \<mapsto> \<lparr>at_node = a, asked = req, phase = Routing\<rparr>)\<rparr>)"
proof -
  let ?n = "n\<lparr>tasks := (tasks n)(Caller i \<mapsto> \<lparr>at_node = a, asked = req, phase = Routing\<rparr>)\<rparr>"
  note w = sim_worldD [OF sim]
  have free: "holder n l \<noteq> Some (Caller i)" for l by (rule not_holder [OF w(1)]) (simp add: assms(2))
  have new: "follows parts members i n ob (fleeting ob) ?n"
    by (rule sim_frame [OF sim, where L = "{}"])
       (use w free assms(3,4) in \<open>auto simp: caller_ok_def\<close>)
  then show "others_stay i n ?n" by (simp add: follows_def)
  have "call_at ?n i = Some (Pending a req)" by (simp add: call_at_def call_status_def)
  with new show "sim parts members ?n (ob\<lparr>calls := (calls ob)(i \<mapsto> Pending a req)\<rparr>)"
    using w(5) by (cases ob) (simp add: follows_def)
  show "calls ob i = None" using w(6) assms(2) by (simp add: call_at_def)
qed

lemma sim_return:
  assumes sim: "sim parts members n ob" and t: "tasks n (Caller i) = Some t" "phase t = Returning r"
  obtains resp where "r = Inr resp" "calls ob i = Some (Answered (asked t) resp)"
    "sim parts members (n\<lparr>tasks := (tasks n)(Caller i := None)\<rparr>) (ob\<lparr>calls := (calls ob)(i := None)\<rparr>)"
    "advances n (n\<lparr>tasks := (tasks n)(Caller i := None)\<rparr>)"
proof -
  let ?n = "n\<lparr>tasks := (tasks n)(Caller i := None)\<rparr>"
  note w = sim_worldD [OF sim]
  obtain resp where r: "r = Inr resp" using callerD [OF w(1) t(1)] t(2) by (auto simp: caller_ok_def)
  have free: "holder n l \<noteq> Some (Caller i)" for l by (rule not_holder [OF w(1)]) (auto simp: t)
  have new: "follows parts members i n ob (fleeting ob) ?n"
    by (rule sim_frame [OF sim, where L = "{}"]) (use w free in auto)
  have "call_at ?n i = None" by (simp add: call_at_def)
  with new have "sim parts members ?n (ob\<lparr>calls := (calls ob)(i := None)\<rparr>)"
    using w(5) by (cases ob) (simp add: follows_def)
  moreover have "advances n ?n"
    using new t by (auto simp: follows_def advances_def remaining_defs intro!: exI [of _ i])
  moreover have "calls ob i = Some (Answered (asked t) resp)"
    using t r w(6) by (simp add: call_at_def call_status_def)
  ultimately show thesis using r that by blast
qed

text \<open>The step at which a request takes effect.\<close>

definition effect_of :: "runtime \<Rightarrow> nat \<Rightarrow> tcp_addr list \<Rightarrow> obj \<Rightarrow> obj \<Rightarrow> bool" where
  "effect_of rt parts members ob ob' \<longleftrightarrow>
     (\<exists>i a req m out resp. calls ob i = Some (Pending a req) \<and>
        table_step (here_of parts members a) rt req (cells ob) (m, out) \<and> answers out resp \<and>
        ob' = ob\<lparr>cells := m, fleeting := fleeting ob \<union> temp_keys req,
                 calls := (calls ob)(i \<mapsto> Answered req resp)\<rparr>)"

lemma sim_effect:
  assumes sim: "sim parts members n ob"
    and new: "follows parts members i n ob (fleeting ob \<union> temp_keys req) n'"
    and call: "call_at n i = Some (Pending a req)" "call_at n' i = Some (Answered req resp)"
    and eff: "table_step (here_of parts members a) rt req
        (cluster_abs parts members (net_world n)) (cluster_abs parts members (net_world n'), out)"
      "answers out resp"
    and less: "remaining_at n' i < remaining_at n i"
  shows "(\<exists>ob'. effect_of rt parts members ob ob' \<and> sim parts members n' ob') \<and> advances n n'"
proof -
  let ?ob = "ob\<lparr>cells := cluster_abs parts members (net_world n'), fleeting := fleeting ob \<union> temp_keys req,
      calls := (calls ob)(i \<mapsto> Answered req resp)\<rparr>"
  have "effect_of rt parts members ob ?ob"
    using call(1) eff sim unfolding effect_of_def sim_def by metis
  with new call(2) less show ?thesis by (auto simp: follows_def advances_def)
qed

lemma sim_start_caller:
  assumes sim: "sim parts members n ob" and t: "tasks n (Caller i) = Some t" "phase t = Routing"
    and s: "servers (net_world n) (at_node t) = Some s" and rt: "rt_ok rt"
  shows "(\<exists>ob'. (ob' = ob \<or> effect_of rt parts members ob ob') \<and>
     sim parts members (do_start rt (Caller i) t s n) ob') \<and> advances n (do_start rt (Caller i) t s n)"
proof -
  let ?a = "at_node t" and ?req = "asked t" and ?w = "net_world n"
  let ?own = "owner parts members (req_hash (asked t))"
  note w = sim_worldD [OF sim]
  have a: "?a \<in> set members" and good: "good_request ?req"
    using callerD [OF w(1) t(1)] by (simp_all add: caller_ok_def)
  have free: "holder n l \<noteq> Some (Caller i)" for l by (rule not_holder [OF w(1)]) (auto simp: t)
  have pend: "call_at n i = Some (Pending ?a ?req)" using t by (simp add: call_at_def call_status_def)
  obtain nd where plan: "do_plan s ?req = (if ?own = ?a \<or> req_hash ?req = [] then PlanLocal nd else PlanForward nd ?own)"
    by (rule plan_at [OF w(7) s a])
  show ?thesis
  proof (cases "?own = ?a \<or> req_hash ?req = []")
    case True
    then have plan: "do_plan s ?req = PlanLocal nd" using plan by simp
    obtain s' r where serve: "do_local rt s nd ?req = (s', r)" by (cases "do_local rt s nd ?req")
    obtain out resp where r: "r = Inr resp" "answers out resp" "cluster_inv parts members (put_server ?a s' ?w)"
      "table_step (here_of parts members ?a) rt ?req
         (cluster_abs parts members ?w) (cluster_abs parts members (put_server ?a s' ?w), out)"
      by (rule local_answer [OF w(2) a s rt good plan serve])
    let ?n = "at_phase (Caller i) t (Returning r) (n\<lparr>net_world := put_server ?a s' ?w\<rparr>)"
    have w': "net_world ?n = put_server ?a s' ?w" by (simp add: at_phase_def)
    have "follows parts members i n ob (fleeting ob \<union> temp_keys ?req) ?n"
      by (rule sim_frame [OF sim, where L = "{}"])
         (use r free a good heaps_in_local [OF w(7,3) a s serve] in \<open>auto simp: caller_ok_def at_phase_def\<close>)
    moreover have "call_at ?n i = Some (Answered ?req resp)" "remaining_at ?n i < remaining_at n i"
      using t r(1) by (simp_all add: call_at_def call_status_def at_phase_def remaining_defs)
    ultimately have "(\<exists>ob'. effect_of rt parts members ob ob' \<and> sim parts members ?n ob') \<and> advances n ?n"
      using sim_effect [OF sim _ pend _ _ r(2)] r(4) by (simp add: w')
    moreover have "do_start rt (Caller i) t s n = ?n" by (simp add: do_start_def plan serve)
    ultimately show ?thesis by metis
  next
    case False
    let ?n = "at_phase (Caller i) t (Waiting ?own) n"
    have "follows parts members i n ob (fleeting ob) ?n"
      by (rule sim_frame [OF sim, where L = "{}"])
         (use w a good free False in \<open>auto simp: caller_ok_def at_phase_def asking_def\<close>)
    moreover have "call_at ?n i = call_at n i" by (simp add: call_at_def call_status_def at_phase_def t)
    moreover have "net_world ?n = net_world n" "remaining_at ?n i < remaining_at n i"
      using t by (simp_all add: at_phase_def remaining_defs)
    ultimately have "sim parts members ?n ob \<and> advances n ?n" by (rule sim_same [OF sim])
    moreover have "do_start rt (Caller i) t s n = ?n" using False by (auto simp: do_start_def plan)
    ultimately show ?thesis by metis
  qed
qed

text \<open>A connection that is in use is not cut while all members are up.\<close>

lemma not_cut:
  assumes "mesh parts members (net_world n)" and "asking parts members a req c"
  shows "\<not> cut (a, c) n" and "c \<in> set members"
proof -
  have "members \<noteq> []" using assms(1) by (simp add: mesh_def)
  then show c: "c \<in> set members" using assms(2) owner_member by (auto simp: asking_def)
  show "\<not> cut (a, c) n" using mesh_server [OF assms(1) c] assms(1) by (auto simp: cut_def mesh_def)
qed

lemma sim_start_handler:
  assumes sim: "sim parts members n ob" and t: "tasks n (Handler l) = Some t" "phase t = Routing"
    and s: "servers (net_world n) (at_node t) = Some s" and rt: "rt_ok rt"
  shows "(\<exists>ob'. effect_of rt parts members ob ob' \<and> sim parts members (do_start rt (Handler l) t s n) ob') \<and>
     advances n (do_start rt (Handler l) t s n)"
proof -
  note w = sim_worldD [OF sim]
  obtain i tc where h: "holder n l = Some (Caller i)" "tasks n (Caller i) = Some tc" "at_node tc = fst l"
    "phase tc = Awaiting (snd l)" "asking parts members (fst l) (asked tc) (snd l)"
    "at_stage n l (asked tc) (Served t)"
    by (rule handler_holder [OF w(1) t(1)])
  let ?a = "fst l" and ?c = "snd l" and ?req = "asked tc" and ?w = "net_world n"
  have st: "at_node t = ?c" "asked t = ?req" "events n l = []" "replies n l = []" using h(6) by simp_all
  have a: "?a \<in> set members" and good: "good_request ?req"
    using callerD [OF w(1) h(2)] h(3) by (simp_all add: caller_ok_def)
  have s: "servers ?w ?c = Some s" using s st(1) by simp
  have c: "?c \<in> set members" by (rule not_cut(2) [OF w(4) h(5)])
  obtain nd where plan: "do_plan s ?req = PlanLocal nd" "node_conn nd = None"
    using plan_at [OF w(7) s c, of ?req] h(5) by (auto simp: asking_def)
  obtain s' r where serve: "do_local rt s nd ?req = (s', r)" by (cases "do_local rt s nd ?req")
  obtain out resp resp' where r: "r = Inr resp" "wire_response resp = Delivered resp'" "answers out resp'"
    "cluster_inv parts members (put_server ?c s' ?w)"
    "table_step (here_of parts members ?a) rt ?req
       (cluster_abs parts members ?w) (cluster_abs parts members (put_server ?c s' ?w), out)"
    by (rule remote_answer [OF w(2) a s rt good h(5) plan serve])
  have only: "l' \<noteq> l \<Longrightarrow> holder n l' \<noteq> Some (Caller i)" for l'
    using holder_unique [OF w(1) h(1)] by blast
  let ?n = "at_phase (Handler l) t (Returning r) (n\<lparr>net_world := put_server ?c s' ?w\<rparr>)"
  have w': "net_world ?n = put_server ?c s' ?w" by (simp add: at_phase_def)
  have "at_stage ?n l ?req (Served (t\<lparr>phase := Returning r\<rparr>))"
    using st r(1,2) by (simp add: at_phase_def)
  then have "link_ok parts members ?n l"
    using h unfolding link_ok_def by (simp add: at_phase_def del: at_stage.simps) blast
  then have "follows parts members i n ob (fleeting ob \<union> temp_keys ?req) ?n"
    by (intro sim_frame [OF sim, where L = "{l}"])
       (use r h a good only heaps_in_local [OF w(7,3) c s serve] in \<open>auto simp: caller_ok_def at_phase_def\<close>)
  moreover have "call_at n i = Some (Pending ?a ?req)"
    using h st t by (simp add: call_at_def call_status_def link_status_def)
  moreover have "call_at ?n i = Some (Answered ?req resp')"
    using h st r(1,2) by (simp add: call_at_def call_status_def link_status_def at_phase_def)
  moreover have "remaining_at ?n i < remaining_at n i"
    using h st t by (simp add: at_phase_def remaining_defs)
  ultimately have "(\<exists>ob'. effect_of rt parts members ob ob' \<and> sim parts members ?n ob') \<and> advances n ?n"
    using sim_effect [OF sim _ _ _ _ r(3)] r(5) by (simp add: w')
  moreover have "do_start rt (Handler l) t s n = ?n" by (simp add: do_start_def plan serve st)
  ultimately show ?thesis by metis
qed

lemma sim_send:
  assumes sim: "sim parts members n ob" and t: "tasks n g = Some t" "phase t = Waiting c"
    and free: "holder n (at_node t, c) = None"
  shows "sim parts members (send_event g t c n) ob \<and> advances n (send_event g t c n)"
proof -
  note w = sim_worldD [OF sim]
  let ?l = "(at_node t, c)" and ?req = "asked t"
  obtain i where g: "g = Caller i"
  proof (cases g)
    case (Handler l)
    with t handler_holder [OF w(1)] show ?thesis by (metis at_stage.simps(2) phase.distinct(1,9))
  qed (rule that)
  have a: "at_node t \<in> set members" and good: "good_request ?req"
    and ask: "asking parts members (at_node t) ?req c"
    using callerD [OF w(1), of i t] t g by (simp_all add: caller_ok_def)
  have "wire_request ?req = Some ?req"
    using ask good_clean [OF good] by (auto simp: asking_def intro: wire_clean_request)
  then obtain ev where ev: "encode_event ?req = Some ev"
    using wire_request_None [of ?req] by (auto simp: encode_event_def)
  let ?n = "at_phase g t (Awaiting c)
      (n\<lparr>holder := (holder n)(?l \<mapsto> g), events := (events n)(?l := events n ?l @ [ev])\<rparr>)"
  note none = link_freeD [OF w(1) free]
  have "at_stage ?n ?l ?req Written" using none ev by (simp add: at_phase_def g)
  then have "link_ok parts members ?n ?l"
    using ask unfolding link_ok_def by (simp add: at_phase_def g del: at_stage.simps) blast
  moreover have "holder n l \<noteq> Some (Caller i)" for l by (rule not_holder [OF w(1)]) (use t g in auto)
  ultimately have "follows parts members i n ob (fleeting ob) ?n"
    by (intro sim_frame [OF sim, where L = "{?l}"])
       (use w a good free g in \<open>auto simp: caller_ok_def at_phase_def\<close>)
  moreover have "call_at ?n i = call_at n i"
    using t g none by (simp add: call_at_def call_status_def link_status_def at_phase_def)
  moreover have "net_world ?n = net_world n" "remaining_at ?n i < remaining_at n i"
    using t g none by (simp_all add: at_phase_def remaining_defs)
  ultimately have "sim parts members ?n ob \<and> advances n ?n" by (rule sim_same [OF sim])
  moreover have "send_event g t c n = ?n"
    using ev not_cut(1) [OF w(4) ask] by (simp add: send_event_def Let_def)
  ultimately show ?thesis by simp
qed

text \<open>The goroutines at the two halves of \<open>roundTrip\<close> are callers.\<close>

lemma awaiting_caller:
  assumes inv: "net_inv parts members K n" and t: "tasks n g = Some t" "phase t = Awaiting c"
  obtains i st where "g = Caller i" "tasks n (Caller i) = Some t" "caller_ok parts members n i t"
    "holder n (at_node t, c) = Some (Caller i)" "asking parts members (at_node t) (asked t) c"
    "at_stage n (at_node t, c) (asked t) st"
proof -
  obtain i where g: "g = Caller i"
  proof (cases g)
    case (Handler l)
    with t handler_holder [OF inv] show ?thesis by (metis at_stage.simps(2) phase.distinct(3,11))
  qed (rule that)
  have ok: "caller_ok parts members n i t" using callerD [OF inv] t(1) g by simp
  then have h: "holder n (at_node t, c) = Some (Caller i)" using t(2) by (simp add: caller_ok_def)
  obtain i' t' st where "Caller i = Caller i'" "tasks n (Caller i') = Some t'" "at_node t' = fst (at_node t, c)"
    "phase t' = Awaiting (snd (at_node t, c))"
    "asking parts members (fst (at_node t, c)) (asked t') (snd (at_node t, c))"
    "at_stage n (at_node t, c) (asked t') st" by (rule link_okD [OF inv h])
  with that g ok h t(1) show thesis by simp
qed

lemma sim_take:
  assumes sim: "sim parts members n ob" and t: "tasks n g = Some t" "phase t = Awaiting c"
    and m: "replies n (at_node t, c) = m # ms"
  shows "sim parts members (take_reply g t c m n) ob \<and> advances n (take_reply g t c m n)"
proof -
  note w = sim_worldD [OF sim]
  let ?l = "(at_node t, c)"
  obtain i st where g: "g = Caller i" and ok: "caller_ok parts members n i t"
    and h: "holder n ?l = Some (Caller i)" and st: "at_stage n ?l (asked t) st"
    by (rule awaiting_caller [OF w(1) t])
  obtain resp where r: "m = Inr resp" "ms = []" "events n ?l = []" "tasks n (Handler ?l) = None"
    using st m by (cases st) auto
  let ?n = "take_reply g t c m n"
  have only: "l \<noteq> ?l \<Longrightarrow> holder n l \<noteq> Some (Caller i)" for l using holder_unique [OF w(1) h] by blast
  have "follows parts members i n ob (fleeting ob) ?n"
    by (rule sim_frame [OF sim, where L = "{?l}"])
       (use w g h r only ok m in
         \<open>auto simp: caller_ok_def take_reply_def at_phase_def Let_def link_ok_def\<close>)
  moreover have "call_at ?n i = call_at n i"
    using t g m r by (simp add: call_at_def call_status_def link_status_def take_reply_def at_phase_def Let_def)
  moreover have "net_world ?n = net_world n" "remaining_at ?n i < remaining_at n i"
    using t g m by (simp_all add: take_reply_def at_phase_def Let_def remaining_defs)
  ultimately show ?thesis by (rule sim_same [OF sim])
qed

lemma sim_no_eof:
  assumes "sim parts members n ob" and "tasks n g = Some t" and "phase t = Awaiting c"
  shows "\<not> cut (at_node t, c) n"
  using awaiting_caller [OF sim_worldD(1) [OF assms(1)] assms(2,3)] not_cut(1) [OF sim_worldD(4) [OF assms(1)]]
  by metis

text \<open>Only the holder of the mutex has something on the connection.\<close>

lemma link_used:
  assumes inv: "net_inv parts members K n"
    and used: "events n l \<noteq> [] \<or> replies n l \<noteq> [] \<or> tasks n (Handler l) \<noteq> None"
  obtains i t st where "holder n l = Some (Caller i)" "tasks n (Caller i) = Some t" "at_node t = fst l"
    "phase t = Awaiting (snd l)" "asking parts members (fst l) (asked t) (snd l)"
    "at_stage n l (asked t) st" "good_request (asked t)" "caller_ok parts members n i t"
    "\<And>l'. l' \<noteq> l \<Longrightarrow> holder n l' \<noteq> Some (Caller i)"
proof -
  obtain g where g: "holder n l = Some g" using link_freeD [OF inv, of l] used by (cases "holder n l") auto
  obtain i t st where i: "g = Caller i" "tasks n (Caller i) = Some t" "at_node t = fst l"
    "phase t = Awaiting (snd l)" "asking parts members (fst l) (asked t) (snd l)"
    "at_stage n l (asked t) st" by (rule link_okD [OF inv g])
  have ok: "caller_ok parts members n i t" by (rule callerD [OF inv i(2)])
  show thesis
  proof (rule that)
    show "holder n l = Some (Caller i)" using g i(1) by simp
    show "good_request (asked t)" using ok by (simp add: caller_ok_def)
    show "holder n l' \<noteq> Some (Caller i)" if "l' \<noteq> l" for l'
      using holder_unique [OF inv g, of l'] i(1) that by auto
  qed (rule i ok)+
qed

lemma sim_read:
  assumes sim: "sim parts members n ob" and idle: "tasks n (Handler l) = None" and ev: "events n l = ev # evs"
  shows "sim parts members (read_event l ev n) ob \<and> advances n (read_event l ev n)"
proof -
  note w = sim_worldD [OF sim]
  obtain i t st where h: "holder n l = Some (Caller i)" "tasks n (Caller i) = Some t" "at_node t = fst l"
    "phase t = Awaiting (snd l)" "asking parts members (fst l) (asked t) (snd l)"
    "at_stage n l (asked t) st" "good_request (asked t)" "caller_ok parts members n i t"
    and only: "\<And>l'. l' \<noteq> l \<Longrightarrow> holder n l' \<noteq> Some (Caller i)"
    by (rule link_used [OF w(1), of l]) (use ev in auto)
  have st: "encode_event (asked t) = Some ev" "evs = []" "replies n l = []"
    using h(6) ev by (cases st; auto)+
  have "wire_request (asked t) = Some (asked t)"
    using h(5) good_clean [OF h(7)] by (auto simp: asking_def intro: wire_clean_request)
  then have req: "handle_event ev = HRequest (asked t)"
    using encode_handle [OF st(1)] by (metis option.inject)
  let ?th = "\<lparr>at_node = snd l, asked = asked t, phase = Routing\<rparr>"
  let ?n = "n\<lparr>events := (events n)(l := tl (events n l)), tasks := (tasks n)(Handler l \<mapsto> ?th)\<rparr>"
  have "at_stage ?n l (asked t) (Served ?th)" using ev st by simp
  then have "link_ok parts members ?n l"
    using h unfolding link_ok_def by (simp del: at_stage.simps) blast
  then have "follows parts members i n ob (fleeting ob) ?n"
    by (intro sim_frame [OF sim, where L = "{l}"])
       (use w h only in \<open>auto simp: caller_ok_def\<close>)
  moreover have "call_at ?n i = call_at n i"
    using h st idle by (simp add: call_at_def call_status_def link_status_def)
  moreover have "net_world ?n = net_world n" "remaining_at ?n i < remaining_at n i"
    using h st idle by (simp_all add: remaining_defs)
  ultimately have "sim parts members ?n ob \<and> advances n ?n" by (rule sim_same [OF sim])
  moreover have "read_event l ev n = ?n" by (simp add: read_event_def req)
  ultimately show ?thesis by simp
qed

text \<open>A handler serves requests for keys, whose answers nobody changes.\<close>

lemma served_reads:
  assumes "net_inv parts members K n" and "tasks n (Handler l) = Some t"
  shows "reads (asked t) r r' \<longleftrightarrow> r' = r"
proof -
  obtain tc :: task where "asking parts members (fst l) (asked tc) (snd l)" "at_stage n l (asked tc) (Served t)"
    by (rule handler_holder [OF assms])
  then have "req_hash (asked t) \<noteq> []" by (simp add: asking_def)
  then show ?thesis by (rule reads_plain)
qed

lemma sim_reply:
  assumes sim: "sim parts members n ob" and t: "tasks n (Handler l) = Some t" "phase t = Returning r"
  shows "sim parts members (write_reply l r n) ob \<and> advances n (write_reply l r n)"
proof -
  note w = sim_worldD [OF sim]
  obtain i tc st where h: "holder n l = Some (Caller i)" "tasks n (Caller i) = Some tc" "at_node tc = fst l"
    "phase tc = Awaiting (snd l)" "asking parts members (fst l) (asked tc) (snd l)"
    "at_stage n l (asked tc) st" "good_request (asked tc)" "caller_ok parts members n i tc"
    and only: "\<And>l'. l' \<noteq> l \<Longrightarrow> holder n l' \<noteq> Some (Caller i)"
    by (rule link_used [OF w(1), of l]) (use t in auto)
  obtain resp resp' where r: "r = Inr resp" "wire_response resp = Delivered resp'"
    "events n l = []" "replies n l = []"
  proof -
    have "st = Served t" using h(6) t(1) by (cases st) simp_all
    then have "at_stage n l (asked tc) (Served t)" using h(6) by simp
    then have "events n l = []" "replies n l = []"
      "\<exists>resp resp'. phase t = Returning (Inr resp) \<and> wire_response resp = Delivered resp'"
      using t(2) by simp_all
    with t(2) that show ?thesis by auto
  qed
  let ?n = "n\<lparr>tasks := (tasks n)(Handler l := None), replies := (replies n)(l := replies n l @ [Inr resp'])\<rparr>"
  have "at_stage ?n l (asked tc) (Replied resp')" using r by simp
  then have "link_ok parts members ?n l"
    using h unfolding link_ok_def by (simp del: at_stage.simps) blast
  then have "follows parts members i n ob (fleeting ob) ?n"
    by (intro sim_frame [OF sim, where L = "{l}"])
       (use w h only in \<open>auto simp: caller_ok_def\<close>)
  moreover have "call_at ?n i = call_at n i"
    using h r t by (simp add: call_at_def call_status_def link_status_def)
  moreover have "net_world ?n = net_world n" "remaining_at ?n i < remaining_at n i"
    using h r t by (simp_all add: remaining_defs)
  ultimately have "sim parts members ?n ob \<and> advances n ?n" by (rule sim_same [OF sim])
  moreover have "write_reply l r n = ?n" by (simp add: write_reply_def r)
  ultimately show ?thesis by simp
qed

subsection \<open>Timers\<close>

lemma quiet_net:
  assumes "tasks n' = tasks n" and "holder n' = holder n" and "events n' = events n" and "replies n' = replies n"
  shows "call_at n' = call_at n" "link_ok parts members n' l = link_ok parts members n l"
    "caller_ok parts members n' i t = caller_ok parts members n i t" "remaining_at n' = remaining_at n"
proof -
  have "link_remaining n' = link_remaining n" by (intro ext link_remaining_cong) (simp_all add: assms)
  then have "remaining n' = remaining n" by (intro ext) (simp add: remaining_def split: phase.split)
  then show "remaining_at n' = remaining_at n" by (intro ext) (simp add: remaining_at_def assms(1) split: option.split)
  have "link_status n' = link_status n" by (intro ext link_status_cong) (simp_all add: assms)
  then have "call_status n' = call_status n" by (intro ext) (simp add: call_status_def split: phase.split)
  then show "call_at n' = call_at n" by (intro ext) (simp add: call_at_def assms(1))
  have stage: "at_stage n' l req st = at_stage n l req st" for req st by (cases st) (simp_all add: assms)
  show "link_ok parts members n' l = link_ok parts members n l" by (simp only: link_ok_def assms stage)
  have "phase_ok parts members n' g t p = phase_ok parts members n g t p" for g p
    by (cases p) (simp_all add: assms(2))
  then show "caller_ok parts members n' i t = caller_ok parts members n i t" by (simp add: caller_ok_def)
qed

text \<open>A store that loses keys of its queue and schedules nothing.\<close>

definition fades :: "store \<Rightarrow> store \<Rightarrow> bool" where
  "fades st st' \<longleftrightarrow> (store_inv st \<longrightarrow> store_inv st') \<and> set (expire_heap st') \<subseteq> set (expire_heap st) \<and>
     (\<exists>D \<subseteq> edata ` set (expire_heap st). store_abs st' = store_abs st |` (- D))"

lemma restrict_none: "m |` (- {}) = m"
  by (simp add: restrict_map_def fun_eq_iff)

lemma fades_timer: "fades st (st\<lparr>expire_timer := tm\<rparr>)"
  unfolding fades_def using restrict_none [of "store_abs st"] by (auto intro!: exI [of _ "{}"])

lemma fades_sweep: "\<exists>st'. delete_expired_keys c st = Inr st' \<and> fades st st'"
proof -
  obtain st' where st': "delete_expired_keys c st = Inr st'"
    "expire_heap st' = kept_prefix c (expire_heap st)"
    "store_abs st' = store_abs st |` (- edata ` set (due_suffix c (expire_heap st)))"
    "store_inv st \<longrightarrow> store_inv st'"
    using delete_expired_result by blast
  have "edata ` set (due_suffix c (expire_heap st)) \<subseteq> edata ` set (expire_heap st)"
    by (auto dest: set_takeWhileD)
  with st'(2-4) set_kept_prefix [of c "expire_heap st"] have "fades st st'"
    unfolding fades_def by (metis (no_types, lifting))
  with st'(1) show ?thesis by blast
qed

lemma fades_resched: "\<exists>st'. reschedule now st = Inr st' \<and> fades st st'"
  using fades_timer [of st "expire_timer st"] by (auto simp: reschedule_result fades_timer)

lemma put_server_outside:
  assumes "partial_mesh parts members w" and "b \<notin> set members"
  shows "cluster_abs parts members (put_server b s w) = cluster_abs parts members w"
    "placed parts members (put_server b s w) = placed parts members w"
    "partial_mesh parts members (put_server b s w)"
proof -
  have "owner parts members k \<noteq> b" for k using assms owner_member by (auto simp: partial_mesh_def)
  then show "cluster_abs parts members (put_server b s w) = cluster_abs parts members w"
    by (simp add: cluster_abs_def fun_eq_iff)
  show "placed parts members (put_server b s w) = placed parts members w"
    using assms(2) by (auto simp: placed_def)
  show "partial_mesh parts members (put_server b s w)"
    using assms by (auto simp: partial_mesh_def list_all_iff)
qed

lemma fades_degraded:
  assumes inv: "degraded_inv parts members w" and h: "heaps_in members K w"
    and s: "servers w b = Some s" and f: "fades (sstore s) st"
  shows "degraded_inv parts members (put_server b (s\<lparr>sstore := st\<rparr>) w)"
    and "heaps_in members K (put_server b (s\<lparr>sstore := st\<rparr>) w)"
    and "\<exists>D \<subseteq> K. cluster_abs parts members (put_server b (s\<lparr>sstore := st\<rparr>) w) =
           cluster_abs parts members w |` (- D)"
proof -
  let ?w = "put_server b (s\<lparr>sstore := st\<rparr>) w"
  note m = degradedD(1) [OF inv] and p = degradedD(2) [OF inv] and g = degradedD(3) [OF inv]
  have heap: "set (expire_heap st) \<subseteq> set (expire_heap (sstore s))" using f by (simp add: fades_def)
  show "heaps_in members K ?w"
    unfolding heaps_in_def
  proof (intro ballI allI impI)
    fix a sa assume a: "a \<in> set members" "servers ?w a = Some sa"
    then show "edata ` set (expire_heap (sstore sa)) \<subseteq> K"
      using h s heap by (cases "a = b") (auto simp: heaps_in_def subset_iff)
  qed
  have "\<exists>D \<subseteq> K. cluster_abs parts members ?w = cluster_abs parts members w |` (- D) \<and>
      partial_mesh parts members ?w \<and> placed parts members ?w"
  proof (cases "b \<in> set members")
    case False
    with put_server_outside [OF m] p restrict_none [of "cluster_abs parts members w"] show ?thesis
      by (intro exI [of _ "{}"]) simp
  next
    case True
    obtain D where D: "D \<subseteq> edata ` set (expire_heap (sstore s))" "store_abs st = store_abs (sstore s) |` (- D)"
      using f by (auto simp: fades_def)
    have K: "D \<subseteq> K" using D(1) h True s by (fastforce simp: heaps_in_def)
    have frame: "store_abs st k = store_abs (sstore s) k" if "owner parts members k \<noteq> b" for k
    proof (cases "store_abs (sstore s) k")
      case (Some r)
      with p True s that show ?thesis by (auto simp: placed_def)
    qed (simp add: D(2) restrict_map_def)
    note upd = abs_put_server [OF p True s frame]
    have "store_inv (sstore s)" using partial_server(2) [OF m True s] by (simp add: mesh_node_def)
    then have "partial_mesh parts members ?w" using f by (intro partial_update [OF m True s]) (simp add: fades_def)
    moreover have "cluster_abs parts members ?w =
        cluster_abs parts members w |` (- (D \<inter> {k. owner parts members k = b}))"
      unfolding upd(1) using s by (auto simp: fun_eq_iff restrict_map_def D(2) cluster_abs_def)
    ultimately show ?thesis using upd(2) K by blast
  qed
  then obtain D where D: "D \<subseteq> K" "cluster_abs parts members ?w = cluster_abs parts members w |` (- D)"
    "partial_mesh parts members ?w" "placed parts members ?w" by blast
  then show "\<exists>D \<subseteq> K. cluster_abs parts members ?w = cluster_abs parts members w |` (- D)" by blast
  have "good_table (cluster_abs parts members ?w)"
    using g by (auto simp: good_table_def D(2) restrict_map_def split: if_splits)
  with D(3,4) show "degraded_inv parts members ?w" by (simp add: degraded_inv_def)
qed

lemma fades_world:
  assumes "cluster_inv parts members w" and "heaps_in members K w"
    and "servers w b = Some s" and "fades (sstore s) st"
  shows "cluster_inv parts members (put_server b (s\<lparr>sstore := st\<rparr>) w)"
    and "heaps_in members K (put_server b (s\<lparr>sstore := st\<rparr>) w)"
    and "\<exists>D \<subseteq> K. cluster_abs parts members (put_server b (s\<lparr>sstore := st\<rparr>) w) =
           cluster_abs parts members w |` (- D)"
  using fades_degraded [OF _ assms(2-4), of parts] assms(1) by (auto simp: cluster_degraded)

lemma sim_background:
  assumes sim: "sim parts members n ob" and s: "servers (net_world n) b = Some s"
    and f: "fades (sstore s) st"
  shows "\<exists>D \<subseteq> fleeting ob. sim parts members ((put_store b s st n)\<lparr>callbacks := cbs\<rparr>)
           (ob\<lparr>cells := cells ob |` (- D)\<rparr>)"
proof -
  note w = sim_worldD [OF sim]
  let ?n = "(put_store b s st n)\<lparr>callbacks := cbs\<rparr>"
  note new = fades_world [OF w(2,3) s f]
  have nw: "net_world ?n = put_server b (s\<lparr>sstore := st\<rparr>) (net_world n)" by (simp add: put_store_def)
  have same: "tasks ?n = tasks n" "holder ?n = holder n" "events ?n = events n" "replies ?n = replies n"
    by (simp_all add: put_store_def)
  note q = quiet_net [OF same]
  have "net_inv parts members (fleeting ob) ?n"
    using w(1) new(1,2) unfolding net_inv_def nw q same by simp
  with new(3) w(5,6) q(1) show ?thesis by (auto simp: sim_def nw)
qed

section \<open>Runs\<close>

fun label_ok :: "tcp_addr list \<Rightarrow> label \<Rightarrow> bool" where
  "label_ok members (Visible (Call i a req)) = (a \<in> set members \<and> good_request req)"
| "label_ok members e = True"

lemma obj_effect_of:
  assumes "obj_run (here_of parts members) ob0 acts ob" and "effect_of rt parts members ob ob'" and "rt_ok rt"
  shows "obj_run (here_of parts members) ob0 acts ob'"
  using assms(2) obj_effect [OF assms(1) _ assms(3)] unfolding effect_of_def by blast

lemma sim_step:
  assumes step: "net_step n e n'" and sim: "sim parts members n ob" and ok: "label_ok members e"
    and run: "obj_run (here_of parts members) ob0 acts ob"
  shows "\<exists>ob'. obj_run (here_of parts members) ob0 (acts @ visible [e]) ob' \<and> sim parts members n' ob'"
proof -
  have background: "\<exists>ob'. obj_run (here_of parts members) ob0 acts ob' \<and>
      sim parts members ((put_store b s st n)\<lparr>callbacks := cbs\<rparr>) ob'"
    if "servers (net_world n) b = Some s" and "fades (sstore s) st" for b s st cbs
    using sim_background [OF sim that, of cbs] obj_evict [OF run] by blast
  from step show ?thesis
  proof (cases rule: net_stepE)
    case (call i a req)
    from call(1) ok have a: "a \<in> set members" "good_request req" by simp_all
    note new = sim_call [OF sim call(3) a]
    from obj_call [OF run new(1), of a req] new(2) call(1,2) show ?thesis by auto
  next
    case (return i t r r')
    obtain resp where r: "r = Inr resp" "calls ob i = Some (Answered (asked t) resp)"
      "sim parts members n' (ob\<lparr>calls := (calls ob)(i := None)\<rparr>)"
      using sim_return [OF sim return(3,4)] return(2) by metis
    then obtain resp' where "r' = Inr resp'" "read_back (asked t) resp resp'"
      using return(5) by (auto simp: reads_Inr)
    with obj_return [OF run r(2)] r(3) return(1) show ?thesis by auto
  next
    case (start g t s rt)
    have "\<exists>ob'. (ob' = ob \<or> effect_of rt parts members ob ob') \<and> sim parts members n' ob'"
    proof (cases g)
      case (Caller i)
      with sim_start_caller [OF sim, of i t s rt] start show ?thesis by simp
    next
      case (Handler l)
      with sim_start_handler [OF sim, of l t s rt] start show ?thesis by auto
    qed
    with obj_effect_of [OF run _ start(6)] run start(1) show ?thesis by auto
  next
    case (send g t c)
    with sim_send [OF sim send(3-5)] run show ?thesis by auto
  next
    case (take g t c m ms)
    with sim_take [OF sim take(3-5)] run show ?thesis by auto
  next
    case (eof g t c)
    with sim_no_eof [OF sim eof(3,4)] show ?thesis by simp
  next
    case (read l ev evs)
    with sim_read [OF sim read(3,4)] run show ?thesis by auto
  next
    case (reply l t r r')
    with sim_reply [OF sim reply(3,4)] served_reads [OF sim_worldD(1) [OF sim] reply(3)] run
    show ?thesis by auto
  next
    case (fire b s now c tm)
    with background [OF fire(3) fades_timer] show ?thesis by simp
  next
    case (sweep b s c)
    obtain st where st: "delete_expired_keys c (sstore s) = Inr st" "fades (sstore s) st"
      using fades_sweep by blast
    with background [OF sweep(3) st(2)] sweep(1,2) show ?thesis by (simp add: timer_goes_def)
  next
    case (resched b s now)
    obtain st where st: "reschedule now (sstore s) = Inr st" "fades (sstore s) st"
      using fades_resched by blast
    with background [OF resched(3) st(2)] resched(1,2) show ?thesis by (simp add: timer_goes_def)
  qed
qed

lemma sim_run:
  assumes "net_run n es n'" and "sim parts members n ob" and "list_all (label_ok members) es"
  shows "\<exists>ob'. obj_run (here_of parts members) ob (visible es) ob' \<and> sim parts members n' ob'"
  using assms
proof (induction rule: net_run.induct)
  case (net_snoc n es n' e n'')
  then obtain ob' where "obj_run (here_of parts members) ob (visible es) ob'" "sim parts members n' ob'"
    by auto
  with sim_step [OF net_snoc.hyps(2)] net_snoc.prems(2) show ?case by (auto simp del: visible.simps)
qed (auto intro: obj_nil)

definition obj_init :: "table \<Rightarrow> string set \<Rightarrow> obj" where
  "obj_init m K = \<lparr>cells = m, fleeting = K, calls = Map.empty\<rparr>"

lemma sim_init:
  assumes "cluster_inv parts members w" and "heaps_in members K w"
  shows "sim parts members (net_init w) (obj_init (cluster_abs parts members w) K)"
proof -
  have "call_at (net_init w) = Map.empty" by (intro ext) (simp add: call_at_def net_init_def)
  moreover have "net_inv parts members K (net_init w)"
    using assms by (simp add: net_inv_def net_init_def link_ok_def)
  ultimately show ?thesis by (simp add: sim_def obj_init_def net_init_def)
qed

end
