(* ===== verification/Progress.thy ===== *)
theory Progress
  imports Linearizable
begin

text \<open>
  Requests of the concurrent cluster come to their end: every step of a request takes one away from
  the seven it needs at most, and as long as a request is under way some step for one is possible.
\<close>

section \<open>The work left\<close>

text \<open>What a step does to the work left: a call adds seven steps, a timer none, any other takes one away.\<close>

fun pays :: "label \<Rightarrow> net \<Rightarrow> net \<Rightarrow> bool" where
  "pays (Visible (Call i a req)) n n' = (others_stay i n n' \<and> remaining_at n' i = 7)"
| "pays (Background b) n n' = (remaining_at n' = remaining_at n)"
| "pays e n n' = advances n n'"

lemma put_store_remaining: "remaining_at ((put_store b s st n)\<lparr>callbacks := cbs\<rparr>) = remaining_at n"
  by (rule quiet_net(4)) (simp_all add: put_store_def)

lemma sim_pays:
  assumes step: "net_step n e n'" and sim: "sim parts members n ob" and ok: "label_ok members e"
  shows "pays e n n'"
  using step
proof (cases rule: net_stepE)
  case (call i a req)
  from call(1) ok have a: "a \<in> set members" "good_request req" by simp_all
  from sim_call(3) [OF sim call(3) a] call(1,2) show ?thesis by (simp add: remaining_defs)
next
  case (return i t r)
  show ?thesis using sim_return [OF sim return(3,4)] return(1,2) by (metis pays.simps(3))
next
  case (start g t s rt)
  have "advances n (do_start rt g t s n)"
  proof (cases g)
    case (Caller i)
    with sim_start_caller [OF sim, of i t s rt] start show ?thesis by simp
  next
    case (Handler l)
    with sim_start_handler [OF sim, of l t s rt] start show ?thesis by simp
  qed
  with start(1,2) show ?thesis by simp
next
  case (send g t c)
  with sim_send [OF sim send(3-5)] show ?thesis by simp
next
  case (take g t c m ms)
  with sim_take [OF sim take(3-5)] show ?thesis by simp
next
  case (eof g t c)
  with sim_no_eof [OF sim eof(3,4)] show ?thesis by simp
next
  case (read l ev evs)
  with sim_read [OF sim read(3,4)] show ?thesis by simp
next
  case (reply l t r r')
  with sim_reply [OF sim reply(3,4)] served_reads [OF sim_worldD(1) [OF sim] reply(3)] show ?thesis by simp
next
  case (fire b s now c tm)
  then show ?thesis by (simp add: put_store_remaining)
next
  case (sweep b s c)
  obtain st where "delete_expired_keys c (sstore s) = Inr st" using fades_sweep by blast
  with sweep(1,2) show ?thesis by (simp add: timer_goes_def put_store_remaining)
next
  case (resched b s now)
  obtain st where "reschedule now (sstore s) = Inr st" using fades_resched by blast
  with resched(1,2) show ?thesis by (simp add: timer_goes_def put_store_remaining)
qed

definition total_left :: "net \<Rightarrow> nat" where
  "total_left n = sum (remaining_at n) {i. remaining_at n i \<noteq> 0}"

definition finite_left :: "net \<Rightarrow> bool" where
  "finite_left n \<longleftrightarrow> finite {i. remaining_at n i \<noteq> 0}"

lemma total_change:
  assumes fin: "finite_left n" and stay: "others_stay i n n'"
  shows "finite_left n'" and "total_left n' + remaining_at n i = total_left n + remaining_at n' i"
proof -
  let ?S = "{j. remaining_at n j \<noteq> 0}" and ?S' = "{j. remaining_at n' j \<noteq> 0}"
  have same: "remaining_at n' j = remaining_at n j" if "j \<noteq> i" for j
    using stay that by (simp add: others_stay_def)
  have sub: "?S' \<subseteq> insert i ?S" using same by fastforce
  have fin: "finite ?S" using fin by (simp add: finite_left_def)
  then show "finite_left n'" unfolding finite_left_def using sub by (meson finite.insertI finite_subset)
  have "total_left n = sum (remaining_at n) (insert i ?S)"
    unfolding total_left_def by (rule sum.mono_neutral_left) (use fin in auto)
  also have "\<dots> = remaining_at n i + sum (remaining_at n) (?S - {i})"
    by (rule sum.insert_remove [OF fin])
  finally have one: "total_left n = remaining_at n i + sum (remaining_at n) (?S - {i})" .
  have "total_left n' = sum (remaining_at n') (insert i ?S)"
    unfolding total_left_def by (rule sum.mono_neutral_left) (use fin sub in auto)
  also have "\<dots> = remaining_at n' i + sum (remaining_at n') (?S - {i})"
    by (rule sum.insert_remove [OF fin])
  also have "sum (remaining_at n') (?S - {i}) = sum (remaining_at n) (?S - {i})"
    by (rule sum.cong) (simp_all add: same)
  finally show "total_left n' + remaining_at n i = total_left n + remaining_at n' i" using one by simp
qed

text \<open>The steps of requests in a run, and its calls.\<close>

fun works :: "label \<Rightarrow> bool" where
  "works (Visible (Return i r)) = True"
| "works (Work g) = True"
| "works e = False"

fun is_call :: "label \<Rightarrow> bool" where
  "is_call (Visible (Call i a req)) = True"
| "is_call e = False"

abbreviation worked :: "label list \<Rightarrow> nat" where
  "worked es \<equiv> length (filter works es)"

abbreviation called :: "label list \<Rightarrow> nat" where
  "called es \<equiv> length (filter is_call es)"

lemma pays_total:
  assumes "pays e n n'" and "finite_left n"
  shows "finite_left n' \<and> total_left n' + worked [e] \<le> total_left n + 7 * called [e]"
proof -
  have adv: ?thesis if "advances n n'" "\<not> is_call e"
    using that total_change [OF assms(2)] unfolding advances_def by (cases "works e") fastforce+
  have same: ?thesis if "remaining_at n' = remaining_at n" "\<not> works e"
    using that assms(2) by (simp add: total_left_def finite_left_def)
  show ?thesis
  proof (cases e)
    case (Visible act)
    show ?thesis
    proof (cases act)
      case (Call i a req)
      then show ?thesis using assms total_change [OF assms(2), of i n'] Visible by simp
    qed (use assms adv Visible in simp)
  qed (use assms adv same in simp_all)
qed

lemma run_total:
  assumes "net_run n es n'" and "sim parts members n ob" and "list_all (label_ok members) es" and "finite_left n"
  shows "finite_left n' \<and> total_left n' + worked es \<le> total_left n + 7 * called es"
  using assms
proof (induction rule: net_run.induct)
  case (net_snoc n es n' e n'')
  then have ok: "list_all (label_ok members) es" "label_ok members e" by simp_all
  obtain ob' where ob': "sim parts members n' ob'"
    using sim_run [OF net_snoc.hyps(1) net_snoc.prems(1) ok(1)] by blast
  have IH: "finite_left n'" "total_left n' + worked es \<le> total_left n + 7 * called es"
    using net_snoc.IH [OF net_snoc.prems(1) ok(1) net_snoc.prems(3)] by simp_all
  from pays_total [OF sim_pays [OF net_snoc.hyps(2) ob' ok(2)] IH(1)] IH(2) show ?case by auto
qed simp

section \<open>No request is stuck\<close>

text \<open>Whoever holds a mutex can be served.\<close>

lemma stage_step:
  assumes sim: "sim parts members n ob" and ask: "asking parts members (fst l) req (snd l)"
    and t: "tasks n g = Some t" "phase t = Awaiting (snd l)" "at_node t = fst l" and st: "at_stage n l req st"
  shows "\<exists>e n'. works e \<and> net_step n e n'"
proof -
  note w = sim_worldD [OF sim]
  have cut: "\<not> cut l n" and c: "snd l \<in> set members" using not_cut [OF w(4) ask] by simp_all
  show ?thesis
  proof (cases st)
    case Written
    with st obtain ev where "events n l = [ev]" "tasks n (Handler l) = None" by auto
    from read [OF this(2,1) cut] show ?thesis by (intro exI conjI) (simp_all add: works.simps(2))
  next
    case (Served th)
    with st have th: "tasks n (Handler l) = Some th" "at_node th = snd l"
      "phase th = Routing \<or> (\<exists>resp. phase th = Returning (Inr resp))" by auto
    obtain s where s: "servers (net_world n) (snd l) = Some s" using mesh_server [OF w(4) c] by blast
    show ?thesis
      using th start [OF th(1) _ _ rt_ok_rt_at, of s 0] reply [OF th(1)] reads_total s by (metis works.simps(2))
  next
    case (Replied resp)
    with st have "replies n l = Inr resp # []" by simp
    with take [OF t(1,2), of "Inr resp" "[]"] t(3) show ?thesis by (metis works.simps(2) prod.collapse)
  qed
qed

lemma never_stuck:
  assumes sim: "sim parts members n ob" and t: "tasks n (Caller i) = Some t"
  shows "\<exists>e n'. works e \<and> net_step n e n'"
proof -
  note w = sim_worldD [OF sim]
  have ok: "caller_ok parts members n i t" by (rule callerD [OF w(1) t])
  have held: "\<exists>e n'. works e \<and> net_step n e n'" if "holder n l = Some g" for l g
    by (rule link_okD [OF w(1) that]) (metis stage_step [OF sim])
  show ?thesis
  proof (cases "phase t")
    case Routing
    have "at_node t \<in> set members" using ok by (simp add: caller_ok_def)
    then obtain s where "servers (net_world n) (at_node t) = Some s" using mesh_server [OF w(4)] by blast
    from start [OF t Routing this rt_ok_rt_at] show ?thesis by (metis works.simps(2))
  next
    case (Waiting c)
    show ?thesis
    proof (cases "holder n (at_node t, c)")
      case None
      from send [OF t Waiting None] show ?thesis by (metis works.simps(2))
    qed (rule held)
  next
    case (Awaiting c)
    with ok have "holder n (at_node t, c) = Some (Caller i)" by (simp add: caller_ok_def)
    then show ?thesis by (rule held)
  next
    case (Returning r)
    from return [OF t Returning] reads_total show ?thesis by (metis works.simps(1))
  qed
qed

end
