(* ===== verification/Concurrent_Api.thy ===== *)
theory Concurrent_Api
  imports Memhashd Progress
begin

text \<open>
  What the concurrent cluster of theory \<open>Concurrent\<close> promises once its members were started with
  flags that name one another (theory \<open>Memhashd\<close>), and a run of it on the cluster of
  \<open>docker-compose.yml\<close>.
\<close>

section \<open>From the start\<close>

abbreviation booted :: "(tcp_addr \<Rightarrow> string) \<Rightarrow> network \<Rightarrow> (tcp_addr \<Rightarrow> nat \<Rightarrow> string) \<Rightarrow>
    (tcp_addr \<Rightarrow> nat list) \<Rightarrow> flags list \<Rightarrow> net" where
  "booted i dial uuid finish fls \<equiv> net_init (boot_world i dial uuid finish fls)"

abbreviation empty_obj :: obj where
  "empty_obj \<equiv> obj_init Map.empty {}"

text \<open>The flags of a cluster whose members find one another.\<close>

definition sound_start :: "int64 \<Rightarrow> network \<Rightarrow> (tcp_addr \<Rightarrow> nat list) \<Rightarrow> flags list \<Rightarrow> bool" where
  "sound_start parts dial finish fls \<longleftrightarrow>
     same_cluster parts fls \<and> 0 < sint parts \<and> sint parts < 2 ^ 32 \<and>
     (\<forall>fl \<in> set fls. peers_answer (dial (fl_server_addr fl)) fl) \<and>
     (\<forall>fl \<in> set fls. set (finish (fl_server_addr fl)) = {0..<length (fl_join fl)})"

lemma booted_sim:
  assumes "sound_start parts dial finish fls"
  shows "sim (nat (sint parts)) (map fl_server_addr fls) (booted i dial uuid finish fls) empty_obj"
proof -
  let ?p = "nat (sint parts)" and ?ms = "map fl_server_addr fls" and ?w = "boot_world i dial uuid finish fls"
  have "cluster_inv ?p ?ms ?w" "cluster_abs ?p ?ms ?w = Map.empty"
    and blank: "\<forall>a \<in> set ?ms. \<forall>s. servers ?w a = Some s \<longrightarrow> blank (sstore s)"
    using boot_world_inv [of parts fls dial finish i uuid] assms by (simp_all add: sound_start_def)
  moreover have "heaps_in ?ms {} ?w" using blank by (simp add: heaps_in_def blank_def)
  ultimately show ?thesis using sim_init by metis
qed

lemma booted_run:
  assumes "sound_start parts dial finish fls" and "net_run (booted i dial uuid finish fls) es n"
    and "list_all (label_ok (map fl_server_addr fls)) es"
  obtains ob where "obj_run (here_of (nat (sint parts)) (map fl_server_addr fls)) empty_obj (visible es) ob"
    "sim (nat (sint parts)) (map fl_server_addr fls) n ob"
  using sim_run [OF assms(2) booted_sim [OF assms(1)] assms(3)] by blast

lemma nothing_left: "remaining_at (net_init w) = (\<lambda>_. 0)"
  by (intro ext) (simp add: remaining_at_def net_init_def)

section \<open>A run to the end\<close>

lemma net_run_trans: "net_run n' es' n'' \<Longrightarrow> net_run n es n' \<Longrightarrow> net_run n (es @ es') n''"
  by (induction rule: net_run.induct) (auto intro: net_snoc simp flip: append_assoc)

lemma works_label_ok: "works e \<Longrightarrow> label_ok members e"
  by (cases e rule: works.cases) simp_all

text \<open>Whatever is under way can be brought to its end.\<close>

lemma drain:
  assumes "sim parts members n ob" and "finite_left n"
  shows "\<exists>es n'. net_run n es n' \<and> list_all works es \<and> (\<forall>i. tasks n' (Caller i) = None)"
  using assms
proof (induction "total_left n" arbitrary: n ob rule: less_induct)
  case less
  show ?case
  proof (cases "\<forall>i. tasks n (Caller i) = None")
    case True
    then show ?thesis using net_nil [of n] by (intro exI [of _ "[]"] exI [of _ n]) simp
  next
    case False
    then obtain i t where "tasks n (Caller i) = Some t" by auto
    from never_stuck [OF less.prems(1) this] obtain e n1 where e: "works e" "net_step n e n1" by blast
    have ok: "label_ok members e" by (rule works_label_ok [OF e(1)])
    obtain ob1 where ob1: "sim parts members n1 ob1"
      using sim_step [OF e(2) less.prems(1) ok obj_nil] by blast
    have "\<not> is_call e" using e(1) by (cases e rule: works.cases) simp_all
    with pays_total [OF sim_pays [OF e(2) less.prems(1) ok] less.prems(2)] e(1)
    have "finite_left n1" "total_left n1 < total_left n" by simp_all
    from less.hyps [OF this(2) ob1 this(1)] obtain es n' where
      es: "net_run n1 es n'" "list_all works es" "\<forall>i. tasks n' (Caller i) = None" by blast
    have "net_run n ([] @ [e]) n1" by (rule net_snoc [OF net_nil e(2)])
    from net_run_trans [OF es(1) this] es(2,3) e(1) show ?thesis
      by (intro exI [of _ "e # es"] exI [of _ n']) simp
  qed
qed

section \<open>Reading what was written\<close>

lemma obj_run_split:
  "obj_run here ob acts ob' \<Longrightarrow> acts = xs @ ys \<Longrightarrow> \<exists>ob1. obj_run here ob xs ob1 \<and> obj_run here ob1 ys ob'"
proof (induction arbitrary: xs ys rule: obj_run.induct)
  case (obj_call acts ob' i a req)
  show ?case
  proof (cases ys rule: rev_cases)
    case Nil
    with obj_call have "obj_run here ob xs (ob'\<lparr>calls := (calls ob')(i \<mapsto> Pending a req)\<rparr>)"
      using obj_run.obj_call by fastforce
    with Nil obj_nil show ?thesis by blast
  next
    case (snoc ys' y)
    with obj_call.prems have eq: "acts = xs @ ys'" "y = Call i a req" by simp_all
    obtain ob1 where ob1: "obj_run here ob xs ob1" "obj_run here ob1 ys' ob'"
      using obj_call.IH [OF eq(1)] by blast
    from obj_run.obj_call [OF ob1(2) obj_call.hyps(2)] ob1(1) show ?thesis unfolding snoc eq(2) by blast
  qed
next
  case (obj_return acts ob' i req resp resp')
  show ?case
  proof (cases ys rule: rev_cases)
    case Nil
    with obj_return have "obj_run here ob xs (ob'\<lparr>calls := (calls ob')(i := None)\<rparr>)"
      using obj_run.obj_return by fastforce
    with Nil obj_nil show ?thesis by blast
  next
    case (snoc ys' y)
    with obj_return.prems have eq: "acts = xs @ ys'" "y = Return i (Inr resp')" by simp_all
    obtain ob1 where ob1: "obj_run here ob xs ob1" "obj_run here ob1 ys' ob'"
      using obj_return.IH [OF eq(1)] by blast
    from obj_run.obj_return [OF ob1(2) obj_return.hyps(2,3)] ob1(1) show ?thesis unfolding snoc eq(2) by blast
  qed
next
  case (obj_effect acts ob' i a req rt m out resp)
  obtain ob1 where ob1: "obj_run here ob xs ob1" "obj_run here ob1 ys ob'"
    using obj_effect.IH [OF obj_effect.prems] by blast
  from ob1(1) obj_run.obj_effect [OF ob1(2) obj_effect.hyps(2-5)] show ?case by blast
next
  case (obj_evict acts ob' K)
  obtain ob1 where ob1: "obj_run here ob xs ob1" "obj_run here ob1 ys ob'"
    using obj_evict.IH [OF obj_evict.prems] by blast
  from ob1(1) obj_run.obj_evict [OF ob1(2) obj_evict.hyps(2)] show ?case by blast
next
  case obj_nil
  then show ?case using obj_run.obj_nil [of here ob] by auto
qed

text \<open>The call \<open>i\<close> stores \<open>d\<close> under \<open>k\<close> for good; nothing else is stored or deleted under \<open>k\<close>.\<close>

fun writes_to :: "string \<Rightarrow> request \<Rightarrow> bool" where
  "writes_to k (RequestStore p e k' d) = (k' = k)"
| "writes_to k (RequestDelete p k') = (k' = k)"
| "writes_to k req = False"

fun sole_writer :: "nat \<Rightarrow> string \<Rightarrow> goval \<Rightarrow> action \<Rightarrow> bool" where
  "sole_writer i k d (Call j a req) =
     (j = i \<or> writes_to k req \<longrightarrow> j = i \<and> (\<exists>p e. req = RequestStore p e k d \<and> sint e \<le> 0))"
| "sole_writer i k d (Return j r) = True"

definition holds_data :: "string \<Rightarrow> goval \<Rightarrow> table \<Rightarrow> bool" where
  "holds_data k d m \<longleftrightarrow> (\<exists>r. m k = Some r \<and> rdata r = d \<and> is_permanent r)"

definition written :: "nat \<Rightarrow> string \<Rightarrow> goval \<Rightarrow> obj \<Rightarrow> bool" where
  "written i k d ob \<longleftrightarrow> k \<notin> fleeting ob \<and>
     (\<forall>j a req. calls ob j = Some (Pending a req) \<longrightarrow> sole_writer i k d (Call j a req)) \<and>
     ((\<exists>req resp. calls ob i = Some (Answered req resp)) \<longrightarrow> holds_data k d (cells ob))"

lemma stored_holds: "sint e \<le> 0 \<Longrightarrow> holds_data k d (m(k \<mapsto> stored_request rt (m k) e d))"
  by (simp add: holds_data_def stored_def is_permanent_def)

text \<open>A request that does not write the key leaves its permanent record.\<close>

lemma step_holds:
  assumes "table_step here rt req m res" and "\<not> writes_to k req" and "holds_data k d m"
  shows "holds_data k d (fst res)"
proof -
  have load: "holds_data k d (fst (table_load rt m k'))" for k'
    using assms(3) by (auto simp: holds_data_def table_load_def is_expired_def split: option.split)
  then have read: "holds_data k d (fst (table_read rt m k' sel))" for k' sel
    by (simp add: table_read_def split_beta)
  show ?thesis using assms read by (cases req) (auto simp: holds_data_def Let_def)
qed

lemma effect_holds:
  assumes step: "table_step here rt req m (m', out)" and only: "sole_writer i k d (Call j a req)"
    and m: "holds_data k d m \<or> j = i"
  shows "holds_data k d m'" and "k \<notin> temp_keys req"
proof -
  have "(holds_data k d m' \<and> k \<notin> temp_keys req)"
  proof (cases "j = i \<or> writes_to k req")
    case True
    then obtain p e where "req = RequestStore p e k d" "sint e \<le> 0" using only by auto
    with step stored_holds show ?thesis by (auto simp: Let_def)
  next
    case False
    have "k \<notin> temp_keys req" using False by (cases req) auto
    with False m step_holds [OF step, of k d] show ?thesis by simp
  qed
  then show "holds_data k d m'" "k \<notin> temp_keys req" by simp_all
qed

lemma effect_fleeting: "sole_writer i k d (Call j a req) \<Longrightarrow> k \<notin> temp_keys req"
  by (cases req) auto

lemma evict_holds: "k \<notin> K \<Longrightarrow> holds_data k d m \<Longrightarrow> holds_data k d (m |` (- K))"
  by (simp add: holds_data_def)

lemma written_run:
  "obj_run here ob acts ob' \<Longrightarrow> written i k d ob \<Longrightarrow> list_all (sole_writer i k d) acts \<Longrightarrow> written i k d ob'"
proof (induction rule: obj_run.induct)
  case (obj_effect acts ob' j a req rt m out resp)
  then have w: "written i k d ob'" by simp
  then have only: "sole_writer i k d (Call j a req)" using obj_effect.hyps(2) unfolding written_def by blast
  from effect_holds [OF obj_effect.hyps(4) only] w effect_fleeting [OF only] show ?case
    by (auto simp: written_def simp del: sole_writer.simps)
next
  case (obj_evict acts ob' K)
  then have w: "written i k d ob'" by simp
  with obj_evict.hyps(2) have "k \<notin> K" by (auto simp: written_def)
  with w evict_holds [of k K d "cells ob'"] show ?case by (simp add: written_def)
next
  case (obj_return acts ob' j req resp resp')
  then show ?case by (auto simp: written_def simp del: sole_writer.simps)
qed (auto simp: written_def simp del: sole_writer.simps)

lemma holds_run:
  "obj_run here ob acts ob' \<Longrightarrow> written i k d ob \<Longrightarrow> list_all (sole_writer i k d) acts \<Longrightarrow>
     holds_data k d (cells ob) \<Longrightarrow> holds_data k d (cells ob')"
proof (induction rule: obj_run.induct)
  case (obj_effect acts ob' j a req rt m out resp)
  then have w: "written i k d ob'" using written_run by blast
  then have only: "sole_writer i k d (Call j a req)" using obj_effect.hyps(2) unfolding written_def by blast
  from effect_holds(1) [OF obj_effect.hyps(4) only] obj_effect show ?case by simp
next
  case (obj_evict acts ob' K)
  then have "written i k d ob'" using written_run by blast
  with obj_evict.hyps(2) have "k \<notin> K" by (auto simp: written_def)
  with obj_evict evict_holds show ?case by simp
qed auto

text \<open>A load called while the key holds the data is answered with it.\<close>

definition loaded :: "nat \<Rightarrow> string \<Rightarrow> goval \<Rightarrow> obj \<Rightarrow> bool" where
  "loaded j k d ob \<longleftrightarrow>
     (case calls ob j of
        Some (Pending b req) \<Rightarrow> \<exists>q. req = RequestLoad q k
      | Some (Answered req resp) \<Rightarrow> (\<exists>q. req = RequestLoad q k) \<and> status resp = status_ok \<and> rdata (rrecord resp) = d
      | None \<Rightarrow> False)"

lemma load_answer:
  assumes "table_step here rt (RequestLoad q k) m (m', out)" and "holds_data k d m" and "answers out resp"
  shows "status resp = status_ok \<and> rdata (rrecord resp) = d"
  using assms
  by (auto simp: holds_data_def table_read_def table_load_def is_expired_def answers_def touch_def)

lemma loaded_run:
  "obj_run here ob acts ob' \<Longrightarrow> written i k d ob \<Longrightarrow> list_all (sole_writer i k d) acts \<Longrightarrow>
     holds_data k d (cells ob) \<Longrightarrow> loaded j k d ob \<Longrightarrow> \<forall>r. Return j r \<notin> set acts \<Longrightarrow> loaded j k d ob'"
proof (induction rule: obj_run.induct)
  case (obj_effect acts ob' l a req rt m out resp)
  then have "holds_data k d (cells ob')" "loaded j k d ob'" using holds_run by blast+
  with obj_effect.hyps load_answer show ?case
    by (cases "l = j") (auto simp: loaded_def simp del: table_step.simps)
next
  case (obj_call acts ob' l a req)
  then show ?case by (cases "l = j") (auto simp: loaded_def)
next
  case (obj_return acts ob' l req resp resp')
  then show ?case by (cases "l = j") (auto simp: loaded_def)
qed (auto simp: loaded_def)

lemma obj_run_return:
  "obj_run here ob acts ob' \<Longrightarrow> acts = xs @ [Return i r] \<Longrightarrow>
     \<exists>ob1 req resp resp'. obj_run here ob xs ob1 \<and> r = Inr resp' \<and> calls ob1 i = Some (Answered req resp) \<and>
       read_back req resp resp' \<and>
       obj_run here (ob1\<lparr>calls := (calls ob1)(i := None)\<rparr>) [] ob'"
proof (induction rule: obj_run.induct)
  case (obj_return acts ob' j req resp resp')
  then show ?case using obj_run.obj_nil by fastforce
next
  case (obj_effect acts ob' j a req rt m out resp)
  then obtain ob1 q resp1 resp2 where *: "obj_run here ob xs ob1" "r = Inr resp2" "calls ob1 i = Some (Answered q resp1)"
    "read_back q resp1 resp2" "obj_run here (ob1\<lparr>calls := (calls ob1)(i := None)\<rparr>) [] ob'" by blast
  from *(1-4) obj_run.obj_effect [OF *(5) obj_effect.hyps(2-5)] show ?case by blast
next
  case (obj_evict acts ob' K)
  then obtain ob1 q resp1 resp2 where *: "obj_run here ob xs ob1" "r = Inr resp2" "calls ob1 i = Some (Answered q resp1)"
    "read_back q resp1 resp2" "obj_run here (ob1\<lparr>calls := (calls ob1)(i := None)\<rparr>) [] ob'" by blast
  from *(1-4) obj_run.obj_evict [OF *(5) obj_evict.hyps(2)] show ?case by blast
qed auto

lemma obj_run_call:
  "obj_run here ob acts ob' \<Longrightarrow> acts = xs @ [Call i a req] \<Longrightarrow>
     \<exists>ob1. obj_run here ob xs ob1 \<and> obj_run here (ob1\<lparr>calls := (calls ob1)(i \<mapsto> Pending a req)\<rparr>) [] ob'"
proof (induction rule: obj_run.induct)
  case (obj_call acts ob' j b q)
  then show ?case using obj_run.obj_nil by fastforce
next
  case (obj_effect acts ob' j b q rt m out resp)
  then obtain ob1 where *: "obj_run here ob xs ob1"
    "obj_run here (ob1\<lparr>calls := (calls ob1)(i \<mapsto> Pending a req)\<rparr>) [] ob'" by blast
  from *(1) obj_run.obj_effect [OF *(2) obj_effect.hyps(2-5)] show ?case by blast
next
  case (obj_evict acts ob' K)
  then obtain ob1 where *: "obj_run here ob xs ob1"
    "obj_run here (ob1\<lparr>calls := (calls ob1)(i \<mapsto> Pending a req)\<rparr>) [] ob'" by blast
  from *(1) obj_run.obj_evict [OF *(2) obj_evict.hyps(2)] show ?case by blast
qed auto

lemma obj_store_seen:
  assumes run: "obj_run here empty_obj (xs @ [Return i r1] @ ys @ [Call j b (RequestLoad q k)] @ zs @ [Return j r2]) ob"
    and only: "list_all (sole_writer i k d) (xs @ [Return i r1] @ ys @ [Call j b (RequestLoad q k)] @ zs @ [Return j r2])"
    and last: "\<forall>r. Return j r \<notin> set zs"
  shows "\<exists>resp. r2 = Inr resp \<and> status resp = status_ok \<and> rdata (rrecord resp) = d"
proof -
  have split: "xs @ [Return i r1] @ ys @ [Call j b (RequestLoad q k)] @ zs @ [Return j r2] =
      (xs @ [Return i r1]) @ (ys @ [Call j b (RequestLoad q k)]) @ (zs @ [Return j r2])" by simp
  obtain obA where A: "obj_run here empty_obj (xs @ [Return i r1]) obA"
    "obj_run here obA ((ys @ [Call j b (RequestLoad q k)]) @ (zs @ [Return j r2])) ob"
    using obj_run_split [OF run split] by blast
  obtain obB where B: "obj_run here obA (ys @ [Call j b (RequestLoad q k)]) obB"
    "obj_run here obB (zs @ [Return j r2]) ob"
    using obj_run_split [OF A(2) refl] by blast
  obtain ob1 q1 resp1 where o1: "obj_run here empty_obj xs ob1" "calls ob1 i = Some (Answered q1 resp1)"
    "obj_run here (ob1\<lparr>calls := (calls ob1)(i := None)\<rparr>) [] obA"
    using obj_run_return [OF A(1) refl] by blast
  have "written i k d empty_obj" by (simp add: written_def obj_init_def)
  from written_run [OF o1(1) this] only have w1: "written i k d ob1" by simp
  then have h1: "holds_data k d (cells ob1)" using o1(2) by (simp add: written_def)
  have w1': "written i k d (ob1\<lparr>calls := (calls ob1)(i := None)\<rparr>)"
    using w1 by (auto simp: written_def simp del: sole_writer.simps)
  have wA: "written i k d obA" by (rule written_run [OF o1(3) w1']) simp
  have hA: "holds_data k d (cells obA)" by (rule holds_run [OF o1(3) w1']) (simp_all add: h1)
  obtain ob2 where o2: "obj_run here obA ys ob2"
    "obj_run here (ob2\<lparr>calls := (calls ob2)(j \<mapsto> Pending b (RequestLoad q k))\<rparr>) [] obB"
    using obj_run_call [OF B(1) refl] by blast
  let ?ob2 = "ob2\<lparr>calls := (calls ob2)(j \<mapsto> Pending b (RequestLoad q k))\<rparr>"
  have w2: "written i k d ob2" by (rule written_run [OF o2(1) wA]) (use only in simp)
  have h2: "holds_data k d (cells ?ob2)" using holds_run [OF o2(1) wA _ hA] only by simp
  have w2': "written i k d ?ob2" using w2 only by (auto simp: written_def simp del: sole_writer.simps(2))
  have wB: "written i k d obB" by (rule written_run [OF o2(2) w2']) simp
  have hB: "holds_data k d (cells obB)" by (rule holds_run [OF o2(2) w2' _ h2]) simp
  have lB: "loaded j k d obB" by (rule loaded_run [OF o2(2) w2' _ h2]) (simp_all add: loaded_def)
  obtain ob3 q3 resp resp' where o3: "obj_run here obB zs ob3" "r2 = Inr resp'" "calls ob3 j = Some (Answered q3 resp)"
    "read_back q3 resp resp'"
    using obj_run_return [OF B(2) refl] by blast
  have "loaded j k d ob3" by (rule loaded_run [OF o3(1) wB _ hB lB last]) (use only in simp)
  with o3(2-4) show ?thesis by (auto simp: loaded_def)
qed

section \<open>Properties\<close>

text \<open>C1. Well-formed requests (\<open>good_request\<close>: a non-empty key and an identifier of valid UTF-8, JSON-shaped
  data that is not null) that enter a started cluster at the same time, at any nodes, and travel, wait
  and are served in any order beside the timers of the stores, behave as calls of one atomic table:
  each takes effect at one instant between its call and its return, and returns the outcome it had
  then. Only keys that were once stored with an expiration may disappear by themselves. The one
  exception is the list of a \<open>Keys\<close> request: it has the length it had at that instant, but shares memory
  with later lists, so that its strings are left open.\<close>

theorem cluster_linearizable:
  assumes "sound_start parts dial finish fls"
    and "net_run (booted i dial uuid finish fls) es n"
    and "list_all (label_ok (map fl_server_addr fls)) es"
  shows "\<exists>ob. obj_run (\<lambda>a k. owner (nat (sint parts)) (map fl_server_addr fls) k = a) empty_obj (visible es) ob \<and>
     cells ob = cluster_abs (nat (sint parts)) (map fl_server_addr fls) (net_world n)"
  using booted_run [OF assms] sim_worldD(5) by metis

text \<open>C9. No well-formed request (\<open>good_request\<close>: a non-empty key and an identifier of valid UTF-8, JSON-shaped
  data that is not null) is lost, or answered by a crash: as long as one is under way in a started
  cluster some goroutine can take a step for a request, and at no time more than seven steps in total
  for each call made so far have been taken. So when no further call is made, all are answered after
  finitely many steps.\<close>

theorem requests_complete:
  assumes "sound_start parts dial finish fls"
    and "net_run (booted i dial uuid finish fls) es n"
    and "list_all (label_ok (map fl_server_addr fls)) es"
  shows "worked es \<le> 7 * called es \<and>
     (tasks n (Caller j) \<noteq> None \<longrightarrow> (\<exists>e n'. works e \<and> net_step n e n'))"
proof -
  have "finite_left (booted i dial uuid finish fls)" "total_left (booted i dial uuid finish fls) = 0"
    by (simp_all add: finite_left_def total_left_def nothing_left)
  with run_total [OF assms(2) booted_sim [OF assms(1)] assms(3)] have "worked es \<le> 7 * called es" by simp
  moreover obtain ob where "sim (nat (sint parts)) (map fl_server_addr fls) n ob"
    by (rule booted_run [OF assms])
  ultimately show ?thesis using never_stuck by blast
qed

text \<open>C11. The mutex of a node keeps the responses to well-formed requests apart: a connection carries at most one event, request
  in service or response at a time, and it belongs to the one goroutine that holds the mutex and
  waits for it.\<close>

theorem replies_not_crossed:
  assumes "sound_start parts dial finish fls"
    and "net_run (booted i dial uuid finish fls) es n"
    and "list_all (label_ok (map fl_server_addr fls)) es"
  shows "length (events n l) + length (replies n l) + (if tasks n (Handler l) = None then 0 else 1) \<le> 1 \<and>
     (events n l \<noteq> [] \<or> replies n l \<noteq> [] \<or> tasks n (Handler l) \<noteq> None \<longrightarrow>
       (\<exists>j t. tasks n (Caller j) = Some t \<and> at_node t = fst l \<and> phase t = Awaiting (snd l) \<and>
          (\<forall>g u. tasks n g = Some u \<and> at_node u = fst l \<and> phase u = Awaiting (snd l) \<longrightarrow> g = Caller j) \<and>
          (\<forall>th. tasks n (Handler l) = Some th \<longrightarrow> asked th = asked t)))"
proof -
  obtain ob where "sim (nat (sint parts)) (map fl_server_addr fls) n ob"
    by (rule booted_run [OF assms])
  then have inv: "net_inv (nat (sint parts)) (map fl_server_addr fls) (fleeting ob) n" by (rule sim_worldD)
  show ?thesis
  proof (cases "events n l \<noteq> [] \<or> replies n l \<noteq> [] \<or> tasks n (Handler l) \<noteq> None")
    case True
    obtain j t st where h: "holder n l = Some (Caller j)" "tasks n (Caller j) = Some t" "at_node t = fst l"
      "phase t = Awaiting (snd l)" "at_stage n l (asked t) st"
      by (rule link_used [OF inv True])
    have "g = Caller j" if u: "tasks n g = Some u" "at_node u = fst l" "phase u = Awaiting (snd l)" for g u
    proof -
      obtain i where "g = Caller i" "holder n (at_node u, snd l) = Some (Caller i)"
        by (rule awaiting_caller [OF inv u(1,3)])
      with h(1) u(2) show ?thesis by simp
    qed
    moreover have "length (events n l) + length (replies n l) + (if tasks n (Handler l) = None then 0 else 1) \<le> 1"
      using h(5) by (cases st) auto
    moreover have "asked th = asked t" if "tasks n (Handler l) = Some th" for th
      using h(5) that by (cases st) auto
    ultimately show ?thesis using h(2-4) by blast
  qed simp
qed

text \<open>C8. A load that is called after a store without expiration has returned gets what was stored, whatever
  other well-formed requests go on in the cluster at the same time, if that store is the only request
  that stores or deletes under the key.\<close>

theorem acknowledged_store_seen:
  assumes "sound_start parts dial finish fls"
    and "net_run (booted i dial uuid finish fls) es n"
    and "list_all (label_ok (map fl_server_addr fls)) es"
    and "visible es = xs @ [Return p r1] @ ys @ [Call q b (RequestLoad m k)] @ zs @ [Return q r2]"
    and "list_all (sole_writer p k d) (visible es)" and "\<forall>r. Return q r \<notin> set zs"
  shows "\<exists>resp. r2 = Inr resp \<and> status resp = status_ok \<and> rdata (rrecord resp) = d"
  using booted_run [OF assms(1-3)] obj_store_seen [OF _ _ assms(6)] assms(4,5) by metis

section \<open>Runs on the cluster of docker-compose.yml\<close>

text \<open>A call can always be made, and brought to its end.\<close>

lemma call_step:
  assumes sim: "sim parts members n ob" and fin: "finite_left n" and idle: "tasks n (Caller i) = None"
    and a: "a \<in> set members" "good_request req"
  obtains n' where "net_step n (Visible (Call i a req)) n'"
    "sim parts members n' (ob\<lparr>calls := (calls ob)(i \<mapsto> Pending a req)\<rparr>)" "finite_left n'"
    "\<And>j. j \<noteq> i \<Longrightarrow> tasks n' (Caller j) = tasks n (Caller j)"
proof -
  obtain s where "servers (net_world n) a = Some s" using mesh_server [OF sim_worldD(4) [OF sim] a(1)] by blast
  with call [of n i a req] idle have "net_step n (Visible (Call i a req))
      (n\<lparr>tasks := (tasks n)(Caller i \<mapsto> \<lparr>at_node = a, asked = req, phase = Routing\<rparr>)\<rparr>)" by simp
  with that sim_call(2,3) [OF sim idle a] total_change(1) [OF fin] show thesis by simp
qed

lemma obj_returns:
  "obj_run here ob acts ob' \<Longrightarrow> \<forall>x \<in> set acts. \<exists>j r. x = Return j r \<Longrightarrow> dom (calls ob) = {i} \<Longrightarrow>
     acts = [] \<and> dom (calls ob') = {i} \<or> (\<exists>resp. acts = [Return i (Inr resp)] \<and> calls ob' = Map.empty)"
proof (induction rule: obj_run.induct)
  case (obj_effect acts ob' j a req rt m out resp)
  then have IH: "acts = [] \<and> dom (calls ob') = {i} \<or>
      (\<exists>resp. acts = [Return i (Inr resp)] \<and> calls ob' = Map.empty)" by simp
  moreover have "j \<in> dom (calls ob')" using obj_effect.hyps(2) by (rule domI)
  ultimately have *: "acts = []" "dom (calls ob') = {i}" "j = i" by auto
  then have "dom ((calls ob')(j \<mapsto> Answered req resp)) = {i}" by simp
  with *(1) show ?case by (metis obj.select_convs(3) obj.surjective obj.update_convs(1-3))
next
  case (obj_return acts ob' j req resp resp')
  then have IH: "acts = [] \<and> dom (calls ob') = {i} \<or>
      (\<exists>resp. acts = [Return i (Inr resp)] \<and> calls ob' = Map.empty)" by simp
  moreover have "j \<in> dom (calls ob')" using obj_return.hyps(2) by (rule domI)
  ultimately have "acts = []" "dom (calls ob') = {i}" "j = i" by auto
  then have "dom ((calls ob')(i := None)) = {}" by simp
  then have "(calls ob')(i := None) = Map.empty" by (simp only: dom_eq_empty_conv)
  with \<open>acts = []\<close> \<open>j = i\<close> show ?case by simp
qed auto

lemma works_visible: "list_all works es \<Longrightarrow> x \<in> set (visible es) \<Longrightarrow> \<exists>j r. x = Return j r"
proof (induction es)
  case (Cons e es)
  then show ?case by (cases e rule: works.cases) auto
qed simp

lemma solo_call:
  assumes sim: "sim parts members n ob" and fin: "finite_left n" and idle: "\<forall>j. tasks n (Caller j) = None"
    and a: "a \<in> set members" "good_request req"
  shows "\<exists>es n' resp ob'. net_run n es n' \<and> visible es = [Call i a req, Return i (Inr resp)] \<and>
     list_all (label_ok members) es \<and> sim parts members n' ob' \<and> finite_left n' \<and> (\<forall>j. tasks n' (Caller j) = None)"
proof -
  let ?ob = "ob\<lparr>calls := (calls ob)(i \<mapsto> Pending a req)\<rparr>"
  obtain n1 where one: "net_step n (Visible (Call i a req)) n1" "sim parts members n1 ?ob" "finite_left n1"
    by (rule call_step [OF sim fin spec [OF idle] a])
  obtain es n2 where two: "net_run n1 es n2" "list_all works es" "\<forall>j. tasks n2 (Caller j) = None"
    using drain [OF one(2,3)] by blast
  have ok: "list_all (label_ok members) es" using two(2) works_label_ok by (induction es) simp_all
  obtain ob2 where ob2: "obj_run (here_of parts members) ?ob (visible es) ob2" "sim parts members n2 ob2"
    using sim_run [OF two(1) one(2) ok] by blast
  have "calls ob = Map.empty" using sim idle by (auto simp: sim_def call_at_def)
  then have "dom (calls ?ob) = {i}" by simp
  from obj_returns [OF ob2(1) _ this] works_visible [OF two(2)]
  have "visible es = [] \<and> dom (calls ob2) = {i} \<or> (\<exists>resp. visible es = [Return i (Inr resp)])" by blast
  moreover have "calls ob2 = Map.empty" using ob2(2) two(3) by (auto simp: sim_def call_at_def)
  ultimately obtain resp where "visible es = [Return i (Inr resp)]" by auto
  moreover have "net_run n ([Visible (Call i a req)] @ es) n2"
    using net_run_trans [OF two(1) net_snoc [OF net_nil one(1)]] by simp
  moreover have "finite_left n2" using run_total [OF two(1) one(2) ok one(3)] by simp
  ultimately show ?thesis
    using ok a ob2(2) two(3) by (intro exI [of _ "[Visible (Call i a req)] @ es"]) auto
qed

abbreviation compose_net :: net where
  "compose_net \<equiv> booted (\<lambda>_. ''id'') (\<lambda>_. compose_dial) (\<lambda>_ _. ''uuid'') (\<lambda>_. [1, 0]) compose_flags"

lemma compose_sound: "sound_start 16384 (\<lambda>_. compose_dial) (\<lambda>_. [1, 0]) compose_flags"
  using compose_same compose_answers compose_finish by (simp add: sound_start_def)

lemma compose_addrs: "map fl_server_addr compose_flags = compose_members"
  by (simp add: compose_flags_def default_flags_def)

lemma compose_sim: "sim 16384 compose_members compose_net empty_obj"
  using booted_sim [OF compose_sound] by (simp add: compose_addrs)

lemma compose_idle: "tasks compose_net g = None" "finite_left compose_net"
  unfolding finite_left_def nothing_left by (simp_all add: net_init_def)

definition put_k :: request where
  "put_k = RequestStore ''1'' 0 ''k'' (VBool True)"

definition get_k :: request where
  "get_k = RequestLoad ''2'' ''k''"

lemma k_good: "good_request put_k" "good_request get_k"
proof -
  have "utf8_valid ''1''" "utf8_valid ''2''" "utf8_valid ''k''" by (rule utf8_valid_ascii; simp)+
  then show "good_request put_k" "good_request get_k"
    by (simp_all add: put_k_def get_k_def good_data_def)
qed

text \<open>A store and a load that are under way together, at different nodes.\<close>

lemma overlap_run:
  "\<exists>es n. net_run compose_net ([Visible (Call 1 node1 put_k), Visible (Call 2 node2 get_k)] @ es) n \<and>
     list_all works es \<and> (\<forall>j. tasks n (Caller j) = None)"
proof -
  obtain n1 where one: "net_step compose_net (Visible (Call 1 node1 put_k)) n1"
    "sim 16384 compose_members n1 (empty_obj\<lparr>calls := (calls empty_obj)(1 \<mapsto> Pending node1 put_k)\<rparr>)"
    "finite_left n1" "\<And>j. j \<noteq> 1 \<Longrightarrow> tasks n1 (Caller j) = tasks compose_net (Caller j)"
    by (rule call_step [OF compose_sim compose_idle(2,1), of node1 put_k 1]) (simp_all add: k_good)
  have "tasks n1 (Caller 2) = tasks compose_net (Caller 2)" by (rule one(4)) simp
  then have idle: "tasks n1 (Caller 2) = None" by (simp only: compose_idle)
  obtain n2 ob2 where two: "net_step n1 (Visible (Call 2 node2 get_k)) n2"
    "sim 16384 compose_members n2 ob2" "finite_left n2"
    by (rule call_step [OF one(2,3) idle, of node2 get_k]) (simp_all add: k_good)
  obtain es n where es: "net_run n2 es n" "list_all works es" "\<forall>j. tasks n (Caller j) = None"
    using drain [OF two(2,3)] by blast
  have "net_run compose_net (([] @ [Visible (Call 1 node1 put_k)]) @ [Visible (Call 2 node2 get_k)]) n2"
    by (intro net_snoc [OF _ two(1)] net_snoc [OF _ one(1)] net_nil)
  from net_run_trans [OF es(1) this] es(2,3) show ?thesis by auto
qed

lemma works_all_ok: "list_all works es \<Longrightarrow> list_all (label_ok members) es"
  using works_label_ok by (induction es) simp_all

theorem cluster_linearizable_witness:
  "\<exists>es n ob. net_run compose_net ([Visible (Call 1 node1 put_k), Visible (Call 2 node2 get_k)] @ es) n \<and>
     (\<forall>j. tasks n (Caller j) = None) \<and>
     obj_run (\<lambda>a k. owner 16384 compose_members k = a) empty_obj
       (Call 1 node1 put_k # Call 2 node2 get_k # visible es) ob \<and>
     cells ob = cluster_abs 16384 compose_members (net_world n)"
proof -
  let ?calls = "[Visible (Call 1 node1 put_k), Visible (Call 2 node2 get_k)]"
  obtain es n where run: "net_run compose_net (?calls @ es) n" "list_all works es"
    "\<forall>j. tasks n (Caller j) = None" using overlap_run by blast
  have "list_all (label_ok compose_members) (?calls @ es)" using works_all_ok [OF run(2)] k_good by simp
  from cluster_linearizable [OF compose_sound run(1), unfolded compose_addrs, OF this] run(1,3)
  show ?thesis by (simp only: visible_append) auto
qed

theorem requests_complete_witness:
  "\<exists>n. net_run compose_net [Visible (Call 1 node1 put_k)] n \<and> (\<exists>e n'. works e \<and> net_step n e n')"
proof -
  obtain n where one: "net_step compose_net (Visible (Call 1 node1 put_k)) n"
    by (rule call_step [OF compose_sim compose_idle(2,1), of node1 put_k 1]) (simp_all add: k_good)
  have run: "net_run compose_net [Visible (Call 1 node1 put_k)] n" using net_snoc [OF net_nil one] by simp
  have "tasks n (Caller 1) \<noteq> None" using one by (cases rule: net_stepE) auto
  with requests_complete [OF compose_sound run, unfolded compose_addrs, of 1] run show ?thesis
    by (auto simp: k_good)
qed

theorem replies_not_crossed_witness:
  "\<exists>es n. net_run compose_net ([Visible (Call 1 node1 put_k), Visible (Call 2 node2 get_k)] @ es) n \<and>
     length (events n (node1, node2)) + length (replies n (node1, node2)) +
       (if tasks n (Handler (node1, node2)) = None then 0 else 1) \<le> 1"
proof -
  let ?calls = "[Visible (Call 1 node1 put_k), Visible (Call 2 node2 get_k)]"
  obtain es n where run: "net_run compose_net (?calls @ es) n" "list_all works es" using overlap_run by blast
  have "list_all (label_ok compose_members) (?calls @ es)" using works_all_ok [OF run(2)] k_good by simp
  from replies_not_crossed [OF compose_sound run(1), unfolded compose_addrs, OF this, of "(node1, node2)"] run(1)
  show ?thesis by blast
qed

theorem acknowledged_store_seen_witness:
  "\<exists>es n r1 resp. net_run compose_net es n \<and>
     visible es = [Call 1 node1 put_k, Return 1 r1, Call 2 node2 get_k, Return 2 (Inr resp)] \<and>
     status resp = status_ok \<and> rdata (rrecord resp) = VBool True"
proof -
  obtain es1 n1 r1 ob1 where one: "net_run compose_net es1 n1" "visible es1 = [Call 1 node1 put_k, Return 1 (Inr r1)]"
    "list_all (label_ok compose_members) es1" "sim 16384 compose_members n1 ob1" "finite_left n1"
    "\<forall>j. tasks n1 (Caller j) = None"
    using solo_call [OF compose_sim compose_idle(2), of node1 put_k 1] k_good compose_idle(1) by auto
  obtain es2 n2 r2 where two: "net_run n1 es2 n2" "visible es2 = [Call 2 node2 get_k, Return 2 (Inr r2)]"
    "list_all (label_ok compose_members) es2"
    using solo_call [OF one(4-6), of node2 get_k 2] k_good by auto
  have run: "net_run compose_net (es1 @ es2) n2" by (rule net_run_trans [OF two(1) one(1)])
  have vis: "visible (es1 @ es2) = [Call 1 node1 put_k, Return 1 (Inr r1), Call 2 node2 get_k, Return 2 (Inr r2)]"
    by (simp add: one(2) two(2))
  have "\<exists>resp. Inr r2 = (Inr resp :: response res) \<and> status resp = status_ok \<and> rdata (rrecord resp) = VBool True"
    by (rule acknowledged_store_seen [OF compose_sound run, where xs = "[Call 1 node1 put_k]" and ys = "[]"
          and zs = "[]" and p = 1 and q = 2 and k = "''k''" and d = "VBool True"])
       (use one(3) two(3) vis in \<open>simp_all add: compose_addrs put_k_def get_k_def\<close>)
  with run vis show ?thesis by auto
qed

end
