(* ===== verification/Keys_Slice.thy ===== *)
theory Keys_Slice
  imports Hash_Table
begin

text \<open>
  The list of keys of \<open>unsafeHash\<close> (\<open>container/hash/hash.go\<close>) as the slice it is: a window on an array
  in memory, which \<open>Keys\<close> hands out and later calls go on writing to. Theory \<open>Hash_Table\<close> keeps the
  list itself; the table here has the same operations (it is another \<open>hash.Hash\<close>, and reading its
  slice gives that list), and shows besides what becomes of a slice that was handed out before.
\<close>

section \<open>Slices in memory\<close>

text \<open>An array has a fixed length, the capacity of the slices on it.\<close>

record memory =
  arrays :: "nat \<Rightarrow> string list"
  next_array :: nat

record gslice =
  array :: nat
  slen :: nat

text \<open>The nil slice lies on an array without elements.\<close>

definition empty_memory :: memory where
  "empty_memory = \<lparr>arrays = (\<lambda>_. []), next_array = 1\<rparr>"

definition nil_slice :: gslice where
  "nil_slice = \<lparr>array = 0, slen = 0\<rparr>"

definition slice_read :: "memory \<Rightarrow> gslice \<Rightarrow> string list" where
  "slice_read m s = take (slen s) (arrays m (array s))"

text \<open>
  \<open>append\<close>: in place while there is room, otherwise on a new array that is longer by one element
  and by what \<open>grow\<close> adds (the growth of a slice is left open by the language).
\<close>

definition slice_append :: "(nat \<Rightarrow> nat) \<Rightarrow> memory \<times> gslice \<Rightarrow> string \<Rightarrow> memory \<times> gslice" where
  "slice_append grow ms x =
     (let (m, s) = ms; arr = arrays m (array s)
      in if slen s < length arr then
           (m\<lparr>arrays := (arrays m)(array s := arr[slen s := x])\<rparr>, s\<lparr>slen := slen s + 1\<rparr>)
         else
           (\<lparr>arrays = (arrays m)(next_array m := take (slen s) arr @ [x] @ replicate (grow (slen s)) ''''),
             next_array = next_array m + 1\<rparr>,
            \<lparr>array = next_array m, slen = slen s + 1\<rparr>))"

definition slice_ok :: "memory \<Rightarrow> gslice \<Rightarrow> bool" where
  "slice_ok m s \<longleftrightarrow> array s < next_array m \<and> slen s \<le> length (arrays m (array s))"

text \<open>A slice that appending to \<open>s\<close> cannot write into.\<close>

definition behind :: "gslice \<Rightarrow> gslice \<Rightarrow> bool" where
  "behind t s \<longleftrightarrow> array t = array s \<longrightarrow> slen t \<le> slen s"

text \<open>What users of \<open>append\<close> rely on.\<close>

locale appendable =
  fixes append_to :: "'m \<times> 's \<Rightarrow> string \<Rightarrow> 'm \<times> 's"
    and read :: "'m \<Rightarrow> 's \<Rightarrow> string list"
    and valid :: "'m \<Rightarrow> 's \<Rightarrow> bool"
    and safe :: "'s \<Rightarrow> 's \<Rightarrow> bool"
  assumes append_read: "valid m s \<Longrightarrow> append_to (m, s) x = (m', s') \<Longrightarrow> read m' s' = read m s @ [x]"
    and append_valid: "valid m s \<Longrightarrow> append_to (m, s) x = (m', s') \<Longrightarrow> valid m' s'"
    and append_frame: "valid m s \<Longrightarrow> valid m t \<Longrightarrow> safe t s \<Longrightarrow> append_to (m, s) x = (m', s') \<Longrightarrow>
      read m' t = read m t \<and> valid m' t \<and> safe t s'"
begin

lemma fold_read:
  "valid m s \<Longrightarrow> fold (\<lambda>x ms. append_to ms x) xs (m, s) = (m', s') \<Longrightarrow>
     read m' s' = read m s @ xs \<and> valid m' s'"
proof (induction xs arbitrary: m s)
  case (Cons x xs)
  obtain m1 s1 where one: "append_to (m, s) x = (m1, s1)" by (cases "append_to (m, s) x")
  with Cons.IH [OF append_valid [OF Cons.prems(1) one]] Cons.prems append_read [OF _ one]
  show ?case by simp
qed simp

lemma fold_frame:
  "valid m s \<Longrightarrow> valid m t \<Longrightarrow> safe t s \<Longrightarrow> fold (\<lambda>x ms. append_to ms x) xs (m, s) = (m', s') \<Longrightarrow>
     read m' t = read m t \<and> valid m' t \<and> safe t s'"
proof (induction xs arbitrary: m s)
  case (Cons x xs)
  obtain m1 s1 where one: "append_to (m, s) x = (m1, s1)" by (cases "append_to (m, s) x")
  from append_frame [OF Cons.prems(1-3) one] Cons.IH [OF append_valid [OF Cons.prems(1) one]] Cons.prems(4) one
  show ?case by simp
qed simp

end

lemma take_upd_behind: "n \<le> i \<Longrightarrow> take n (xs[i := x]) = take n xs"
  by simp

interpretation go: appendable "slice_append grow" slice_read slice_ok behind for grow
proof unfold_locales
  fix m s x m' s' t
  assume ok: "slice_ok m s" and app: "slice_append grow (m, s) x = (m', s')"
  show "slice_read m' s' = slice_read m s @ [x]"
    using ok app by (auto simp: slice_append_def slice_read_def slice_ok_def Let_def take_Suc_conv_app_nth split: if_splits)
  show "slice_ok m' s'"
    using ok app by (auto simp: slice_append_def slice_ok_def Let_def split: if_splits)
  assume "slice_ok m t" and "behind t s"
  then show "slice_read m' t = slice_read m t \<and> slice_ok m' t \<and> behind t s'"
    using ok app
    by (auto simp: slice_append_def slice_read_def slice_ok_def behind_def Let_def split: if_splits)
qed

section \<open>The table with its slice\<close>

record slice_hash =
  srecords :: "(string \<times> hrecord) list"
  skeys :: gslice
  sdirty :: bool
  smem :: memory

definition new_slice_hash :: slice_hash where
  "new_slice_hash = \<lparr>srecords = [], skeys = nil_slice, sdirty = False, smem = empty_memory\<rparr>"

text \<open>\<open>Keys\<close> rebuilds the list on the array it had.\<close>

definition slice_keys :: "(nat \<Rightarrow> nat) \<Rightarrow> runtime \<Rightarrow> slice_hash \<Rightarrow> slice_hash \<times> gslice" where
  "slice_keys grow rt h =
     (if \<not> sdirty h then (h, skeys h)
      else let (m, s) = fold (\<lambda>k ms. slice_append grow ms k) (range_order rt (map fst (srecords h)))
                          (smem h, (skeys h)\<lparr>slen := 0\<rparr>)
           in (h\<lparr>skeys := s, sdirty := False, smem := m\<rparr>, s))"

text \<open>The table as theory \<open>Hash_Table\<close> has it.\<close>

definition plain_hash :: "slice_hash \<Rightarrow> unsafe_hash" where
  "plain_hash h = \<lparr>records = srecords h, hkeys = slice_read (smem h) (skeys h), dirty = sdirty h\<rparr>"

definition slice_store ::
    "(nat \<Rightarrow> nat) \<Rightarrow> runtime \<Rightarrow> slice_hash \<Rightarrow> string \<Rightarrow> hrecord \<Rightarrow> slice_hash \<times> hrecord" where
  "slice_store grow rt h key rec =
     (let prevrec = (case map_of (srecords h) key of
                       Some r \<Rightarrow> r
                     | None \<Rightarrow> record_zero\<lparr>rmeta := meta_zero\<lparr>created_at := now_at rt 0\<rparr>\<rparr>);
          h = (if \<not> sdirty h then let (m, s) = slice_append grow (smem h, skeys h) key
                                  in h\<lparr>skeys := s, smem := m\<rparr>
               else h);
          prevrec = prevrec\<lparr>
            rmeta := (rmeta prevrec)\<lparr>
              index := index (rmeta prevrec) + 1,
              updated_at := now_at rt 1,
              expire_time := expire_time (rmeta rec)\<rparr>,
            rdata := rdata rec\<rparr>
      in (h\<lparr>srecords := AList.update key prevrec (srecords h)\<rparr>, prevrec))"

definition slice_delete :: "slice_hash \<Rightarrow> string \<Rightarrow> slice_hash" where
  "slice_delete h key =
     (let h = (case map_of (srecords h) key of Some _ \<Rightarrow> h\<lparr>sdirty := True\<rparr> | None \<Rightarrow> h)
      in h\<lparr>srecords := AList.delete key (srecords h)\<rparr>)"

definition slice_ops :: "(nat \<Rightarrow> nat) \<Rightarrow> slice_hash hash_ops" where
  "slice_ops grow =
     \<lparr>op_keys = (\<lambda>rt h. let (h', s) = slice_keys grow rt h in (h', slice_read (smem h') s)),
      op_load = (\<lambda>rt h k. (h, unsafe_load rt (plain_hash h) k)),
      op_store = slice_store grow,
      op_delete = slice_delete\<rparr>"

section \<open>It is the same table\<close>

abbreviation mem_ok :: "slice_hash \<Rightarrow> bool" where
  "mem_ok h \<equiv> slice_ok (smem h) (skeys h)"

lemma slice_ok_shorter: "slice_ok m s \<Longrightarrow> n \<le> slen s \<Longrightarrow> slice_ok m (s\<lparr>slen := n\<rparr>)"
  by (simp add: slice_ok_def)

lemma plain_keys:
  assumes "mem_ok h"
  shows "plain_hash (fst (slice_keys grow rt h)) = fst (unsafe_keys rt (plain_hash h))"
    and "slice_read (smem (fst (slice_keys grow rt h))) (snd (slice_keys grow rt h)) =
           snd (unsafe_keys rt (plain_hash h))"
    and "mem_ok (fst (slice_keys grow rt h))"
    and "skeys (fst (slice_keys grow rt h)) = snd (slice_keys grow rt h)"
    and "slice_ok (smem (fst (slice_keys grow rt h))) (snd (slice_keys grow rt h))"
proof -
  let ?s = "(skeys h)\<lparr>slen := 0\<rparr>" and ?ks = "range_order rt (map fst (srecords h))"
  obtain m s where ms: "fold (\<lambda>k ms. slice_append grow ms k) ?ks (smem h, ?s) = (m, s)"
    by (cases "fold (\<lambda>k ms. slice_append grow ms k) ?ks (smem h, ?s)")
  have "slice_read m s = slice_read (smem h) ?s @ ?ks \<and> slice_ok m s"
    by (rule go.fold_read [OF slice_ok_shorter [OF assms] ms]) simp
  then have r: "slice_read m s = ?ks" "slice_ok m s" by (simp_all add: slice_read_def)
  with ms assms show "plain_hash (fst (slice_keys grow rt h)) = fst (unsafe_keys rt (plain_hash h))"
    "slice_read (smem (fst (slice_keys grow rt h))) (snd (slice_keys grow rt h)) = snd (unsafe_keys rt (plain_hash h))"
    "mem_ok (fst (slice_keys grow rt h))" "skeys (fst (slice_keys grow rt h)) = snd (slice_keys grow rt h)"
    "slice_ok (smem (fst (slice_keys grow rt h))) (snd (slice_keys grow rt h))"
    by (simp_all add: slice_keys_def plain_hash_def unsafe_keys_def Let_def)
qed

lemma plain_store:
  assumes "mem_ok h"
  shows "plain_hash (fst (slice_store grow rt h k r)) = fst (unsafe_store rt (plain_hash h) k r)"
    and "snd (slice_store grow rt h k r) = snd (unsafe_store rt (plain_hash h) k r)"
    and "mem_ok (fst (slice_store grow rt h k r))"
proof -
  obtain m s where ms: "slice_append grow (smem h, skeys h) k = (m, s)"
    by (cases "slice_append grow (smem h, skeys h) k")
  from go.append_read [OF assms ms] go.append_valid [OF assms ms] ms assms
  show "plain_hash (fst (slice_store grow rt h k r)) = fst (unsafe_store rt (plain_hash h) k r)"
    "snd (slice_store grow rt h k r) = snd (unsafe_store rt (plain_hash h) k r)"
    "mem_ok (fst (slice_store grow rt h k r))"
    by (simp_all add: slice_store_def plain_hash_def unsafe_store_def Let_def)
qed

lemma plain_delete:
  "plain_hash (slice_delete h k) = unsafe_delete (plain_hash h) k"
  "mem_ok (slice_delete h k) = mem_ok h"
  by (simp_all add: slice_delete_def plain_hash_def unsafe_delete_def Let_def split: option.split)

text \<open>The records never depend on the slice.\<close>

lemma slice_records:
  "hash_abs (plain_hash (fst (slice_keys grow rt h))) = hash_abs (plain_hash h)"
  "hash_abs (plain_hash (fst (slice_store grow rt h k r))) =
     hash_abs (fst (unsafe_store rt (plain_hash h) k r))"
  "snd (slice_store grow rt h k r) = snd (unsafe_store rt (plain_hash h) k r)"
  by (simp_all add: hash_abs_def plain_hash_def slice_keys_def slice_store_def unsafe_store_def Let_def split_beta)

interpretation sh: hash_impl_exact "slice_ops grow" "\<lambda>h. hash_inv (plain_hash h) \<and> mem_ok h"
    "\<lambda>h. hash_abs (plain_hash h)" for grow
proof unfold_locales
  fix rt :: runtime and s k r
  show "hash_abs (plain_hash (fst (op_keys (slice_ops grow) rt s))) = hash_abs (plain_hash s)"
    by (simp add: slice_ops_def split_beta slice_records)
  show "hash_abs (plain_hash (fst (op_store (slice_ops grow) rt s k r))) =
      (hash_abs (plain_hash s))(k \<mapsto> stored (now_at rt 0) (now_at rt 1) (hash_abs (plain_hash s) k) r)"
    by (simp add: slice_ops_def slice_records table_simps)
  show "snd (op_store (slice_ops grow) rt s k r) =
      stored (now_at rt 0) (now_at rt 1) (hash_abs (plain_hash s) k) r"
    by (simp add: slice_ops_def slice_records stored_unsafe_store)
  assume "rt_ok rt" and inv: "hash_inv (plain_hash s) \<and> mem_ok s"
  then show "set (snd (op_keys (slice_ops grow) rt s)) = dom (hash_abs (plain_hash s))"
    "hash_inv (plain_hash (fst (op_keys (slice_ops grow) rt s))) \<and> mem_ok (fst (op_keys (slice_ops grow) rt s))"
    by (simp_all add: slice_ops_def split_beta plain_keys keys_set inv_keys)
qed (auto simp: slice_ops_def plain_store plain_delete table_simps unsafe_load_abs intro: inv_intros)

section \<open>A slice that was handed out\<close>

text \<open>Only a call of \<open>Keys\<close> on a dirty table writes to what a former call has returned.\<close>

definition rebuilds :: "slice_hash \<Rightarrow> hash_op \<Rightarrow> bool" where
  "rebuilds h x \<longleftrightarrow> x = HKeys \<and> sdirty h"

fun quiet_run :: "(nat \<Rightarrow> nat) \<Rightarrow> (runtime \<times> hash_op) list \<Rightarrow> slice_hash \<Rightarrow> bool" where
  "quiet_run grow [] h = True"
| "quiet_run grow ((rt, x) # xs) h =
     (\<not> rebuilds h x \<and> quiet_run grow xs (fst (hash_exec (slice_ops grow) rt x h)))"

definition holds_slice :: "gslice \<Rightarrow> slice_hash \<Rightarrow> bool" where
  "holds_slice s h \<longleftrightarrow> mem_ok h \<and> slice_ok (smem h) s \<and> behind s (skeys h)"

lemma slice_delete_mem [simp]: "smem (slice_delete h k) = smem h" "skeys (slice_delete h k) = skeys h"
  by (simp_all add: slice_delete_def Let_def split: option.split)

lemma quiet_exec:
  fixes grow and rt :: runtime
  assumes h: "holds_slice s h" and q: "\<not> rebuilds h x"
  defines "h' \<equiv> fst (hash_exec (slice_ops grow) rt x h)"
  shows "holds_slice s h' \<and> slice_read (smem h') s = slice_read (smem h) s"
proof (cases x)
  case HKeys
  with q h show ?thesis by (simp add: h'_def slice_ops_def rebuilds_def slice_keys_def)
next
  case (HStore k r)
  obtain m t where ms: "slice_append grow (smem h, skeys h) k = (m, t)"
    by (cases "slice_append grow (smem h, skeys h) k")
  have ok: "mem_ok h" "slice_ok (smem h) s" "behind s (skeys h)" using h by (simp_all add: holds_slice_def)
  from go.append_frame [OF ok ms] go.append_valid [OF ok(1) ms] h ms show ?thesis
    by (simp add: h'_def HStore slice_ops_def slice_store_def holds_slice_def split_beta Let_def)
qed (use h in \<open>simp_all add: h'_def slice_ops_def holds_slice_def\<close>)

lemma quiet_run_keeps:
  "holds_slice s h \<Longrightarrow> quiet_run grow xs h \<Longrightarrow>
     slice_read (smem (fst (hash_run (slice_ops grow) xs h))) s = slice_read (smem h) s \<and>
     holds_slice s (fst (hash_run (slice_ops grow) xs h))"
proof (induction xs arbitrary: h)
  case (Cons y xs)
  obtain rt x where y: "y = (rt, x)" by (cases y)
  with Cons.prems(2) have q: "\<not> rebuilds h x" "quiet_run grow xs (fst (hash_exec (slice_ops grow) rt x h))"
    by simp_all
  from quiet_exec [OF Cons.prems(1) q(1), of grow rt] Cons.IH [OF _ q(2)] show ?case
    by (simp add: y split_beta)
qed simp

lemma handed_out:
  assumes "mem_ok h"
  shows "holds_slice (snd (slice_keys grow rt h)) (fst (slice_keys grow rt h))"
  using plain_keys(3,4) [OF assms, of grow rt] by (simp add: holds_slice_def behind_def)

text \<open>A rebuild on the array of an older slice overwrites it from the front, even when it outgrows the array.\<close>

lemma fold_overwrites:
  assumes "slice_ok m s" and "slice_ok m t" and "array s = array t" and "slen s \<le> slen t"
    and "fold (\<lambda>k ms. slice_append grow ms k) ks (m, s) = (m', s')"
  shows "slice_read m' t =
     take (slen t) (take (slen s) (slice_read m t) @ ks @ drop (slen s + length ks) (slice_read m t))"
  using assms
proof (induction ks arbitrary: m s)
  case Nil
  then have "m' = m" by simp
  moreover have "length (slice_read m t) \<le> slen t" by (simp add: slice_read_def)
  ultimately show ?case by simp
next
  case (Cons k ks)
  obtain m1 s1 where one: "slice_append grow (m, s) k = (m1, s1)" by (cases "slice_append grow (m, s) k")
  note ok1 = go.append_valid [OF Cons.prems(1) one]
  have fold: "fold (\<lambda>k ms. slice_append grow ms k) ks (m1, s1) = (m', s')" using Cons.prems(5) one by simp
  show ?case
  proof (cases "slen s < slen t")
    case True
    let ?arr = "arrays m (array t)"
    have room: "slen s < length ?arr" using True Cons.prems(2) by (simp add: slice_ok_def)
    then have m1: "m1 = m\<lparr>arrays := (arrays m)(array t := ?arr[slen s := k])\<rparr>" "s1 = s\<lparr>slen := slen s + 1\<rparr>"
      using one Cons.prems(3) by (simp_all add: slice_append_def Let_def)
    have t1: "slice_ok m1 t" using Cons.prems(2) by (simp add: m1 slice_ok_def)
    have r1: "slice_read m1 t = (slice_read m t)[slen s := k]" by (simp add: m1 slice_read_def take_update_swap)
    have len: "length (slice_read m t) = slen t" using Cons.prems(2) by (simp add: slice_read_def slice_ok_def)
    have "slice_read m' t = take (slen t)
        (take (slen s + 1) (slice_read m1 t) @ ks @ drop (slen s + 1 + length ks) (slice_read m1 t))"
      using Cons.IH [OF ok1 t1 _ _ fold] Cons.prems(3) True by (simp add: m1(2))
    also have "take (slen s + 1) (slice_read m1 t) = take (slen s) (slice_read m t) @ [k]"
      using True len by (simp add: r1 take_Suc_conv_app_nth)
    finally show ?thesis by (simp add: r1 drop_update_cancel)
  next
    case False
    then have eq: "slen s = slen t" using Cons.prems(4) by simp
    then have b: "behind t s" by (simp add: behind_def)
    from go.append_frame [OF Cons.prems(1,2) b one] have "slice_read m1 t = slice_read m t"
      and t1: "slice_ok m1 t" and b1: "behind t s1" by simp_all
    moreover have "slice_read m' t = slice_read m1 t"
      using go.fold_frame [OF ok1 t1 b1 fold] by simp
    moreover have "length (slice_read m t) = slen t" using Cons.prems(2) by (simp add: slice_read_def slice_ok_def)
    ultimately show ?thesis by (simp add: eq)
  qed
qed

text \<open>Its length never changes: arrays do not shrink and are not taken away.\<close>

lemma append_keeps:
  "slice_ok m s \<Longrightarrow> slice_ok m t \<Longrightarrow> slice_append grow (m, s) x = (m', s') \<Longrightarrow> slice_ok m' t"
  by (auto simp: slice_append_def slice_ok_def Let_def split: if_splits)

lemma fold_keeps:
  "slice_ok m s \<Longrightarrow> slice_ok m t \<Longrightarrow> fold (\<lambda>k ms. slice_append grow ms k) ks (m, s) = (m', s') \<Longrightarrow> slice_ok m' t"
proof (induction ks arbitrary: m s)
  case (Cons k ks)
  obtain m1 s1 where one: "slice_append grow (m, s) k = (m1, s1)" by (cases "slice_append grow (m, s) k")
  from Cons.IH [OF go.append_valid [OF Cons.prems(1) one] append_keeps [OF Cons.prems(1,2) one]] Cons.prems(3) one
  show ?case by simp
qed simp

lemma exec_keeps:
  fixes grow and rt :: runtime and x :: hash_op
  assumes h: "mem_ok h" "slice_ok (smem h) s"
  defines "h' \<equiv> fst (hash_exec (slice_ops grow) rt x h)"
  shows "mem_ok h' \<and> slice_ok (smem h') s"
proof (cases x)
  case HKeys
  have "slice_ok (smem (fst (slice_keys grow rt h))) s"
  proof (cases "sdirty h")
    case True
    let ?ks = "range_order rt (map fst (srecords h))"
    obtain m t where fold: "fold (\<lambda>k ms. slice_append grow ms k) ?ks (smem h, (skeys h)\<lparr>slen := 0\<rparr>) = (m, t)"
      by (cases "fold (\<lambda>k ms. slice_append grow ms k) ?ks (smem h, (skeys h)\<lparr>slen := 0\<rparr>)")
    from fold_keeps [OF slice_ok_shorter [OF h(1)] h(2) fold] True fold show ?thesis by (simp add: slice_keys_def)
  qed (simp add: slice_keys_def h(2))
  then show ?thesis using handed_out [OF h(1), of grow rt]
    by (simp add: h'_def HKeys slice_ops_def holds_slice_def split_beta)
next
  case (HStore k r)
  obtain m t where ms: "slice_append grow (smem h, skeys h) k = (m, t)"
    by (cases "slice_append grow (smem h, skeys h) k")
  from append_keeps [OF h ms] go.append_valid [OF h(1) ms] h ms show ?thesis
    by (simp add: h'_def HStore slice_ops_def slice_store_def split_beta Let_def)
qed (use h in \<open>simp_all add: h'_def slice_ops_def\<close>)

lemma run_keeps:
  "mem_ok h \<Longrightarrow> slice_ok (smem h) s \<Longrightarrow> slice_ok (smem (fst (hash_run (slice_ops grow) xs h))) s"
proof (induction xs arbitrary: h)
  case (Cons y xs)
  obtain rt x where y: "y = (rt, x)" by (cases y)
  from exec_keeps [OF Cons.prems, of grow rt x] Cons.IH show ?case by (simp add: y split_beta)
qed simp

lemma run_keeps_length:
  assumes "mem_ok h" and "slice_ok (smem h) s"
  shows "length (slice_read (smem (fst (hash_run (slice_ops grow) xs h))) s) = length (slice_read (smem h) s)"
  using run_keeps [OF assms, of grow xs] assms(2) by (simp add: slice_read_def slice_ok_def)

section \<open>Properties\<close>

lemma new_slice_ok: "hash_inv (plain_hash new_slice_hash) \<and> mem_ok new_slice_hash"
  by (simp add: new_slice_hash_def plain_hash_def hash_inv_def hash_abs_def slice_ok_def nil_slice_def
      empty_memory_def slice_read_def)

lemma reached_ok: "runs_ok xs \<Longrightarrow> mem_ok (fst (hash_run (slice_ops grow) xs new_slice_hash))"
  using sh.run_inv [OF _ new_slice_ok] by blast

text \<open>A list of keys stays as it was returned, whatever is stored, loaded and deleted later, until a
  call of \<open>Keys\<close> that has to rebuild the list.\<close>

theorem keys_slice_stable:
  assumes "runs_ok xs" and "slice_keys grow rt (fst (hash_run (slice_ops grow) xs new_slice_hash)) = (h1, s)"
    and "quiet_run grow ys h1"
  shows "slice_read (smem (fst (hash_run (slice_ops grow) ys h1))) s = slice_read (smem h1) s"
proof -
  have "holds_slice s h1" using handed_out [OF reached_ok [OF assms(1)], of grow rt grow] assms(2) by simp
  from quiet_run_keeps [OF this assms(3)] show ?thesis by simp
qed

text \<open>C36. A rebuild of the list of keys writes over the lists returned before from the same array: their
  holders, who have left the lock of the store by then, read the new keys, cut off where their
  list ends, so that keys which were in the table all the time can be missing.\<close>

theorem keys_slice_overwritten:
  assumes "runs_ok xs" and "slice_keys grow rt (fst (hash_run (slice_ops grow) xs new_slice_hash)) = (h1, s)"
    and "quiet_run grow ys h1" and "sdirty (fst (hash_run (slice_ops grow) ys h1))"
    and "array (skeys (fst (hash_run (slice_ops grow) ys h1))) = array s"
    and "slice_keys grow rt' (fst (hash_run (slice_ops grow) ys h1)) = (h2, s2)"
  shows "slice_read (smem h2) s =
     take (slen s) (slice_read (smem h2) s2 @ drop (length (slice_read (smem h2) s2)) (slice_read (smem h1) s))"
proof -
  let ?h = "fst (hash_run (slice_ops grow) ys h1)"
  let ?ks = "range_order rt' (map fst (srecords ?h))"
  have "holds_slice s h1" using handed_out [OF reached_ok [OF assms(1)], of grow rt grow] assms(2) by simp
  from quiet_run_keeps [OF this assms(3)] have h: "mem_ok ?h" "slice_ok (smem ?h) s"
    "slice_read (smem ?h) s = slice_read (smem h1) s" by (simp_all add: holds_slice_def)
  obtain m s' where fold: "fold (\<lambda>k ms. slice_append grow ms k) ?ks (smem ?h, (skeys ?h)\<lparr>slen := 0\<rparr>) = (m, s')"
    by (cases "fold (\<lambda>k ms. slice_append grow ms k) ?ks (smem ?h, (skeys ?h)\<lparr>slen := 0\<rparr>)")
  with assms(4,6) have h2: "smem h2 = m" "s2 = s'" by (auto simp: slice_keys_def)
  have "slice_read m s = take (slen s) (?ks @ drop (length ?ks) (slice_read (smem ?h) s))"
    using fold_overwrites [OF slice_ok_shorter [OF h(1)] h(2) _ _ fold] assms(5) by simp
  moreover have "slice_read m s' = ?ks"
    using go.fold_read [OF slice_ok_shorter [OF h(1)] fold] by (simp add: slice_read_def)
  ultimately show ?thesis by (simp add: h2 h(3))
qed

text \<open>
  Three keys are listed; one of them is deleted and two more are stored before the list is sent.
  Growth is that of an array for three elements; the rebuild visits the newest keys first.
\<close>

definition three_keys :: "(runtime \<times> hash_op) list" where
  "three_keys = map (\<lambda>k. (rt_at 0, HStore k record_zero)) [''a'', ''b'', ''c'']"

definition two_more :: "(runtime \<times> hash_op) list" where
  "two_more = [(rt_at 0, HDelete ''a''), (rt_at 0, HStore ''d'' record_zero), (rt_at 0, HStore ''e'' record_zero)]"

definition room_for_three :: "nat \<Rightarrow> nat" where
  "room_for_three n = 2"

abbreviation listed :: "slice_hash \<times> gslice" where
  "listed \<equiv> slice_keys room_for_three (rt_at 0) (fst (hash_run (slice_ops room_for_three) three_keys new_slice_hash))"

abbreviation listed_again :: "slice_hash \<times> gslice" where
  "listed_again \<equiv> slice_keys room_for_three ((rt_at 0)\<lparr>range_order := rev\<rparr>)
     (fst (hash_run (slice_ops room_for_three) two_more (fst listed)))"

lemmas run_defs = three_keys_def two_more_def room_for_three_def slice_ops_def slice_keys_def slice_store_def
  slice_delete_def slice_append_def slice_read_def new_slice_hash_def empty_memory_def nil_slice_def Let_def

lemma listed_facts:
  "slice_read (smem (fst listed)) (snd listed) = [''a'', ''b'', ''c'']" "slen (snd listed) = 3"
  "quiet_run room_for_three two_more (fst listed)"
  "sdirty (fst (hash_run (slice_ops room_for_three) two_more (fst listed)))"
  "array (skeys (fst (hash_run (slice_ops room_for_three) two_more (fst listed)))) = array (snd listed)"
  "slice_read (smem (fst listed_again)) (snd listed_again) = [''e'', ''d'', ''c'', ''b'']"
  by (simp_all add: run_defs rebuilds_def eval_nat_numeral)

theorem keys_slice_stable_witness:
  "slice_read (smem (fst (hash_run (slice_ops room_for_three) two_more (fst listed)))) (snd listed) =
     [''a'', ''b'', ''c'']"
  using keys_slice_stable [of three_keys room_for_three "rt_at 0" "fst listed" "snd listed" two_more] listed_facts
  by (simp add: three_keys_def)

theorem keys_slice_overwritten_witness:
  "slice_read (smem (fst listed_again)) (snd listed) = [''e'', ''d'', ''c'']"
  using keys_slice_overwritten [of three_keys room_for_three "rt_at 0" "fst listed" "snd listed" two_more
      "(rt_at 0)\<lparr>range_order := rev\<rparr>" "fst listed_again" "snd listed_again"] listed_facts
  by (simp add: three_keys_def)

end
