(* ===== verification/Netutil.thy ===== *)
theory Netutil
  imports Server
begin

text \<open>
  Package \<open>system/netutil\<close> (\<open>dial.go\<close>, \<open>keepalive_linux.go\<close>, \<open>tls.go\<close>) and its use in
  \<open>server/server.go\<close>: the options of a socket, the descriptors that stand for it, and whether the
  connection is encrypted. The operating system decides which calls fail.
\<close>

section \<open>Sockets\<close>

text \<open>Options by level and number, as \<open>setsockopt\<close> takes them; the constants are those of Linux.\<close>

type_synonym sockopt = "nat \<times> nat"

definition so_keepalive :: sockopt where
  "so_keepalive = (1, 9)"

definition ipproto_tcp :: nat where
  "ipproto_tcp = 6"

definition tcp_keepidle :: nat where
  "tcp_keepidle = 4"

definition tcp_keepintvl :: nat where
  "tcp_keepintvl = 5"

definition tcp_keepcnt :: nat where
  "tcp_keepcnt = 6"

text \<open>The option the code names by its number; its unit is the millisecond, that of the others the second.\<close>

definition tcp_user_timeout :: nat where
  "tcp_user_timeout = 18"

text \<open>A connected socket: its options, whether the connection object is open, and the duplicates of its descriptor.\<close>

record socket =
  peer :: conn
  options :: "sockopt \<Rightarrow> int option"
  is_open :: bool
  duplicates :: nat

text \<open>
  What the system answers: to \<open>connect\<close>, to the duplication of a descriptor, to each option. An
  option it refuses keeps its value.
\<close>

record os =
  os_connect :: "tcp_addr option \<Rightarrow> string + conn"
  os_dup :: "string option"
  os_option :: "sockopt \<Rightarrow> string option"

definition set_option :: "os \<Rightarrow> socket \<Rightarrow> sockopt \<Rightarrow> int \<Rightarrow> socket \<times> string option" where
  "set_option os s opt v =
     (case os_option os opt of
        None \<Rightarrow> (s\<lparr>options := (options s)(opt \<mapsto> v)\<rparr>, None)
      | Some err \<Rightarrow> (s, Some err))"

text \<open>\<open>TCPConn.SetKeepAlive(true)\<close> and \<open>SetKeepAlivePeriod\<close>, in whole seconds; their errors are dropped.\<close>

definition set_keep_alive :: "os \<Rightarrow> socket \<Rightarrow> socket" where
  "set_keep_alive os s = fst (set_option os s so_keepalive 1)"

definition set_keep_alive_period :: "os \<Rightarrow> int \<Rightarrow> socket \<Rightarrow> socket" where
  "set_keep_alive_period os secs s =
     (case set_option os s (ipproto_tcp, tcp_keepintvl) secs of
        (s, Some err) \<Rightarrow> s
      | (s, None) \<Rightarrow> fst (set_option os s (ipproto_tcp, tcp_keepidle) secs))"

text \<open>\<open>os.NewSyscallError\<close>\<close>

definition syscall_error :: "string \<Rightarrow> string" where
  "syscall_error err = ''setsockopt: '' @ err"

text \<open>
  \<open>setKeepalive\<close> of Linux: the file that \<open>conn.File()\<close> makes is a duplicate of the descriptor, which
  nothing closes. The options are set through it, the first one refused ends the function.
\<close>

definition set_keepalive :: "os \<Rightarrow> socket \<Rightarrow> int \<Rightarrow> int \<Rightarrow> int \<Rightarrow> socket \<times> string option" where
  "set_keepalive os s cnt idle timeout =
     (case os_dup os of
        Some err \<Rightarrow> (s, Some err)
      | None \<Rightarrow>
          let s = s\<lparr>duplicates := duplicates s + 1\<rparr>
          in (case set_option os s (ipproto_tcp, tcp_keepcnt) cnt of
                (s, Some err) \<Rightarrow> (s, Some (syscall_error err))
              | (s, None) \<Rightarrow>
                  (case set_option os s (ipproto_tcp, tcp_keepidle) idle of
                     (s, Some err) \<Rightarrow> (s, Some (syscall_error err))
                   | (s, None) \<Rightarrow>
                       (case set_option os s (ipproto_tcp, tcp_user_timeout) timeout of
                          (s, Some err) \<Rightarrow> (s, Some (syscall_error err))
                        | (s, None) \<Rightarrow> (s, None)))))"

section \<open>TLS\<close>

record tls_settings =
  certificates :: "string list"
  insecure_skip_verify :: bool

text \<open>\<open>load\<close> reads a key pair from its two files.\<close>

definition tls_config ::
    "(string \<Rightarrow> string \<Rightarrow> string + string) \<Rightarrow> string \<Rightarrow> string \<Rightarrow> tls_settings option" where
  "tls_config load cert_file key_file =
     (if key_file = [] \<or> cert_file = [] then None
      else case load cert_file key_file of
             Inl err \<Rightarrow> None
           | Inr cert \<Rightarrow> Some \<lparr>certificates = [cert], insecure_skip_verify = True\<rparr>)"

section \<open>Dial\<close>

datatype net_conn = Plain socket | Secure tls_settings socket

fun conn_socket :: "net_conn \<Rightarrow> socket" where
  "conn_socket (Plain s) = s"
| "conn_socket (Secure cfg s) = s"

text \<open>
  The outcome of \<open>Dial\<close>, and the socket it made, if any (which the caller does not see when there
  is an error).
\<close>

definition dial_conn ::
    "os \<Rightarrow> tcp_addr option \<Rightarrow> tls_settings option \<Rightarrow> socket option \<times> (string + net_conn)" where
  "dial_conn os raddr config =
     (case os_connect os raddr of
        Inl err \<Rightarrow> (None, Inl err)
      | Inr c \<Rightarrow>
          let s = \<lparr>peer = c, options = Map.empty, is_open = True, duplicates = 0\<rparr>;
              s = set_keep_alive os s;
              s = set_keep_alive_period os 15 s
          in (case set_keepalive os s 3 10 90 of
                (s, Some err) \<Rightarrow> (Some (s\<lparr>is_open := False\<rparr>), Inl err)
              | (s, None) \<Rightarrow>
                  (Some s, Inr (case config of None \<Rightarrow> Plain s | Some cfg \<Rightarrow> Secure cfg s))))"

text \<open>A node's connections: one attempt of \<open>join\<close>, and the kind of listener.\<close>

definition join_attempt ::
    "os \<Rightarrow> (string \<Rightarrow> string \<Rightarrow> string + string) \<Rightarrow> string \<Rightarrow> string \<Rightarrow> node \<Rightarrow> string + net_conn" where
  "join_attempt os load cert_file key_file n =
     snd (dial_conn os (node_addr n) (tls_config load cert_file key_file))"

definition listens_securely :: "(string \<Rightarrow> string \<Rightarrow> string + string) \<Rightarrow> string \<Rightarrow> string \<Rightarrow> bool" where
  "listens_securely load cert_file key_file \<longleftrightarrow> tls_config load cert_file key_file \<noteq> None"

section \<open>What comes of a dial\<close>

lemmas option_defs = ipproto_tcp_def tcp_keepidle_def tcp_keepintvl_def tcp_keepcnt_def tcp_user_timeout_def
  so_keepalive_def

lemma set_option_frame [simp]:
  "peer (fst (set_option os s opt v)) = peer s" "is_open (fst (set_option os s opt v)) = is_open s"
  "duplicates (fst (set_option os s opt v)) = duplicates s"
  "snd (set_option os s opt v) = os_option os opt"
  by (simp_all add: set_option_def split: option.split)

lemma set_keepalive_ok:
  "snd (set_keepalive os s cnt idle timeout) = None \<longleftrightarrow>
     os_dup os = None \<and> os_option os (ipproto_tcp, tcp_keepcnt) = None \<and>
     os_option os (ipproto_tcp, tcp_keepidle) = None \<and> os_option os (ipproto_tcp, tcp_user_timeout) = None"
  by (auto simp: set_keepalive_def set_option_def Let_def split: option.splits)

lemma set_keepalive_options:
  assumes "snd (set_keepalive os s cnt idle timeout) = None"
  shows "fst (set_keepalive os s cnt idle timeout) =
     s\<lparr>duplicates := duplicates s + 1,
       options := (options s)((ipproto_tcp, tcp_keepcnt) \<mapsto> cnt, (ipproto_tcp, tcp_keepidle) \<mapsto> idle,
                    (ipproto_tcp, tcp_user_timeout) \<mapsto> timeout)\<rparr>"
  using assms by (simp add: set_keepalive_ok) (simp add: set_keepalive_def set_option_def Let_def)

lemma set_keepalive_frame:
  "peer (fst (set_keepalive os s cnt idle timeout)) = peer s"
  "duplicates (fst (set_keepalive os s cnt idle timeout)) = duplicates s + (if os_dup os = None then 1 else 0)"
  by (simp_all add: set_keepalive_def set_option_def Let_def split: option.split)

lemma set_keep_alive_frame [simp]:
  "peer (set_keep_alive os s) = peer s" "is_open (set_keep_alive os s) = is_open s"
  "duplicates (set_keep_alive os s) = duplicates s"
  by (simp_all add: set_keep_alive_def)

lemma set_keep_alive_period_frame [simp]:
  "peer (set_keep_alive_period os secs s) = peer s" "is_open (set_keep_alive_period os secs s) = is_open s"
  "duplicates (set_keep_alive_period os secs s) = duplicates s"
  by (simp_all add: set_keep_alive_period_def set_option_def split: option.split)

fun secured_by :: "net_conn \<Rightarrow> tls_settings option" where
  "secured_by (Plain s) = None"
| "secured_by (Secure cfg s) = Some cfg"

text \<open>The system answers the connection attempt and accepts what \<open>setKeepalive\<close> asks for.\<close>

definition grants :: "os \<Rightarrow> tcp_addr option \<Rightarrow> conn \<Rightarrow> bool" where
  "grants os raddr c \<longleftrightarrow> os_connect os raddr = Inr c \<and> os_dup os = None \<and>
     list_all (\<lambda>opt. os_option os (ipproto_tcp, opt) = None) [tcp_keepcnt, tcp_keepidle, tcp_user_timeout]"

text \<open>The socket \<open>Dial\<close> has when it calls \<open>setKeepalive\<close>.\<close>

definition dialled :: "os \<Rightarrow> conn \<Rightarrow> socket" where
  "dialled os c = set_keep_alive_period os 15 (set_keep_alive os
     \<lparr>peer = c, options = Map.empty, is_open = True, duplicates = 0\<rparr>)"

lemma dialled_frame [simp]: "peer (dialled os c) = c" "is_open (dialled os c)" "duplicates (dialled os c) = 0"
  by (simp_all add: dialled_def)

lemma dial_conn_granted:
  assumes "grants os raddr c"
  obtains s where "dial_conn os raddr config =
      (Some s, Inr (case config of None \<Rightarrow> Plain s | Some cfg \<Rightarrow> Secure cfg s))"
    and "peer s = c" and "is_open s" and "duplicates s = 1"
    and "options s (ipproto_tcp, tcp_keepcnt) = Some 3" and "options s (ipproto_tcp, tcp_keepidle) = Some 10"
    and "options s (ipproto_tcp, tcp_user_timeout) = Some 90"
proof -
  have ok: "snd (set_keepalive os (dialled os c) 3 10 90) = None"
    using assms by (simp add: set_keepalive_ok grants_def)
  define s where "s = fst (set_keepalive os (dialled os c) 3 10 90)"
  have s: "set_keepalive os (dialled os c) 3 10 90 = (s, None)"
    using ok by (simp add: s_def prod_eq_iff)
  show thesis
  proof (rule that [of s])
    show "dial_conn os raddr config = (Some s, Inr (case config of None \<Rightarrow> Plain s | Some cfg \<Rightarrow> Secure cfg s))"
      using assms s by (simp add: dial_conn_def grants_def Let_def flip: dialled_def)
  qed (simp_all add: s_def set_keepalive_options [OF ok] option_defs)
qed

lemma dial_conn_refused:
  assumes "\<not> (\<exists>c. grants os raddr c)"
  shows "\<exists>sock err. dial_conn os raddr config = (sock, Inl err) \<and>
     (case sock of None \<Rightarrow> \<exists>err. os_connect os raddr = Inl err
      | Some s \<Rightarrow> os_connect os raddr = Inr (peer s) \<and> \<not> is_open s \<and> duplicates s = (if os_dup os = None then 1 else 0))"
proof (cases "os_connect os raddr")
  case (Inr c)
  with assms have "snd (set_keepalive os (dialled os c) 3 10 90) \<noteq> None"
    by (simp add: set_keepalive_ok grants_def)
  then obtain s err where s: "set_keepalive os (dialled os c) 3 10 90 = (s, Some err)"
    by (cases "set_keepalive os (dialled os c) 3 10 90") auto
  with Inr set_keepalive_frame [of os "dialled os c" 3 10 90] show ?thesis
    by (simp add: dial_conn_def Let_def flip: dialled_def)
qed (simp add: dial_conn_def)

section \<open>Properties\<close>

text \<open>\<open>Dial\<close> gives a connection exactly when the address answers, the descriptor can be duplicated
  and the options are accepted. The connection is open, leads to what was dialled and is encrypted
  exactly when a configuration is given; it probes its peer 10 seconds after the last traffic and
  gives up after 3 probes, but data may stay unacknowledged for 90 units of the last option, which are
  milliseconds. With an error no connection stays open. Either way the duplicate of the
  descriptor, once made, is left behind.\<close>

theorem dial_outcome:
  "case dial_conn os raddr config of
     (sock, Inr conn) \<Rightarrow>
       grants os raddr (peer (conn_socket conn)) \<and> sock = Some (conn_socket conn) \<and>
       secured_by conn = config \<and> is_open (conn_socket conn) \<and> duplicates (conn_socket conn) = 1 \<and>
       options (conn_socket conn) (ipproto_tcp, tcp_keepidle) = Some 10 \<and>
       options (conn_socket conn) (ipproto_tcp, tcp_keepcnt) = Some 3 \<and>
       options (conn_socket conn) (ipproto_tcp, tcp_user_timeout) = Some 90
   | (sock, Inl err) \<Rightarrow>
       \<not> (\<exists>c. grants os raddr c) \<and>
       (case sock of None \<Rightarrow> \<exists>err. os_connect os raddr = Inl err
        | Some s \<Rightarrow> os_connect os raddr = Inr (peer s) \<and> \<not> is_open s \<and> duplicates s = (if os_dup os = None then 1 else 0))"
proof (cases "\<exists>c. grants os raddr c")
  case True
  then obtain c where c: "grants os raddr c" by blast
  then show ?thesis by (rule dial_conn_granted [where config = config]) (use c in \<open>simp split: option.split\<close>)
next
  case False
  from dial_conn_refused [OF this, of config] False show ?thesis by (auto split: option.splits)
qed

text \<open>C37. A node whose certificate or key cannot be read goes on without encryption: it listens and dials in
  the clear, and no error tells so.\<close>

theorem tls_falls_back:
  assumes "load cert_file key_file = Inl err" and "grants os (node_addr n) c"
  shows "\<not> listens_securely load cert_file key_file \<and>
     (\<exists>s. join_attempt os load cert_file key_file n = Inr (Plain s) \<and> peer s = c \<and> is_open s)"
proof -
  have none: "tls_config load cert_file key_file = None" using assms(1) by (simp add: tls_config_def)
  obtain s where "dial_conn os (node_addr n) None = (Some s, Inr (Plain s))" "peer s = c" "is_open s"
    using dial_conn_granted [OF assms(2), of None] by auto
  with none show ?thesis by (simp add: listens_securely_def join_attempt_def)
qed

definition kind_os :: os where
  "kind_os = \<lparr>os_connect = (\<lambda>a. case a of None \<Rightarrow> Inl ''missing address'' | Some a \<Rightarrow> Inr a),
     os_dup = None, os_option = (\<lambda>_. None)\<rparr>"

theorem tls_falls_back_witness:
  "\<not> listens_securely (\<lambda>_ _. Inl ''no such file'') ''cert.pem'' ''key.pem'' \<and>
   (\<exists>s. join_attempt kind_os (\<lambda>_ _. Inl ''no such file'') ''cert.pem'' ''key.pem''
      (node_zero\<lparr>node_addr := Some (TCPAddr ''10.0.0.1:2371'')\<rparr>) = Inr (Plain s) \<and>
      peer s = TCPAddr ''10.0.0.1:2371'' \<and> is_open s)"
  by (rule tls_falls_back) (simp_all add: grants_def kind_os_def)

end
