(* ===== verification/Log.thy ===== *)
theory Log
  imports Httputil
begin

text \<open>
  Package \<open>system/log\<close> (\<open>log.go\<close>): levels, the line each function makes of its operands, the
  logger on the standard output, and the panic of the fatal functions. A function that ends in \<open>f\<close>
  is the one without it on the text \<open>fmt.Sprintf\<close> gives.
\<close>

section \<open>Levels\<close>

definition level_emerg :: int where "level_emerg = 0"
definition level_alert :: int where "level_alert = 1"
definition level_crit :: int where "level_crit = 2"
definition level_err :: int where "level_err = 3"
definition level_warn :: int where "level_warn = 4"
definition level_notice :: int where "level_notice = 5"
definition level_info :: int where "level_info = 6"
definition level_debug :: int where "level_debug = 7"

section \<open>Lines\<close>

text \<open>
  \<open>fmt.Sprint\<close> puts a blank between two operands when neither is a string, \<open>fmt.Sprintln\<close> between
  any two, and ends the line.
\<close>

fun is_text :: "goval \<Rightarrow> bool" where
  "is_text (VString _) = True"
| "is_text _ = False"

fun sprint :: "(64 word \<Rightarrow> string) \<Rightarrow> goval list \<Rightarrow> string" where
  "sprint ft [] = []"
| "sprint ft [a] = fmt_v ft a"
| "sprint ft (a # b # args) =
     fmt_v ft a @ (if is_text a \<or> is_text b then [] else '' '') @ sprint ft (b # args)"

definition sprintln :: "(64 word \<Rightarrow> string) \<Rightarrow> goval list \<Rightarrow> string" where
  "sprintln ft args = join_text '' '' (map (fmt_v ft) args) @ [CHR 0x0A]"

text \<open>A call of the logger: the level and the text.\<close>

type_synonym log_call = "int \<times> string"

definition debug_log :: "(64 word \<Rightarrow> string) \<Rightarrow> string \<Rightarrow> goval list \<Rightarrow> log_call" where
  "debug_log ft event args = (level_debug, sprintln ft [VString event, VString (sprint ft args)])"

definition info_log :: "(64 word \<Rightarrow> string) \<Rightarrow> string \<Rightarrow> goval list \<Rightarrow> log_call" where
  "info_log ft event args = (level_info, sprintln ft [VString event, VString (sprint ft args)])"

definition error_log :: "(64 word \<Rightarrow> string) \<Rightarrow> string \<Rightarrow> goval list \<Rightarrow> log_call" where
  "error_log ft event args = (level_err, sprintln ft [VString event, VString (sprint ft args)])"

text \<open>\<open>FatalLog\<close> panics with the text it has logged, whatever became of it.\<close>

definition fatal_log_call :: "(64 word \<Rightarrow> string) \<Rightarrow> string \<Rightarrow> goval list \<Rightarrow> log_call \<times> go_panic" where
  "fatal_log_call ft event args =
     (let t = sprintln ft [VString event, VString (sprint ft args)] in ((level_emerg, t), PanicText t))"

text \<open>The functions of one formatted text.\<close>

abbreviation debug_logf :: "string \<Rightarrow> string \<Rightarrow> log_call" where
  "debug_logf event t \<equiv> debug_log (\<lambda>_. []) event [VString t]"

abbreviation info_logf :: "string \<Rightarrow> string \<Rightarrow> log_call" where
  "info_logf event t \<equiv> info_log (\<lambda>_. []) event [VString t]"

abbreviation error_logf :: "string \<Rightarrow> string \<Rightarrow> log_call" where
  "error_logf event t \<equiv> error_log (\<lambda>_. []) event [VString t]"

abbreviation fatal_logf :: "string \<Rightarrow> string \<Rightarrow> log_call \<times> go_panic" where
  "fatal_logf event t \<equiv> fatal_log_call (\<lambda>_. []) event [VString t]"

lemma log_texts [simp]:
  "debug_logf event t = (level_debug, event @ '' '' @ t @ [CHR 0x0A])"
  "info_logf event t = (level_info, event @ '' '' @ t @ [CHR 0x0A])"
  "error_logf event t = (level_err, event @ '' '' @ t @ [CHR 0x0A])"
  "fatal_logf event t = ((level_emerg, event @ '' '' @ t @ [CHR 0x0A]), fatal_log event t)"
  by (simp_all add: debug_log_def info_log_def error_log_def fatal_log_call_def sprintln_def fatal_log_def Let_def)

section \<open>The standard output\<close>

text \<open>What a line is prefixed with: the time of the call, the host, the program and its process.\<close>

record process_env =
  hostname :: string
  proc :: string
  pid :: nat

definition log_prefix :: "process_env \<Rightarrow> string \<Rightarrow> string" where
  "log_prefix env now =
     now @ '' '' @ hostname env @ '' '' @ proc env @ ''['' @ nat_text (pid env) @ '']: ''"

text \<open>
  \<open>StdoutLogger\<close> writes every line, whatever its level; \<open>write\<close> is the outcome of the write. The
  functions above drop its error.
\<close>

definition stdout_logger ::
    "process_env \<Rightarrow> string \<Rightarrow> (string \<Rightarrow> string option) \<Rightarrow> log_call \<Rightarrow> string \<Rightarrow> string \<times> string option" where
  "stdout_logger env now write call out =
     (let t = log_prefix env now @ snd call
      in case write t of
           Some err \<Rightarrow> (out, Some err)
         | None \<Rightarrow> (out @ t, None))"

end
