(* ===== verification/Lifecycle.thy ===== *)
theory Lifecycle
  imports Netutil Log
begin

text \<open>
  The life of a node of \<open>server/server.go\<close> around its requests: the goroutine that \<open>Start\<close> leaves
  behind to listen and accept (\<open>listenAndServe\<close>), the connections it serves (\<open>handle\<close>), what a failed
  \<open>joinN\<close> does with the connections it has made, and \<open>Stop\<close>. Each step is one call that returns, in
  any order; the system decides what the calls of the listener return.
\<close>

section \<open>The state\<close>

text \<open>The field \<open>ln\<close>: nil, open (encrypted or not) or closed.\<close>

datatype listener = NoListener | Listening bool | ClosedListener

text \<open>The goroutine of \<open>Start\<close>: before the listener exists, in the loop, or ended by a panic (which ends the process).\<close>

datatype accept_loop = Opening | Accepting | Panicked go_panic

record life =
  lserver :: server
  ln :: listener
  loop :: accept_loop
  handled :: "conn list"
  shut :: "conn list"
  logged :: "log_call list"

definition new_life :: "server \<Rightarrow> life" where
  "new_life s = \<lparr>lserver = s, ln = NoListener, loop = Opening, handled = [], shut = [], logged = []\<rparr>"

abbreviation log_more :: "log_call list \<Rightarrow> life \<Rightarrow> life" where
  "log_more cs l \<equiv> l\<lparr>logged := logged l @ cs\<rparr>"

section \<open>Listening\<close>

text \<open>\<open>listen\<close> of \<open>listenAndServe\<close>, with the error of the function on its way to the panic in \<open>Start\<close>.\<close>

definition listen_returns :: "bool \<Rightarrow> string option \<Rightarrow> life \<Rightarrow> life" where
  "listen_returns secure out l =
     (case out of
        Some err \<Rightarrow>
          let (call, panic) = fatal_logf ''server/START'' (''failed to start a server, '' @ err)
          in (log_more [error_logf ''server/LISTEN_AND_SERVE'' (''failed to start a listener, '' @ err), call] l)
               \<lparr>loop := Panicked panic\<rparr>
      | None \<Rightarrow>
          (log_more [info_logf ''server/LISTEN_AND_SERVE'' (''started at '' @ addr_text (laddr (lserver l)))] l)
            \<lparr>ln := Listening secure, loop := Accepting\<rparr>)"

text \<open>One turn of the loop: an error is logged and the loop goes on.\<close>

definition accept_returns :: "string + conn \<Rightarrow> life \<Rightarrow> life" where
  "accept_returns out l =
     (case out of
        Inl err \<Rightarrow>
          log_more [error_logf ''server/LISTEN_AND_SERVE'' (''failed to accent a new connection: '' @ err)] l
      | Inr c \<Rightarrow>
          (log_more [debug_logf ''server/LISTEN_AND_SERVE'' (''accepted remote connection: '' @ addr_text c)] l)
            \<lparr>handled := handled l @ [c]\<rparr>)"

text \<open>The end of \<open>handle\<close>, after reading or writing has failed: the connection is closed.\<close>

definition handle_returns :: "conn \<Rightarrow> life \<Rightarrow> life" where
  "handle_returns c l =
     (log_more [debug_logf ''server/HANDLE'' (''closing remote connection: '' @ addr_text c)] l)
       \<lparr>handled := remove1 c (handled l)\<rparr>"

section \<open>Closing the connections to the neighbours\<close>

text \<open>Deferred calls run last first.\<close>

definition node_conns :: "node list \<Rightarrow> conn list" where
  "node_conns ns = List.map_filter node_conn ns"

text \<open>\<open>joinN\<close> after an error: every node has its line, whether it had a connection or not.\<close>

definition join_failed :: "server \<Rightarrow> life \<Rightarrow> life" where
  "join_failed s l =
     (log_more (map (\<lambda>n. debug_logf ''server/JOIN'' (''connection to '' @ addr_string (node_addr n) @ '' closed''))
        (rev (nodes s))) l)
       \<lparr>lserver := s, shut := shut l @ node_conns (rev (nodes s))\<rparr>"

text \<open>\<open>Start\<close> but for the goroutine.\<close>

definition start_returns ::
    "(tcp_addr option \<Rightarrow> nat \<Rightarrow> string + conn) \<Rightarrow> (nat \<Rightarrow> string) \<Rightarrow> nat list \<Rightarrow> life \<Rightarrow>
     (life \<times> string option) res" where
  "start_returns dial uuid finish l =
     (case start dial uuid finish (lserver l) of
        Inl p \<Rightarrow> Inl p
      | Inr (s, Some err) \<Rightarrow>
          Inr (log_more [error_logf ''server/START'' (''failed to setup connections to shards, '' @ err)]
                 (join_failed s l), Some err)
      | Inr (s, None) \<Rightarrow> Inr (l\<lparr>lserver := s\<rparr>, None))"

text \<open>\<open>Stop\<close> closes the listener, if there is one yet, and then the connections to the neighbours.\<close>

definition stop :: "life \<Rightarrow> life" where
  "stop l =
     (let ns = rev (nodes (lserver l));
          l = (case ln l of NoListener \<Rightarrow> l | _ \<Rightarrow> l\<lparr>ln := ClosedListener\<rparr>)
      in (log_more (List.map_filter (\<lambda>n. case node_conn n of
              None \<Rightarrow> None
            | Some c \<Rightarrow> Some (debug_logf ''server/STOP''
                (''connection to '' @ addr_string (node_addr n) @ '' closed''))) ns) l)
           \<lparr>shut := shut l @ node_conns ns\<rparr>)"

section \<open>Steps\<close>

datatype life_event =
    ListenReturns "string option"
  | AcceptReturns "string + conn"
  | HandleReturns conn
  | StopCalled

definition running :: "life \<Rightarrow> bool" where
  "running l \<longleftrightarrow> (case loop l of Panicked _ \<Rightarrow> False | _ \<Rightarrow> True)"

text \<open>A closed listener accepts nothing; an open one may fail too.\<close>

inductive life_step :: "bool \<Rightarrow> life \<Rightarrow> life_event \<Rightarrow> life \<Rightarrow> bool" for secure :: bool where
  listens: "loop l = Opening \<Longrightarrow> life_step secure l (ListenReturns out) (listen_returns secure out l)"
| accepts: "loop l = Accepting \<Longrightarrow> ln l = Listening b \<Longrightarrow>
    life_step secure l (AcceptReturns (Inr c)) (accept_returns (Inr c) l)"
| accept_fails: "loop l = Accepting \<Longrightarrow>
    life_step secure l (AcceptReturns (Inl err)) (accept_returns (Inl err) l)"
| handled: "running l \<Longrightarrow> c \<in> set (handled l) \<Longrightarrow>
    life_step secure l (HandleReturns c) (handle_returns c l)"
| stops: "running l \<Longrightarrow> life_step secure l StopCalled (stop l)"

inductive_cases life_stepE: "life_step secure l e l'"

inductive life_run :: "bool \<Rightarrow> life \<Rightarrow> life_event list \<Rightarrow> life \<Rightarrow> bool" for secure :: bool where
  life_run_Nil: "life_run secure l [] l"
| life_run_Cons: "life_step secure l e l1 \<Longrightarrow> life_run secure l1 es l2 \<Longrightarrow> life_run secure l (e # es) l2"

inductive_cases life_run_NilE: "life_run secure l [] l'"
inductive_cases life_run_ConsE: "life_run secure l (e # es) l'"

section \<open>After Stop\<close>

lemma accept_simps [simp]:
  "ln (accept_returns out l) = ln l" "loop (accept_returns out l) = loop l"
  "lserver (accept_returns out l) = lserver l"
  "handled (accept_returns (Inr c) l) = handled l @ [c]" "handled (accept_returns (Inl err) l) = handled l"
  by (simp_all add: accept_returns_def split: sum.split)

definition stopped :: "life \<Rightarrow> bool" where
  "stopped l \<longleftrightarrow> loop l = Accepting \<and> ln l = ClosedListener"

lemma stop_simps [simp]:
  "loop (stop l) = loop l" "handled (stop l) = handled l" "lserver (stop l) = lserver l"
  "shut (stop l) = shut l @ node_conns (rev (nodes (lserver l)))"
  "ln (stop l) = (if ln l = NoListener then NoListener else ClosedListener)"
  by (simp_all add: stop_def Let_def split: listener.split)

text \<open>What the events of a stopped node leave of the connections it serves.\<close>

fun without_ended :: "life_event list \<Rightarrow> conn list \<Rightarrow> conn list" where
  "without_ended [] cs = cs"
| "without_ended (HandleReturns c # es) cs = without_ended es (remove1 c cs)"
| "without_ended (_ # es) cs = without_ended es cs"

fun failed_accepts :: "life_event list \<Rightarrow> nat" where
  "failed_accepts [] = 0"
| "failed_accepts (AcceptReturns (Inl err) # es) = Suc (failed_accepts es)"
| "failed_accepts (_ # es) = failed_accepts es"

lemma stopped_step:
  assumes "stopped l" and "life_step secure l e l'"
  shows "stopped l' \<and> (\<forall>c. e \<noteq> AcceptReturns (Inr c)) \<and> lserver l' = lserver l \<and>
     handled l' = without_ended [e] (handled l) \<and> length (logged l) + failed_accepts [e] \<le> length (logged l')"
  using assms(2,1)
  by (cases rule: life_stepE) (auto simp: stopped_def accept_returns_def handle_returns_def stop_def Let_def)

lemma without_ended_append: "without_ended (es @ es') cs = without_ended es' (without_ended es cs)"
  by (induction es cs rule: without_ended.induct) auto

lemma failed_accepts_append: "failed_accepts (es @ es') = failed_accepts es + failed_accepts es'"
  by (induction es rule: failed_accepts.induct) auto

lemma stopped_run:
  "life_run secure l es l' \<Longrightarrow> stopped l \<Longrightarrow>
     stopped l' \<and> list_all (\<lambda>e. \<forall>c. e \<noteq> AcceptReturns (Inr c)) es \<and> lserver l' = lserver l \<and>
     handled l' = without_ended es (handled l) \<and> length (logged l) + failed_accepts es \<le> length (logged l')"
proof (induction rule: life_run.induct)
  case (life_run_Cons l e l1 es l2)
  from stopped_step [OF life_run_Cons.prems life_run_Cons.hyps(1)] life_run_Cons.IH
    without_ended_append [of "[e]" es "handled l"] failed_accepts_append [of "[e]" es]
  show ?case by auto
qed simp

section \<open>After a failed start\<close>

text \<open>The connection the goroutine of a neighbour makes, if any.\<close>

definition joined_conn ::
    "(tcp_addr option \<Rightarrow> nat \<Rightarrow> string + conn) \<Rightarrow> server \<Rightarrow> node list \<Rightarrow> nat \<Rightarrow> conn option" where
  "joined_conn dial s ns ii =
     (case fst (join_node (dial (node_addr (ns ! ii))) s (ns ! ii)) of Inl e \<Rightarrow> None | Inr c \<Rightarrow> Some c)"

lemma fold_join_conns:
  assumes "fold (join_done dial uuid s ns) fin (out, errs) = (out', errs')"
    and "\<forall>ii \<in> set fin. ii < length out"
  shows "length out' = length out \<and>
     (\<forall>ii < length out. node_conn (out' ! ii) =
        (if ii \<in> set fin \<and> joined_conn dial s ns ii \<noteq> None then joined_conn dial s ns ii else node_conn (out ! ii)))"
  using assms
proof (induction fin arbitrary: out errs)
  case (Cons jj fin)
  obtain out1 errs1 where one: "join_done dial uuid s ns jj (out, errs) = (out1, errs1)"
    by (cases "join_done dial uuid s ns jj (out, errs)")
  then have len: "length out1 = length out"
    and at: "node_conn (out1 ! ii) =
      (if ii = jj \<and> joined_conn dial s ns ii \<noteq> None then joined_conn dial s ns ii else node_conn (out ! ii))"
    if "ii < length out" for ii
    using that Cons.prems(2)
    by (auto simp: join_done_def joined_conn_def Let_def nth_list_update split: sum.splits)
  have len: "length out1 = length out"
    using one by (auto simp: join_done_def Let_def split: sum.splits)
  with Cons.IH [of out1 errs1] Cons.prems one have IH: "length out' = length out"
    "\<forall>ii < length out. node_conn (out' ! ii) =
        (if ii \<in> set fin \<and> joined_conn dial s ns ii \<noteq> None then joined_conn dial s ns ii else node_conn (out1 ! ii))"
    by simp_all
  with at show ?case by auto
qed simp

lemma node_conns_map: "node_conns ns = List.map_filter (\<lambda>ii. node_conn (ns ! ii)) [0..<length ns]"
proof -
  have "map (\<lambda>ii. ns ! ii) [0..<length ns] = ns" by (rule map_nth)
  then have "node_conns ns = node_conns (map (\<lambda>ii. ns ! ii) [0..<length ns])" by simp
  then show ?thesis by (simp add: node_conns_def map_filter_def comp_def filter_map)
qed

lemma node_conns_rev: "node_conns (rev ns) = rev (node_conns ns)"
  by (simp add: node_conns_def map_filter_def rev_map rev_filter)

lemma map_filter_cong_list:
  "(\<And>x. x \<in> set xs \<Longrightarrow> f x = g x) \<Longrightarrow> List.map_filter f xs = List.map_filter g xs"
  by (induction xs) (auto simp: map_filter_simps split: option.split)

lemma failed_join_conns:
  assumes "join_n dial uuid finish s = (s', Some err)" and "set finish = {0..<length (nodes s)}"
    and "list_all (\<lambda>n. node_conn n = None) (nodes s)"
  shows "node_conns (nodes s') = List.map_filter (joined_conn dial s (nodes s)) [0..<length (nodes s)]"
proof -
  obtain out errs where fold: "fold (join_done dial uuid s (nodes s)) finish (nodes s, []) = (out, errs)"
    by (cases "fold (join_done dial uuid s (nodes s)) finish (nodes s, [])")
  with assms(1) have s': "nodes s' = out" by (auto simp: join_n_def Let_def split: if_splits)
  from fold_join_conns [OF fold] assms(2) have out: "length out = length (nodes s)"
    "\<forall>ii < length (nodes s). node_conn (out ! ii) =
       (if joined_conn dial s (nodes s) ii \<noteq> None then joined_conn dial s (nodes s) ii else node_conn (nodes s ! ii))"
    by simp_all
  with assms(3) have "\<forall>ii < length (nodes s). node_conn (out ! ii) = joined_conn dial s (nodes s) ii"
    by (auto simp: list_all_length)
  then show ?thesis unfolding s' node_conns_map out(1) by (intro map_filter_cong_list) simp
qed

lemma start_error: "start dial uuid finish s = Inr (s', Some err) \<Longrightarrow> join_n dial uuid finish s = (s', Some err)"
  by (auto simp: start_def Let_def split: prod.splits option.splits sum.splits)

section \<open>Properties\<close>

text \<open>C38. Once the listener is open, \<open>Stop\<close> lets no new connection in: whatever happens later, every call of
  \<open>Accept\<close> fails, the connections being served only get fewer, and the list of nodes stays. But the
  loop never ends: it goes on for ever, with a line of the log for every failure, and \<open>Stop\<close> itself
  ends none of the connections being served.\<close>

theorem stop_ends_accepting:
  assumes "loop l = Accepting" and "ln l \<noteq> NoListener" and "life_run secure (stop l) es l'"
  shows "list_all (\<lambda>e. \<forall>c. e \<noteq> AcceptReturns (Inr c)) es \<and>
     handled l' = without_ended es (handled l) \<and> lserver l' = lserver l \<and>
     ln l' = ClosedListener \<and> loop l' = Accepting \<and>
     length (logged (stop l)) + failed_accepts es \<le> length (logged l') \<and>
     life_step secure l' (AcceptReturns (Inl err)) (accept_returns (Inl err) l')"
proof -
  have "stopped (stop l)" using assms(1,2) by (simp add: stopped_def)
  from stopped_run [OF assms(3) this] have run: "stopped l'" "list_all (\<lambda>e. \<forall>c. e \<noteq> AcceptReturns (Inr c)) es"
    "lserver l' = lserver l" "handled l' = without_ended es (handled l)"
    "length (logged (stop l)) + failed_accepts es \<le> length (logged l')" by simp_all
  then show ?thesis by (auto simp: stopped_def intro: life_step.accept_fails)
qed

text \<open>\<open>Stop\<close> before the goroutine of \<open>Start\<close> has opened its listener misses it: the listener opens later
  and goes on taking connections.\<close>

theorem stop_misses_listener:
  assumes "loop l = Opening" and "ln l = NoListener"
  shows "\<exists>l'. life_run secure (stop l) [ListenReturns None, AcceptReturns (Inr c)] l' \<and>
     ln l' = Listening secure \<and> c \<in> set (handled l')"
proof -
  let ?l1 = "listen_returns secure None (stop l)"
  have "life_step secure (stop l) (ListenReturns None) ?l1"
    by (rule life_step.listens) (simp add: assms)
  moreover have l1: "loop ?l1 = Accepting" "ln ?l1 = Listening secure" by (simp_all add: listen_returns_def)
  then have "life_step secure ?l1 (AcceptReturns (Inr c)) (accept_returns (Inr c) ?l1)"
    by (rule life_step.accepts)
  ultimately have "life_run secure (stop l) [ListenReturns None, AcceptReturns (Inr c)] (accept_returns (Inr c) ?l1)"
    by (blast intro: life_run.intros)
  with l1 show ?thesis by (intro exI [of _ "accept_returns (Inr c) ?l1"]) simp
qed

text \<open>C39. A start that fails closes every connection it has made to a neighbour, each once, and leaves
  the listener and the connections of others as they are.\<close>

theorem failed_start_closes:
  assumes "start_returns dial uuid finish l = Inr (l', Some err)"
    and "set finish = {0..<length (nodes (lserver l))}"
    and "list_all (\<lambda>n. node_conn n = None) (nodes (lserver l))"
  shows "shut l' = shut l @
       rev (List.map_filter (joined_conn dial (lserver l) (nodes (lserver l))) [0..<length (nodes (lserver l))]) \<and>
     ln l' = ln l \<and> loop l' = loop l \<and> handled l' = handled l"
proof -
  obtain s where s: "start dial uuid finish (lserver l) = Inr (s, Some err)"
    and l': "l' = log_more [error_logf ''server/START'' (''failed to setup connections to shards, '' @ err)] (join_failed s l)"
    using assms(1) by (auto simp: start_returns_def split: sum.splits option.splits)
  from failed_join_conns [OF start_error [OF s] assms(2,3)] show ?thesis
    by (simp add: l' join_failed_def node_conns_rev)
qed

text \<open>A node that listens and serves one connection is stopped; another peer knocks, the one connection ends.\<close>

definition busy_life :: life where
  "busy_life = (new_life lonely_server)\<lparr>ln := Listening False, loop := Accepting, handled := [TCPAddr ''10.0.0.9:4711'']\<rparr>"

theorem stop_ends_accepting_witness:
  "\<exists>l'. life_run False (stop busy_life) [AcceptReturns (Inl ''closed''), HandleReturns (TCPAddr ''10.0.0.9:4711'')] l' \<and>
     handled l' = [] \<and> ln l' = ClosedListener \<and> loop l' = Accepting"
proof -
  let ?c = "TCPAddr ''10.0.0.9:4711''"
  let ?l = "stop busy_life" and ?l1 = "accept_returns (Inl ''closed'') (stop busy_life)"
  have b: "loop busy_life = Accepting" "ln busy_life = Listening False" "handled busy_life = [?c]"
    by (simp_all add: busy_life_def new_life_def)
  have "life_step False ?l (AcceptReturns (Inl ''closed'')) ?l1"
    by (rule life_step.accept_fails) (simp add: b)
  moreover have "life_step False ?l1 (HandleReturns ?c) (handle_returns ?c ?l1)"
    by (rule life_step.handled) (simp_all add: b running_def)
  ultimately have run: "life_run False ?l [AcceptReturns (Inl ''closed''), HandleReturns ?c] (handle_returns ?c ?l1)"
    by (blast intro: life_run.intros)
  from stop_ends_accepting [OF b(1) _ run] b(2,3) show ?thesis
    by (intro exI [of _ "handle_returns ?c ?l1"] conjI run) simp_all
qed

theorem stop_misses_listener_witness:
  "\<exists>l'. life_run False (stop (new_life lonely_server))
       [ListenReturns None, AcceptReturns (Inr (TCPAddr ''10.0.0.9:4711''))] l' \<and>
     ln l' = Listening False \<and> TCPAddr ''10.0.0.9:4711'' \<in> set (handled l')"
  by (rule stop_misses_listener) (simp_all add: new_life_def)

text \<open>Two neighbours, one of which does not answer.\<close>

definition pair_server :: server where
  "pair_server = lonely_server\<lparr>nodes := map (\<lambda>a. node_zero\<lparr>node_addr := Some (TCPAddr a)\<rparr>) [''10.0.0.2:1'', ''10.0.0.3:1''],
     retries := 0\<rparr>"

fun pair_dial :: "tcp_addr option \<Rightarrow> nat \<Rightarrow> string + conn" where
  "pair_dial (Some a) n = (if a = TCPAddr ''10.0.0.3:1'' then Inl ''refused'' else Inr a)"
| "pair_dial None n = Inl ''missing address''"

theorem failed_start_closes_witness:
  "\<exists>l'. start_returns pair_dial (\<lambda>_. ''u'') [1, 0] (new_life pair_server) =
       Inr (l', Some ''server: failed to connect neighbors, server: all connection attempts failed to 10.0.0.3:1'') \<and>
     shut l' = [TCPAddr ''10.0.0.2:1'']"
proof -
  let ?err = "''server: failed to connect neighbors, server: all connection attempts failed to 10.0.0.3:1''"
  have joins: "fst (join_node (pair_dial (Some (TCPAddr ''10.0.0.2:1''))) pair_server
        (node_zero\<lparr>node_addr := Some (TCPAddr ''10.0.0.2:1'')\<rparr>)) = Inr (TCPAddr ''10.0.0.2:1'')"
    "fst (join_node (pair_dial (Some (TCPAddr ''10.0.0.3:1''))) pair_server
        (node_zero\<lparr>node_addr := Some (TCPAddr ''10.0.0.3:1'')\<rparr>)) =
      Inl ''server: all connection attempts failed to 10.0.0.3:1''"
    by (simp_all add: join_node_def join_loop.simps pair_server_def lonely_server_def)
  have nodes: "nodes pair_server = [node_zero\<lparr>node_addr := Some (TCPAddr ''10.0.0.2:1'')\<rparr>,
      node_zero\<lparr>node_addr := Some (TCPAddr ''10.0.0.3:1'')\<rparr>]"
    by (simp add: pair_server_def)
  obtain l' where l': "start_returns pair_dial (\<lambda>_. ''u'') [1, 0] (new_life pair_server) = Inr (l', Some ?err)"
    using joins by (simp add: start_returns_def start_def join_n_def join_done_def new_life_def nodes Let_def)
  have fin: "set [1, 0] = {0..<length (nodes (lserver (new_life pair_server)))}"
    by (auto simp: new_life_def nodes)
  have fresh: "list_all (\<lambda>n. node_conn n = None) (nodes (lserver (new_life pair_server)))"
    by (simp add: new_life_def nodes node_zero_def)
  have life: "lserver (new_life pair_server) = pair_server" "shut (new_life pair_server) = []"
    by (simp_all add: new_life_def)
  from failed_start_closes [OF l' fin fresh] have
    "shut l' = rev (List.map_filter (joined_conn pair_dial pair_server (nodes pair_server)) [0..<length (nodes pair_server)])"
    by (simp only: life append_Nil)
  also have "\<dots> = [TCPAddr ''10.0.0.2:1'']"
    by (simp add: map_filter_simps joined_conn_def nodes joins)
  finally show ?thesis using l' by blast
qed

end
