(* ===== verification/Command.thy ===== *)
theory Command
  imports Lifecycle Memhashd Httprest
begin

text \<open>
  The main program \<open>memhashd.go\<close> as a whole: the values of its flags (\<open>addrSlice\<close>, \<open>addr\<close>), the command
  line as package \<open>flag\<close> reads it, the text of \<open>help\<close>, the HTTP server that is made of them (\<open>NewServer\<close>, \<open>ListenAndServe\<close> of
  \<open>httprest/server.go\<close>), and \<open>main\<close> from the arguments to its end. The
  resolution of addresses (\<open>net.ResolveTCPAddr\<close>) is a parameter.
\<close>

section \<open>Values of flags\<close>

type_synonym resolver = "string \<Rightarrow> string + tcp_addr"

definition addr_set :: "resolver \<Rightarrow> string \<Rightarrow> string + tcp_addr" where
  "addr_set resolve s = (case resolve s of Inl err \<Rightarrow> Inl err | Inr a \<Rightarrow> Inr a)"

definition addr_slice_set :: "resolver \<Rightarrow> string \<Rightarrow> tcp_addr list \<Rightarrow> string + tcp_addr list" where
  "addr_slice_set resolve s as = (case resolve s of Inl err \<Rightarrow> Inl err | Inr a \<Rightarrow> Inr (as @ [a]))"

definition addr_slice_string :: "tcp_addr list \<Rightarrow> string" where
  "addr_slice_string as = join_text '', '' (map addr_text as)"

text \<open>\<open>strconv.ParseBool\<close>\<close>

definition parse_bool :: "string \<Rightarrow> bool option" where
  "parse_bool s =
     (if s \<in> set [''1'', ''t'', ''T'', ''true'', ''TRUE'', ''True''] then Some True
      else if s \<in> set [''0'', ''f'', ''F'', ''false'', ''FALSE'', ''False''] then Some False
      else None)"

text \<open>\<open>strconv.ParseInt(s, 0, 64)\<close>: the base from the prefix; \<open>None\<close> for a syntax or range error.\<close>

definition flag_digit :: "char \<Rightarrow> nat option" where
  "flag_digit c =
     (if 48 \<le> byte_of c \<and> byte_of c \<le> 57 then Some (byte_of c - 48)
      else if 97 \<le> byte_of c \<and> byte_of c \<le> 122 then Some (byte_of c - 97 + 10)
      else if 65 \<le> byte_of c \<and> byte_of c \<le> 90 then Some (byte_of c - 65 + 10)
      else None)"

fun parse_digits :: "nat \<Rightarrow> nat \<Rightarrow> string \<Rightarrow> nat option" where
  "parse_digits base n [] = Some n"
| "parse_digits base n (c # s) =
     (case flag_digit c of
        None \<Rightarrow> None
      | Some v \<Rightarrow>
          if base \<le> v then None
          else if 2 ^ 64 \<le> n * base + v then None
          else parse_digits base (n * base + v) s)"

definition parse_uint :: "string \<Rightarrow> nat option" where
  "parse_uint s =
     (if s = [] then None
      else if s ! 0 = CHR ''0'' \<and> 1 < length s \<and> (s ! 1 = CHR ''x'' \<or> s ! 1 = CHR ''X'') then
        if length s < 3 then None else parse_digits 16 0 (drop 2 s)
      else if s ! 0 = CHR ''0'' then parse_digits 8 0 (drop 1 s)
      else parse_digits 10 0 s)"

definition parse_int :: "string \<Rightarrow> int64 option" where
  "parse_int s =
     (if s = [] then None
      else let neg = (s ! 0 = CHR ''-''); s = (if s ! 0 = CHR ''+'' \<or> s ! 0 = CHR ''-'' then drop 1 s else s)
           in case parse_uint s of
                None \<Rightarrow> None
              | Some n \<Rightarrow>
                  if \<not> neg \<and> 2 ^ 63 \<le> n then None
                  else if neg \<and> 2 ^ 63 < n then None
                  else Some (if neg then - of_nat n else of_nat n))"

section \<open>The command line\<close>

text \<open>All flags: those of the configuration, and the others.\<close>

record command =
  cmd_help :: bool
  cmd_flags :: flags
  cmd_tls_key :: string
  cmd_tls_cert :: string

definition new_command :: command where
  "new_command = \<lparr>cmd_help = False, cmd_flags = default_flags (TCPAddr '':0''), cmd_tls_key = [], cmd_tls_cert = []\<rparr>"

text \<open>Names and usage texts, in the order in which \<open>main\<close> declares them.\<close>

definition flag_usages :: "(string \<times> string) list" where
  "flag_usages =
     [(''help'', ''print usage''),
      (''join-retries'', ''number of join retries''),
      (''join'', ''join shard to the cluster''),
      (''server-addr'', ''address to bind for server communication''),
      (''client-addr'', ''address to bind for client access''),
      (''tls-key'', ''path to the TLS key file''),
      (''tls-cert'', ''path to the TLS key file''),
      (''num-partitions'', ''number of the data partitions'')]"

text \<open>\<open>Set\<close> of a flag that takes a value; \<open>None\<close> when the value is refused.\<close>

definition set_flag :: "resolver \<Rightarrow> string \<Rightarrow> string \<Rightarrow> command \<Rightarrow> command option" where
  "set_flag resolve name v cmd =
     (let fl = cmd_flags cmd
      in if name = ''join-retries'' then
           map_option (\<lambda>i. cmd\<lparr>cmd_flags := fl\<lparr>fl_join_retries := i\<rparr>\<rparr>) (parse_int v)
         else if name = ''join'' then
           (case addr_slice_set resolve v (fl_join fl) of
              Inl err \<Rightarrow> None | Inr as \<Rightarrow> Some (cmd\<lparr>cmd_flags := fl\<lparr>fl_join := as\<rparr>\<rparr>))
         else if name = ''server-addr'' then
           (case addr_set resolve v of
              Inl err \<Rightarrow> None | Inr a \<Rightarrow> Some (cmd\<lparr>cmd_flags := fl\<lparr>fl_server_addr := a\<rparr>\<rparr>))
         else if name = ''client-addr'' then
           (case addr_set resolve v of
              Inl err \<Rightarrow> None | Inr a \<Rightarrow> Some (cmd\<lparr>cmd_flags := fl\<lparr>fl_client_addr := a\<rparr>\<rparr>))
         else if name = ''tls-key'' then Some (cmd\<lparr>cmd_tls_key := v\<rparr>)
         else if name = ''tls-cert'' then Some (cmd\<lparr>cmd_tls_cert := v\<rparr>)
         else map_option (\<lambda>i. cmd\<lparr>cmd_flags := fl\<lparr>fl_num_partitions := i\<rparr>\<rparr>) (parse_int v))"

text \<open>One argument: no flag, the end of the flags, or a flag with or without a value.\<close>

datatype flag_arg = NoFlag | BadFlag | Flag string "string option"

definition flag_arg :: "string \<Rightarrow> flag_arg" where
  "flag_arg s =
     (if length s < 2 \<or> s ! 0 \<noteq> CHR ''-'' \<or> s = ''--'' then NoFlag
      else let name = (if s ! 1 = CHR ''-'' then drop 2 s else drop 1 s)
           in if name = [] \<or> hd name = CHR ''-'' \<or> hd name = CHR ''='' then BadFlag
              else let n = takeWhile (\<lambda>c. c \<noteq> CHR ''='') name
                   in Flag n (if n = name then None else Some (drop (Suc (length n)) name)))"

datatype flag_error = BadSyntax string | NotDefined string | NeedsArgument string | InvalidValue string string | HelpRequested

text \<open>\<open>flag.Parse\<close>: it ends at the first argument that is no flag; what follows is not read.\<close>

fun parse_args :: "resolver \<Rightarrow> string list \<Rightarrow> command \<Rightarrow> flag_error + command" where
  "parse_args resolve [] cmd = Inr cmd"
| "parse_args resolve (s # args) cmd =
     (case flag_arg s of
        NoFlag \<Rightarrow> Inr cmd
      | BadFlag \<Rightarrow> Inl (BadSyntax s)
      | Flag name value \<Rightarrow>
          if name \<notin> fst ` set flag_usages then
            Inl (if name = ''h'' then HelpRequested else NotDefined name)
          else if name = ''help'' then
            (case parse_bool (case value of None \<Rightarrow> ''true'' | Some v \<Rightarrow> v) of
               None \<Rightarrow> Inl (InvalidValue name (case value of None \<Rightarrow> ''true'' | Some v \<Rightarrow> v))
             | Some b \<Rightarrow> parse_args resolve args (cmd\<lparr>cmd_help := b\<rparr>))
          else
            (case value of
               Some v \<Rightarrow>
                 (case set_flag resolve name v cmd of
                    None \<Rightarrow> Inl (InvalidValue name v)
                  | Some cmd \<Rightarrow> parse_args resolve args cmd)
             | None \<Rightarrow>
                 (case args of
                    [] \<Rightarrow> Inl (NeedsArgument name)
                  | v # args' \<Rightarrow>
                      (case set_flag resolve name v cmd of
                         None \<Rightarrow> Inl (InvalidValue name v)
                       | Some cmd \<Rightarrow> parse_args resolve args' cmd))))"

text \<open>\<open>help\<close>: the flags by their names, each cut at 20 characters and filled up to 15.\<close>

definition padded :: "string \<Rightarrow> string" where
  "padded s = (let t = take 20 s in t @ replicate (15 - length t) CHR '' '')"

definition help_text :: string where
  "help_text =
     ''Usage: memhashd [OPTIONS] '' @ [CHR 0x0A, CHR 0x0A] @ ''Options:'' @ [CHR 0x0A] @
     concat (map (\<lambda>(name, usage). ''    --'' @ padded name @ usage @ [CHR 0x0A]) (sort_key fst flag_usages)) @
     [CHR 0x0A]"

section \<open>From the arguments to the end\<close>

text \<open>The HTTP server serves for ever or returns.\<close>

datatype http_end = Serves | Returns "string option"

text \<open>
  What \<open>main\<close> meets: the resolver, the reading of key pairs, what the system answers each dial of a
  neighbour, \<open>fmt.Sprintf\<close> on a format without operands, identifiers, the order of the joins, the
  end of an HTTP server at each address, and what the goroutine of \<open>Start\<close> and its connections do before \<open>Start\<close>
  returns and after it.
\<close>

record main_env =
  env_resolve :: resolver
  env_load :: "string \<Rightarrow> string \<Rightarrow> string + string"
  env_os :: "tcp_addr option \<Rightarrow> nat \<Rightarrow> os"
  env_sprintf :: "string \<Rightarrow> string"
  env_id :: string
  env_ids :: "nat \<Rightarrow> string"
  env_finish :: "nat list"
  env_http :: "string \<Rightarrow> http_end"
  env_before :: "life_event list"
  env_after :: "life_event list"

text \<open>A dial of \<open>join\<close>, with the connection by what it leads to.\<close>

definition net_dial :: "main_env \<Rightarrow> command \<Rightarrow> tcp_addr option \<Rightarrow> nat \<Rightarrow> string + conn" where
  "net_dial env cmd raddr k =
     map_sum id (\<lambda>c. peer (conn_socket c))
       (join_attempt (env_os env raddr k) (env_load env) (cmd_tls_cert cmd) (cmd_tls_key cmd)
          (node_zero\<lparr>node_addr := raddr\<rparr>))"

text \<open>
  The HTTP server: its configuration, what \<open>NewServer\<close> makes of it, and \<open>ListenAndServe\<close>, which takes
  TLS with both file names and then needs the key pair. A context only passes through to \<open>Do\<close>,
  which does not look at it.
\<close>

datatype go_context = Background | Lifetime string

record rest_config =
  rc_laddr :: tcp_addr
  rc_context :: "go_context option"
  rc_tls_key :: string
  rc_tls_cert :: string

record rest_server =
  rs_laddr :: tcp_addr
  rs_mux :: "handler serve_mux"
  rs_ctx :: go_context
  rs_tls_cert :: string
  rs_tls_key :: string

definition rest_context :: "rest_config \<Rightarrow> go_context" where
  "rest_context c = (case rc_context c of Some ctx \<Rightarrow> ctx | None \<Rightarrow> Background)"

definition new_rest_server :: "rest_config \<Rightarrow> rest_server" where
  "new_rest_server c =
     \<lparr>rs_laddr = rc_laddr c, rs_mux = api_mux, rs_ctx = rest_context c,
      rs_tls_cert = rc_tls_cert c, rs_tls_key = rc_tls_key c\<rparr>"

definition rest_server_of :: "command \<Rightarrow> rest_server" where
  "rest_server_of cmd =
     new_rest_server \<lparr>rc_laddr = fl_client_addr (cmd_flags cmd), rc_context = None,
       rc_tls_key = cmd_tls_key cmd, rc_tls_cert = cmd_tls_cert cmd\<rparr>"

definition http_listen :: "main_env \<Rightarrow> rest_server \<Rightarrow> http_end" where
  "http_listen env hs =
     (if rs_tls_cert hs \<noteq> [] \<and> rs_tls_key hs \<noteq> [] then
        (case env_load env (rs_tls_cert hs) (rs_tls_key hs) of
           Inl err \<Rightarrow> Returns (Some err)
         | Inr pair \<Rightarrow> env_http env (addr_text (rs_laddr hs)))
      else env_http env (addr_text (rs_laddr hs)))"

fun life_exec :: "bool \<Rightarrow> life_event \<Rightarrow> life \<Rightarrow> life" where
  "life_exec secure (ListenReturns out) l = listen_returns secure out l"
| "life_exec secure (AcceptReturns out) l = accept_returns out l"
| "life_exec secure (HandleReturns c) l = handle_returns c l"
| "life_exec secure StopCalled l = stop l"

fun died :: "life \<Rightarrow> go_panic option" where
  "died l = (case loop l of Panicked p \<Rightarrow> Some p | _ \<Rightarrow> None)"

text \<open>
  How the program ends: with the usage error of package \<open>flag\<close>, after the help, by a panic (and the
  node as the deferred \<open>Stop\<close> leaves it, where \<open>main\<close> panics itself), by returning, or not at all.
\<close>

datatype main_end =
    UsageError flag_error
  | Helped string
  | Died go_panic "life option"
  | Ended life
  | Serving life

definition main_fatal :: "main_env \<Rightarrow> string \<Rightarrow> life \<Rightarrow> main_end" where
  "main_fatal env err l =
     (let (call, p) = fatal_logf ''memhashd/MAIN'' (env_sprintf env err)
      in Died p (Some (stop (log_more [call] l))))"

text \<open>The node when \<open>Start\<close> fills its ring: joined and listed with its neighbours. A panic there unwinds \<open>main\<close>.\<close>

definition listed_nodes ::
    "(tcp_addr option \<Rightarrow> nat \<Rightarrow> string + conn) \<Rightarrow> (nat \<Rightarrow> string) \<Rightarrow> nat list \<Rightarrow> server \<Rightarrow> server" where
  "listed_nodes dial uuid finish s =
     (let s = fst (join_n dial uuid finish s)
      in s\<lparr>nodes := sort_nodes (nodes s @
           [\<lparr>node_id = uuid (length (nodes s)), node_addr = Some (laddr s), node_conn = None\<rparr>])\<rparr>)"

definition main_run :: "main_env \<Rightarrow> string list \<Rightarrow> main_end" where
  "main_run env args =
     (case parse_args (env_resolve env) args new_command of
        Inl err \<Rightarrow> UsageError err
      | Inr cmd \<Rightarrow>
          if cmd_help cmd then Helped help_text
          else (case new_server (env_id env) (config_of (cmd_flags cmd)) of
            Inl p \<Rightarrow> Died p None
          | Inr s \<Rightarrow>
              let secure = listens_securely (env_load env) (cmd_tls_cert cmd) (cmd_tls_key cmd);
                  l = fold (life_exec secure) (env_before env) (new_life s)
              in (case died l of
                    Some p \<Rightarrow> Died p None
                  | None \<Rightarrow>
                      (case start_returns (net_dial env cmd) (env_ids env) (env_finish env) l of
                         Inl p \<Rightarrow> Died p (Some (stop (l\<lparr>lserver :=
                           listed_nodes (net_dial env cmd) (env_ids env) (env_finish env) (lserver l)\<rparr>)))
                       | Inr (l, Some err) \<Rightarrow> main_fatal env err l
                       | Inr (l, None) \<Rightarrow>
                           let l = fold (life_exec secure) (env_after env) l
                           in (case died l of
                                 Some p \<Rightarrow> Died p None
                               | None \<Rightarrow>
                                   (case http_listen env (rest_server_of cmd) of
                                      Serves \<Rightarrow> Serving l
                                    | Returns (Some err) \<Rightarrow> main_fatal env err l
                                    | Returns None \<Rightarrow> Ended (stop l)))))))"

section \<open>Numbers written and read\<close>

lemma byte_of_digit: "d < 10 \<Longrightarrow> byte_of (digit d) = 48 + d"
  by (simp add: digit_def)

lemma flag_digit_digit: "d < 10 \<Longrightarrow> flag_digit (digit d) = Some d"
  by (simp add: flag_digit_def byte_of_digit)

lemma parse_digits_nat_text:
  "n < 2 ^ 64 \<Longrightarrow> parse_digits 10 0 (nat_text n @ t) = parse_digits 10 n t"
proof (induction n arbitrary: t rule: nat_text.induct)
  case (1 n)
  show ?case
  proof (cases "n < 10")
    case True
    then show ?thesis by (simp add: nat_text.simps [of n] flag_digit_digit)
  next
    case False
    then have "parse_digits 10 0 (nat_text (n div 10) @ digit (n mod 10) # t) =
        parse_digits 10 (n div 10) (digit (n mod 10) # t)"
      using 1 by simp
    moreover have "\<not> 10 \<le> n mod 10" by (simp add: not_le)
    moreover have "\<not> 2 ^ 64 \<le> n div 10 * 10 + n mod 10" using 1(2) by simp
    ultimately show ?thesis using False by (simp add: nat_text.simps [of n] flag_digit_digit)
  qed
qed

lemma nat_text_ne: "nat_text n \<noteq> []"
  by (simp add: nat_text.simps [of n])

lemma nat_text_hd_nonzero: "0 < n \<Longrightarrow> byte_of (hd (nat_text n)) \<noteq> 48"
proof (induction n rule: nat_text.induct)
  case (1 n)
  then show ?case by (cases "n < 10") (simp_all add: nat_text.simps [of n] nat_text_ne byte_of_digit)
qed

lemma nat_text_hd_digit: "48 \<le> byte_of (hd (nat_text n)) \<and> byte_of (hd (nat_text n)) \<le> 57"
proof (induction n rule: nat_text.induct)
  case (1 n)
  then show ?case by (cases "n < 10") (simp_all add: nat_text.simps [of n] nat_text_ne byte_of_digit)
qed

lemma parse_uint_nat_text: "n < 2 ^ 64 \<Longrightarrow> parse_uint (nat_text n) = Some n"
proof (cases "n = 0")
  case True
  moreover have "digit 0 = CHR ''0''" by code_simp
  ultimately show ?thesis by (simp add: parse_uint_def nat_text.simps)
next
  case False
  assume n: "n < 2 ^ 64"
  from False nat_text_hd_nonzero [of n] have "nat_text n ! 0 \<noteq> CHR ''0''"
    by (auto simp: hd_conv_nth nat_text_ne)
  with n parse_digits_nat_text [OF n, of "[]"] show ?thesis by (simp add: parse_uint_def nat_text_ne)
qed

lemma parse_int_text: "parse_int (int_text (sint i)) = Some i"
proof -
  have range: "- (2 ^ 63) \<le> sint i" "sint i < 2 ^ 63" using sint_ge [of i] sint_lt [of i] by simp_all
  show ?thesis
  proof (cases "sint i < 0")
    case True
    then have "nat (- sint i) < 2 ^ 64" "nat (- sint i) \<le> 2 ^ 63" using range by (simp_all add: nat_less_iff)
    with True have "parse_int (int_text (sint i)) = Some (- of_nat (nat (- sint i)))"
      by (simp add: parse_int_def int_text_def parse_uint_nat_text)
    also have "- of_nat (nat (- sint i)) = (word_of_int (sint i) :: int64)"
      using True by (simp only: of_nat_nat of_int_minus neg_0_le_iff_le less_imp_le minus_minus)
    finally show ?thesis by simp
  next
    case False
    let ?t = "nat_text (nat (sint i))"
    have n: "nat (sint i) < 2 ^ 63" "nat (sint i) < 2 ^ 64" using range False by (simp_all add: nat_less_iff)
    have "?t ! 0 \<noteq> CHR ''+''" "?t ! 0 \<noteq> CHR ''-''"
      using nat_text_hd_digit [of "nat (sint i)"] by (auto simp: hd_conv_nth nat_text_ne)
    with False n have "parse_int (int_text (sint i)) = Some (of_nat (nat (sint i)))"
      by (simp add: parse_int_def int_text_def parse_uint_nat_text nat_text_ne)
    also have "of_nat (nat (sint i)) = (word_of_int (sint i) :: int64)"
      using False by (simp only: of_nat_nat not_less)
    finally show ?thesis by simp
  qed
qed

section \<open>The command line of a configuration\<close>

definition flag_name :: "string \<Rightarrow> bool" where
  "flag_name name \<longleftrightarrow> name \<noteq> [] \<and> hd name \<noteq> CHR ''-'' \<and> CHR ''='' \<notin> set name"

lemma flag_arg_value: "flag_name name \<Longrightarrow> flag_arg (CHR ''-'' # name @ CHR ''='' # v) = Flag name (Some v)"
proof -
  assume n: "flag_name name"
  then obtain c r where name: "name = c # r" by (cases name) (auto simp: flag_name_def)
  have "takeWhile (\<lambda>c. c \<noteq> CHR ''='') (name @ CHR ''='' # v) = name"
    using n by (subst takeWhile_append2) (auto simp: flag_name_def)
  with n show ?thesis by (auto simp: flag_arg_def name flag_name_def Let_def)
qed

text \<open>Arguments that give a command, \<open>-name=value\<close> each.\<close>

definition value_arg :: "string \<Rightarrow> string \<Rightarrow> string" where
  "value_arg name v = CHR ''-'' # name @ CHR ''='' # v"

definition command_args :: "command \<Rightarrow> string list" where
  "command_args cmd =
     (let fl = cmd_flags cmd
      in [value_arg ''tls-cert'' (cmd_tls_cert cmd), value_arg ''tls-key'' (cmd_tls_key cmd),
          value_arg ''server-addr'' (addr_text (fl_server_addr fl)),
          value_arg ''client-addr'' (addr_text (fl_client_addr fl))] @
         map (\<lambda>a. value_arg ''join'' (addr_text a)) (fl_join fl) @
         [value_arg ''join-retries'' (int_text (sint (fl_join_retries fl))),
          value_arg ''num-partitions'' (int_text (sint (fl_num_partitions fl)))])"

lemma flag_names:
  "flag_name ''tls-cert''" "flag_name ''tls-key''" "flag_name ''server-addr''" "flag_name ''client-addr''"
  "flag_name ''join''" "flag_name ''join-retries''" "flag_name ''num-partitions''"
  by (simp_all add: flag_name_def)

lemma parse_value_arg:
  assumes "flag_name name" and "name \<in> fst ` set flag_usages" and "name \<noteq> ''help''"
    and "set_flag resolve name v cmd = Some cmd'"
  shows "parse_args resolve (value_arg name v # args) cmd = parse_args resolve args cmd'"
  using assms by (simp add: value_arg_def flag_arg_value)

lemma set_flag_simps:
  "set_flag resolve ''tls-cert'' v cmd = Some (cmd\<lparr>cmd_tls_cert := v\<rparr>)"
  "set_flag resolve ''tls-key'' v cmd = Some (cmd\<lparr>cmd_tls_key := v\<rparr>)"
  "resolve v = Inr a \<Longrightarrow> set_flag resolve ''server-addr'' v cmd =
     Some (cmd\<lparr>cmd_flags := (cmd_flags cmd)\<lparr>fl_server_addr := a\<rparr>\<rparr>)"
  "resolve v = Inr a \<Longrightarrow> set_flag resolve ''client-addr'' v cmd =
     Some (cmd\<lparr>cmd_flags := (cmd_flags cmd)\<lparr>fl_client_addr := a\<rparr>\<rparr>)"
  "resolve v = Inr a \<Longrightarrow> set_flag resolve ''join'' v cmd =
     Some (cmd\<lparr>cmd_flags := (cmd_flags cmd)\<lparr>fl_join := fl_join (cmd_flags cmd) @ [a]\<rparr>\<rparr>)"
  "parse_int v = Some i \<Longrightarrow> set_flag resolve ''join-retries'' v cmd =
     Some (cmd\<lparr>cmd_flags := (cmd_flags cmd)\<lparr>fl_join_retries := i\<rparr>\<rparr>)"
  "parse_int v = Some i \<Longrightarrow> set_flag resolve ''num-partitions'' v cmd =
     Some (cmd\<lparr>cmd_flags := (cmd_flags cmd)\<lparr>fl_num_partitions := i\<rparr>\<rparr>)"
  by (simp_all add: set_flag_def addr_set_def addr_slice_set_def Let_def)

lemma usage_names:
  "fst ` set flag_usages = {''help'', ''join-retries'', ''join'', ''server-addr'', ''client-addr'', ''tls-key'',
     ''tls-cert'', ''num-partitions''}"
  by (auto simp: flag_usages_def)

lemmas parse_value =
  parse_value_arg [OF flag_names(1) _ _ set_flag_simps(1)] parse_value_arg [OF flag_names(2) _ _ set_flag_simps(2)]
  parse_value_arg [OF flag_names(3) _ _ set_flag_simps(3)] parse_value_arg [OF flag_names(4) _ _ set_flag_simps(4)]
  parse_value_arg [OF flag_names(5) _ _ set_flag_simps(5)] parse_value_arg [OF flag_names(6) _ _ set_flag_simps(6)]
  parse_value_arg [OF flag_names(7) _ _ set_flag_simps(7)]

lemma parse_joins:
  "list_all (\<lambda>a. resolve (addr_text a) = Inr a) as \<Longrightarrow>
     parse_args resolve (map (\<lambda>a. value_arg ''join'' (addr_text a)) as @ args) cmd =
     parse_args resolve args (cmd\<lparr>cmd_flags := (cmd_flags cmd)\<lparr>fl_join := fl_join (cmd_flags cmd) @ as\<rparr>\<rparr>)"
  by (induction as arbitrary: cmd) (simp_all add: parse_value usage_names del: parse_args.simps)

section \<open>Properties\<close>

text \<open>The arguments written for a configuration are read back as that configuration, when the resolver
  knows its addresses by their texts.\<close>

theorem command_line_roundtrip:
  assumes "\<not> cmd_help cmd" and "resolve (addr_text (fl_server_addr (cmd_flags cmd))) = Inr (fl_server_addr (cmd_flags cmd))"
    and "resolve (addr_text (fl_client_addr (cmd_flags cmd))) = Inr (fl_client_addr (cmd_flags cmd))"
    and "list_all (\<lambda>a. resolve (addr_text a) = Inr a) (fl_join (cmd_flags cmd))"
  shows "parse_args resolve (command_args cmd) new_command = Inr cmd"
proof -
  have "parse_args resolve (command_args cmd) new_command = Inr (new_command
      \<lparr>cmd_tls_cert := cmd_tls_cert cmd, cmd_tls_key := cmd_tls_key cmd, cmd_flags := cmd_flags cmd\<rparr>)"
    using assms(2-4)
    by (simp add: command_args_def Let_def parse_value parse_joins usage_names parse_int_text new_command_def
        default_flags_def del: parse_args.simps(2))
  then show ?thesis using assms(1) by (simp add: new_command_def)
qed

section \<open>Main and the start of the node\<close>

text \<open>The listener for the peers does not fail to open.\<close>

definition undisturbed :: "life_event list \<Rightarrow> bool" where
  "undisturbed es \<longleftrightarrow> list_all (\<lambda>e. case e of ListenReturns (Some err) \<Rightarrow> False | _ \<Rightarrow> True) es"

lemma undisturbed_exec:
  "undisturbed es \<Longrightarrow> running l \<Longrightarrow>
     running (fold (life_exec secure) es l) \<and> lserver (fold (life_exec secure) es l) = lserver l"
proof (induction es arbitrary: l)
  case (Cons e es)
  have "running (life_exec secure e l) \<and> lserver (life_exec secure e l) = lserver l"
  proof (cases e)
    case (ListenReturns out)
    with Cons.prems show ?thesis
      by (cases out) (simp_all add: undisturbed_def listen_returns_def running_def)
  next
    case (AcceptReturns out)
    with Cons.prems show ?thesis by (simp add: running_def)
  next
    case (HandleReturns c)
    with Cons.prems show ?thesis by (simp add: handle_returns_def running_def)
  next
    case StopCalled
    with Cons.prems show ?thesis by (simp add: running_def)
  qed
  with Cons show ?case by (simp add: undisturbed_def)
qed simp

lemma net_dial_granted:
  assumes "grants (env_os env (Some a) k) (Some a) a"
  shows "net_dial env cmd (Some a) k = Inr a"
  by (rule dial_conn_granted [OF assms, where config = "tls_config (env_load env) (cmd_tls_cert cmd) (cmd_tls_key cmd)"])
     (simp add: net_dial_def join_attempt_def split: option.split)

lemma died_running: "died l = None \<longleftrightarrow> running l"
  by (simp add: running_def split: accept_loop.split)

lemma start_returns_boot:
  assumes "new_server i (config_of fl) = Inr s" and "boot i dial ids finish fl = Inr (s', r)" and "lserver l = s"
  shows "\<exists>l'. start_returns dial ids finish l = Inr (l', r) \<and> lserver l' = s' \<and> (running l \<longrightarrow> running l')"
  using assms by (auto simp: boot_def start_returns_def join_failed_def running_def split: option.split)

lemma main_run_boot:
  assumes "parse_args (env_resolve env) args new_command = Inr cmd" and "\<not> cmd_help cmd"
    and "boot (env_id env) (net_dial env cmd) (env_ids env) (env_finish env) (cmd_flags cmd) = Inr (s, r)"
    and "undisturbed (env_before env)" and "undisturbed (env_after env)"
  shows "\<exists>l. lserver l = s \<and> main_run env args =
     (case r of
        Some err \<Rightarrow> Died (fatal_log ''memhashd/MAIN'' (env_sprintf env err)) (Some (stop l))
      | None \<Rightarrow>
          (case http_listen env (rest_server_of cmd) of
             Serves \<Rightarrow> Serving l
           | Returns (Some err) \<Rightarrow> Died (fatal_log ''memhashd/MAIN'' (env_sprintf env err)) (Some (stop l))
           | Returns None \<Rightarrow> Ended (stop l)))"
proof -
  let ?sec = "listens_securely (env_load env) (cmd_tls_cert cmd) (cmd_tls_key cmd)"
  obtain s0 where s0: "new_server (env_id env) (config_of (cmd_flags cmd)) = Inr s0"
    using assms(3) by (auto simp: boot_def split: sum.splits)
  define l0 where "l0 = fold (life_exec ?sec) (env_before env) (new_life s0)"
  have l0: "running l0" "lserver l0 = s0"
    using undisturbed_exec [OF assms(4), of "new_life s0" ?sec] by (simp_all add: l0_def new_life_def running_def)
  from start_returns_boot [OF s0 assms(3) l0(2)] l0(1) obtain l1 where
    l1: "start_returns (net_dial env cmd) (env_ids env) (env_finish env) l0 = Inr (l1, r)" "lserver l1 = s" "running l1"
    by blast
  define l2 where "l2 = fold (life_exec ?sec) (env_after env) l1"
  have l2: "running l2" "lserver l2 = s"
    using undisturbed_exec [OF assms(5) l1(3), of ?sec] l1(2) by (simp_all add: l2_def)
  have d: "died l0 = None" "died l2 = None" using l0(1) l2(1) by (simp_all only: died_running)
  let ?call = "\<lambda>err. (level_emerg, ''memhashd/MAIN '' @ env_sprintf env err @ [CHR 0x0A])"
  show ?thesis
  proof (cases r)
    case (Some err)
    have "main_run env args = main_fatal env err l1"
      using assms(1,2) s0 d(1) [unfolded l0_def] l1(1) [unfolded l0_def] Some
      by (simp add: main_run_def Let_def del: died.simps)
    with Some l1(2) show ?thesis
      by (intro exI [of _ "log_more [?call err] l1"]) (simp add: main_fatal_def)
  next
    case None
    have run: "main_run env args = (case http_listen env (rest_server_of cmd) of
        Serves \<Rightarrow> Serving l2 | Returns (Some err) \<Rightarrow> main_fatal env err l2 | Returns None \<Rightarrow> Ended (stop l2))"
      using assms(1,2) s0 d(1) [unfolded l0_def] l1(1) [unfolded l0_def] d(2) None
      unfolding l2_def by (simp add: main_run_def Let_def del: died.simps)
    show ?thesis
    proof (cases "http_listen env (rest_server_of cmd)")
      case Serves
      with run None l2(2) show ?thesis by auto
    next
      case (Returns out)
      show ?thesis
      proof (cases out)
        case (Some err)
        with run None l2(2) Returns show ?thesis
          by (intro exI [of _ "log_more [?call err] l2"]) (simp add: main_fatal_def)
      qed (use run None l2(2) Returns in auto)
    qed
  qed
qed

text \<open>C40. Provided that the listener for the peers does not fail to open (\<open>undisturbed\<close>; where it fails, its
  goroutine ends the program, without \<open>Stop\<close>), \<open>main\<close> starts the node its arguments describe: when the
  joining of theory \<open>Memhashd\<close> succeeds, the program comes to serve with that very node, if the HTTP
  server does; when it fails, or when the HTTP server returns an error, the program ends by the panic
  of \<open>log.FatalLogf\<close>, with the neighbours closed by the deferred \<open>Stop\<close>.\<close>

theorem main_starts_node:
  assumes "parse_args (env_resolve env) args new_command = Inr cmd" and "\<not> cmd_help cmd"
    and "boot (env_id env) (net_dial env cmd) (env_ids env) (env_finish env) (cmd_flags cmd) = Inr (s, r)"
    and "undisturbed (env_before env)" and "undisturbed (env_after env)"
  shows "\<exists>l. lserver l = s \<and> main_run env args =
     (case r of
        Some err \<Rightarrow> Died (fatal_log ''memhashd/MAIN'' (env_sprintf env err)) (Some (stop l))
      | None \<Rightarrow>
          (case http_listen env (rest_server_of cmd) of
             Serves \<Rightarrow> Serving l
           | Returns (Some err) \<Rightarrow> Died (fatal_log ''memhashd/MAIN'' (env_sprintf env err)) (Some (stop l))
           | Returns None \<Rightarrow> Ended (stop l)))"
  by (rule main_run_boot [OF assms])

section \<open>The first container of docker-compose.yml\<close>

definition compose_args :: "string list" where
  "compose_args =
     [''-tls-cert=/etc/memhash.d/cert.pem'', ''-tls-key=/etc/memhash.d/key.pem'',
      ''-server-addr=172.16.239.10:2371'', ''-client-addr=172.16.239.10:8001'',
      ''-join=172.16.239.20:2372'', ''-join=172.16.239.30:2373'', ''-join-retries=5'']"

definition compose_command :: command where
  "compose_command =
     \<lparr>cmd_help = False, cmd_flags = compose_flags ! 0,
      cmd_tls_key = ''/etc/memhash.d/key.pem'', cmd_tls_cert = ''/etc/memhash.d/cert.pem''\<rparr>"

definition known :: resolver where
  "known s = Inr (TCPAddr s)"

lemma compose_args_parsed: "parse_args known compose_args new_command = Inr compose_command"
proof -
  have "digit 5 = CHR ''5''" by code_simp
  then have "int_text (sint (5 :: int64)) = ''5''" by (simp add: int_text_def nat_text.simps)
  with parse_int_text [of 5] have five: "parse_int ''5'' = Some 5" by simp
  have args: "compose_args =
      [value_arg ''tls-cert'' ''/etc/memhash.d/cert.pem'', value_arg ''tls-key'' ''/etc/memhash.d/key.pem'',
       value_arg ''server-addr'' ''172.16.239.10:2371'', value_arg ''client-addr'' ''172.16.239.10:8001'',
       value_arg ''join'' ''172.16.239.20:2372'', value_arg ''join'' ''172.16.239.30:2373'', value_arg ''join-retries'' ''5'']"
    by (simp add: compose_args_def value_arg_def)
  show ?thesis
    unfolding args by (simp add: parse_value usage_names known_def five new_command_def compose_command_def compose_flags_def
        default_flags_def del: parse_args.simps(2))
qed

theorem command_line_roundtrip_witness:
  "parse_args known (command_args compose_command) new_command = Inr compose_command"
  using command_line_roundtrip [of compose_command known]
  by (simp add: compose_command_def compose_flags_def default_flags_def known_def)

text \<open>Everything works; a neighbour connects after the start.\<close>

definition compose_env :: main_env where
  "compose_env =
     \<lparr>env_resolve = known, env_load = (\<lambda>cert key. Inr ''pair''), env_os = (\<lambda>_ _. kind_os), env_sprintf = (\<lambda>t. t),
      env_id = ''id'', env_ids = (\<lambda>_. ''uuid''), env_finish = [1, 0], env_http = (\<lambda>_. Serves),
      env_before = [ListenReturns None], env_after = [AcceptReturns (Inr node2)]\<rparr>"

lemma kind_grants: "grants kind_os (Some a) a"
  by (simp add: grants_def kind_os_def)

lemma kind_net_dial: "net_dial compose_env cmd (Some a) k = Inr a"
  by (rule net_dial_granted) (simp add: compose_env_def kind_grants)

lemma sint_16384: "0 < sint (16384 :: int64)" "sint (16384 :: int64) < 2 ^ 32"
  by simp_all

lemma compose_boot:
  "\<exists>s. boot (env_id compose_env) (net_dial compose_env compose_command) (env_ids compose_env) (env_finish compose_env)
     (cmd_flags compose_command) = Inr (s, None) \<and> mesh_node 16384 [node1, node2, node3] s"
proof -
  have fl: "cmd_flags compose_command \<in> set compose_flags" by (simp add: compose_command_def compose_flags_def)
  have "peers_answer (net_dial compose_env compose_command) (cmd_flags compose_command)"
    unfolding peers_answer_def kind_net_dial
    by (intro ballI exI [of _ 0]) (simp add: compose_command_def compose_flags_def default_flags_def)
  moreover have "set (env_finish compose_env) = {0..<length (fl_join (cmd_flags compose_command))}"
    by (auto simp: compose_env_def compose_command_def compose_flags_def default_flags_def)
  moreover have "nat (sint (16384 :: int64)) = 16384"
    and "fl_server_addr (cmd_flags compose_command) # fl_join (cmd_flags compose_command) = [node1, node2, node3]"
    by (simp_all add: compose_command_def compose_flags_def default_flags_def)
  ultimately show ?thesis
    using boot_mesh [OF same_cluster_member(1) [OF compose_same fl] _ _ same_cluster_member(2) [OF compose_same fl],
        of "net_dial compose_env compose_command" "env_finish compose_env" "env_id compose_env" "env_ids compose_env"]
    by (metis sint_16384)
qed

theorem main_starts_node_witness:
  "\<exists>l. main_run compose_env compose_args = Serving l \<and> mesh_node 16384 [node1, node2, node3] (lserver l)"
proof -
  from compose_boot obtain s where s: "boot (env_id compose_env) (net_dial compose_env compose_command)
      (env_ids compose_env) (env_finish compose_env) (cmd_flags compose_command) = Inr (s, None)"
    "mesh_node 16384 [node1, node2, node3] s" by blast
  have served: "http_listen compose_env (rest_server_of compose_command) = Serves"
    by (simp add: http_listen_def compose_env_def rest_server_of_def new_rest_server_def)
  have prems: "parse_args (env_resolve compose_env) compose_args new_command = Inr compose_command"
    "\<not> cmd_help compose_command" "undisturbed (env_before compose_env)" "undisturbed (env_after compose_env)"
    using compose_args_parsed by (simp_all add: compose_command_def compose_env_def undisturbed_def del: parse_args.simps)
  from main_starts_node [OF prems(1,2) s(1) prems(3,4)]
  obtain l where "lserver l = s" "main_run compose_env compose_args = Serving l"
    unfolding served option.case http_end.case by blast
  with s(2) show ?thesis by blast
qed

end
