(* ===== verification/Launch.thy ===== *)
theory Launch
  imports Command
begin

text \<open>
  A cluster from its command lines: every member is a run of \<open>main\<close> (theory \<open>Command\<close>) in a system that
  grants its connections, and the nodes that come up are the cluster of theory \<open>Memhashd\<close>.
\<close>

text \<open>A member: what its process meets, its arguments, and the command they are read as.\<close>

type_synonym launch = "main_env \<times> string list \<times> command"

abbreviation launch_flags :: "launch \<Rightarrow> flags" where
  "launch_flags x \<equiv> cmd_flags (snd (snd x))"

definition launch_ok :: "launch \<Rightarrow> bool" where
  "launch_ok x \<longleftrightarrow>
     (case x of (env, args, cmd) \<Rightarrow>
        parse_args (env_resolve env) args new_command = Inr cmd \<and> \<not> cmd_help cmd \<and>
        undisturbed (env_before env) \<and> undisturbed (env_after env) \<and> http_listen env (rest_server_of cmd) = Serves \<and>
        set (env_finish env) = {0..<length (fl_join (cmd_flags cmd))} \<and> 0 \<le> sint (fl_join_retries (cmd_flags cmd)) \<and>
        list_all (\<lambda>p. grants (env_os env (Some p) 0) (Some p) p) (fl_join (cmd_flags cmd)))"

definition launched_at :: "launch list \<Rightarrow> tcp_addr \<Rightarrow> launch" where
  "launched_at xs a = the (map_of (map (\<lambda>x. (fl_server_addr (launch_flags x), x)) xs) a)"

definition launched_world :: "launch list \<Rightarrow> world" where
  "launched_world xs =
     boot_world (\<lambda>a. env_id (fst (launched_at xs a)))
       (\<lambda>a. net_dial (fst (launched_at xs a)) (snd (snd (launched_at xs a))))
       (\<lambda>a. env_ids (fst (launched_at xs a))) (\<lambda>a. env_finish (fst (launched_at xs a)))
       (map launch_flags xs)"

lemma launched_at_member:
  assumes "same_cluster parts (map launch_flags xs)" and "x \<in> set xs"
  shows "launched_at xs (fl_server_addr (launch_flags x)) = x"
proof -
  have "distinct (map fst (map (\<lambda>x. (fl_server_addr (launch_flags x), x)) xs))"
    using assms(1) by (simp add: same_cluster_def comp_def)
  with assms(2) have "map_of (map (\<lambda>x. (fl_server_addr (launch_flags x), x)) xs) (fl_server_addr (launch_flags x)) = Some x"
    by (intro map_of_is_SomeI) auto
  then show ?thesis by (simp add: launched_at_def)
qed

lemma launch_peers_answer:
  assumes "launch_ok x"
  shows "peers_answer (net_dial (fst x) (snd (snd x))) (launch_flags x)"
proof -
  obtain env args cmd where x: "x = (env, args, cmd)" by (cases x)
  have "net_dial env cmd (Some p) 0 = Inr p" if "p \<in> set (fl_join (cmd_flags cmd))" for p
    using assms that by (intro net_dial_granted) (simp add: launch_ok_def x list_all_iff)
  then show ?thesis
    using assms unfolding peers_answer_def x by (auto simp: launch_ok_def intro!: exI [of _ 0])
qed

lemma launched_world_inv:
  assumes same: "same_cluster parts (map launch_flags xs)" and parts: "0 < sint parts" "sint parts < 2 ^ 32"
    and ok: "list_all launch_ok xs"
  shows "cluster_inv (nat (sint parts)) (map (fl_server_addr \<circ> launch_flags) xs) (launched_world xs)"
    and "cluster_abs (nat (sint parts)) (map (fl_server_addr \<circ> launch_flags) xs) (launched_world xs) = Map.empty"
proof -
  have at: "launched_at xs (fl_server_addr (launch_flags x)) = x" "launch_ok x" if "x \<in> set xs" for x
    using launched_at_member [OF same that] ok that by (simp_all add: list_all_iff)
  have "\<forall>fl \<in> set (map launch_flags xs). peers_answer (net_dial (fst (launched_at xs (fl_server_addr fl)))
      (snd (snd (launched_at xs (fl_server_addr fl))))) fl"
    using at launch_peers_answer by auto
  moreover have "\<forall>fl \<in> set (map launch_flags xs).
      set (env_finish (fst (launched_at xs (fl_server_addr fl)))) = {0..<length (fl_join fl)}"
    using at by (auto simp: launch_ok_def Let_def split: prod.splits)
  ultimately show "cluster_inv (nat (sint parts)) (map (fl_server_addr \<circ> launch_flags) xs) (launched_world xs)"
    "cluster_abs (nat (sint parts)) (map (fl_server_addr \<circ> launch_flags) xs) (launched_world xs) = Map.empty"
    using boot_world_inv [OF same parts] by (simp_all add: launched_world_def)
qed

text \<open>Each process serves with its node of the cluster.\<close>

lemma launched_serving:
  assumes same: "same_cluster parts (map launch_flags xs)" and parts: "0 < sint parts" "sint parts < 2 ^ 32"
    and ok: "list_all launch_ok xs" and x: "(env, args, cmd) \<in> set xs"
  shows "\<exists>l. main_run env args = Serving l \<and>
     servers (launched_world xs) (fl_server_addr (cmd_flags cmd)) = Some (lserver l)"
proof -
  let ?fl = "cmd_flags cmd" and ?i = "\<lambda>a. env_id (fst (launched_at xs a))"
    and ?d = "\<lambda>a. net_dial (fst (launched_at xs a)) (snd (snd (launched_at xs a)))"
    and ?u = "\<lambda>a. env_ids (fst (launched_at xs a))" and ?f = "\<lambda>a. env_finish (fst (launched_at xs a))"
  have member: "\<exists>s. boot_member ?i ?d ?u ?f fl = Some s" if "fl \<in> set (map launch_flags xs)" for fl
  proof -
    from that obtain y where y: "y \<in> set xs" "fl = launch_flags y" by auto
    then have at: "launched_at xs (fl_server_addr fl) = y" "launch_ok y"
      using launched_at_member [OF same y(1)] ok by (simp_all add: list_all_iff)
    with y launch_peers_answer [OF at(2)] boot_member_mesh [OF same parts that, of ?d ?f ?i ?u] show ?thesis
      by (auto simp: launch_ok_def Let_def split: prod.splits)
  qed
  define srv where "srv fl = the (boot_member ?i ?d ?u ?f fl)" for fl
  have up: "boot_member ?i ?d ?u ?f fl = Some (srv fl)" if "fl \<in> set (map launch_flags xs)" for fl
    using member [OF that] by (auto simp: srv_def)
  have fl: "?fl \<in> set (map launch_flags xs)" using x by force
  have dist: "distinct (map fl_server_addr (map launch_flags xs))" using same by (simp add: same_cluster_def)
  from boot_world_servers [OF dist up fl] have at: "servers (launched_world xs) (fl_server_addr ?fl) = Some (srv ?fl)"
    by (simp add: launched_world_def)
  have here: "launched_at xs (fl_server_addr ?fl) = (env, args, cmd)" using launched_at_member [OF same x] by simp
  have okx: "launch_ok (env, args, cmd)" using ok x by (auto simp: list_all_iff)
  from up [OF fl] have "boot (env_id env) (net_dial env cmd) (env_ids env) (env_finish env) ?fl = Inr (srv ?fl, None)"
    by (auto simp: boot_member_def here Let_def split: sum.splits prod.splits option.splits)
  from main_run_boot [OF _ _ this] okx obtain l where "lserver l = srv ?fl" "main_run env args = Serving l"
    by (auto simp: launch_ok_def Let_def)
  with at show ?thesis by auto
qed

section \<open>The containers of docker-compose.yml\<close>

definition compose_args2 :: "string list" where
  "compose_args2 =
     [''-tls-cert=/etc/memhash.d/cert.pem'', ''-tls-key=/etc/memhash.d/key.pem'',
      ''-server-addr=172.16.239.20:2372'', ''-client-addr=172.16.239.20:8002'',
      ''-join=172.16.239.10:2371'', ''-join=172.16.239.30:2373'']"

definition compose_args3 :: "string list" where
  "compose_args3 =
     [''-tls-cert=/etc/memhash.d/cert.pem'', ''-tls-key=/etc/memhash.d/key.pem'',
      ''-server-addr=172.16.239.30:2373'', ''-client-addr=172.16.239.30:8003'',
      ''-join=172.16.239.10:2371'', ''-join=172.16.239.20:2372'']"

definition compose_launches :: "launch list" where
  "compose_launches =
     [(compose_env, compose_args, compose_command),
      (compose_env\<lparr>env_after := []\<rparr>, compose_args2, compose_command\<lparr>cmd_flags := compose_flags ! 1\<rparr>),
      (compose_env\<lparr>env_after := []\<rparr>, compose_args3, compose_command\<lparr>cmd_flags := compose_flags ! 2\<rparr>)]"

lemma compose_args2_parsed:
  "parse_args known compose_args2 new_command = Inr (compose_command\<lparr>cmd_flags := compose_flags ! 1\<rparr>)"
proof -
  have args: "compose_args2 =
      [value_arg ''tls-cert'' ''/etc/memhash.d/cert.pem'', value_arg ''tls-key'' ''/etc/memhash.d/key.pem'',
       value_arg ''server-addr'' ''172.16.239.20:2372'', value_arg ''client-addr'' ''172.16.239.20:8002'',
       value_arg ''join'' ''172.16.239.10:2371'', value_arg ''join'' ''172.16.239.30:2373'']"
    by (simp add: compose_args2_def value_arg_def)
  show ?thesis
    unfolding args by (simp add: parse_value usage_names known_def new_command_def compose_command_def compose_flags_def
        default_flags_def del: parse_args.simps(2))
qed

lemma compose_args3_parsed:
  "parse_args known compose_args3 new_command = Inr (compose_command\<lparr>cmd_flags := compose_flags ! 2\<rparr>)"
proof -
  have args: "compose_args3 =
      [value_arg ''tls-cert'' ''/etc/memhash.d/cert.pem'', value_arg ''tls-key'' ''/etc/memhash.d/key.pem'',
       value_arg ''server-addr'' ''172.16.239.30:2373'', value_arg ''client-addr'' ''172.16.239.30:8003'',
       value_arg ''join'' ''172.16.239.10:2371'', value_arg ''join'' ''172.16.239.20:2372'']"
    by (simp add: compose_args3_def value_arg_def)
  show ?thesis
    unfolding args by (simp add: parse_value usage_names known_def new_command_def compose_command_def compose_flags_def
        default_flags_def del: parse_args.simps(2))
qed

lemma compose_launch_flags: "map launch_flags compose_launches = compose_flags"
  by (simp add: compose_launches_def compose_command_def compose_flags_def)

lemma compose_launches_ok: "list_all launch_ok compose_launches"
proof -
  have args: "parse_args known compose_args new_command = Inr compose_command"
    "parse_args known compose_args2 new_command = Inr (compose_command\<lparr>cmd_flags := compose_flags ! 1\<rparr>)"
    "parse_args known compose_args3 new_command = Inr (compose_command\<lparr>cmd_flags := compose_flags ! 2\<rparr>)"
    by (rule compose_args_parsed compose_args2_parsed compose_args3_parsed)+
  have env: "env_resolve compose_env = known" "env_before compose_env = [ListenReturns None]"
    "env_after compose_env = [AcceptReturns (Inr node2)]" "env_finish compose_env = [1, 0]"
    "\<And>p k. env_os compose_env p k = kind_os" "\<And>hs. http_listen compose_env hs = Serves"
    "\<And>hs. http_listen (compose_env\<lparr>env_after := []\<rparr>) hs = Serves"
    by (auto simp: compose_env_def http_listen_def)
  show ?thesis
    by (simp add: compose_launches_def launch_ok_def args env undisturbed_def kind_grants)
       (auto simp: compose_command_def compose_flags_def default_flags_def)
qed

end
