(* ===== verification/Filters.thy ===== *)
theory Filters
  imports Httputil
begin

text \<open>
  The rest of \<open>httprest/httputil/mux.go\<close>: the filters of a multiplexer with the \<open>responseWriter\<close> that
  watches them, the handler for paths that are not found, and the default multiplexer. The
  program registers neither filters nor a handler of its own for missing paths; with none,
  \<open>ServeHTTP\<close> is what theory \<open>Httputil\<close> says.
\<close>

section \<open>Writing a response\<close>

datatype write_op = WriteHeader int | WriteBody string

text \<open>
  The \<open>http.ResponseWriter\<close> of the server: the first status counts, and a body without one is
  sent with status 200.
\<close>

record writer =
  sent_status :: "int option"
  sent_body :: string

definition fresh_writer :: writer where
  "fresh_writer = \<lparr>sent_status = None, sent_body = []\<rparr>"

fun writer_op :: "write_op \<Rightarrow> writer \<Rightarrow> writer" where
  "writer_op (WriteHeader code) w =
     (case sent_status w of None \<Rightarrow> w\<lparr>sent_status := Some code\<rparr> | Some _ \<Rightarrow> w)"
| "writer_op (WriteBody s) w =
     w\<lparr>sent_status := Some (case sent_status w of None \<Rightarrow> 200 | Some code \<Rightarrow> code), sent_body := sent_body w @ s\<rparr>"

text \<open>\<open>responseWriter\<close>: only \<open>WriteHeader\<close> is its own method, \<open>Write\<close> is that of the writer inside.\<close>

record response_writer =
  inner :: writer
  wrote_header :: bool

fun response_writer_op :: "write_op \<Rightarrow> response_writer \<Rightarrow> response_writer" where
  "response_writer_op (WriteHeader code) w = w\<lparr>inner := writer_op (WriteHeader code) (inner w), wrote_header := True\<rparr>"
| "response_writer_op (WriteBody s) w = w\<lparr>inner := writer_op (WriteBody s) (inner w)\<rparr>"

section \<open>The multiplexer with filters\<close>

text \<open>A handler writes a response, and may change the request it has a pointer to.\<close>

type_synonym handler = "http_request \<Rightarrow> http_request \<times> write_op list"

record filter_mux =
  mux_entries :: "handler serve_mux"
  mux_filters :: "handler list"
  mux_not_found :: "handler option"

definition new_filter_mux :: filter_mux where
  "new_filter_mux = \<lparr>mux_entries = new_serve_mux, mux_filters = [], mux_not_found = None\<rparr>"

definition handle_filter :: "handler \<Rightarrow> filter_mux \<Rightarrow> filter_mux" where
  "handle_filter h mux = mux\<lparr>mux_filters := mux_filters mux @ [h]\<rparr>"

text \<open>\<open>Handle\<close> fails when the pattern does not compile; the default multiplexer panics then.\<close>

definition filter_mux_handle ::
    "(string \<Rightarrow> string option) \<Rightarrow> string \<Rightarrow> string \<Rightarrow> handler \<Rightarrow> filter_mux \<Rightarrow> string + filter_mux" where
  "filter_mux_handle compile_error method pattern h mux =
     (case compile_error pattern of
        Some err \<Rightarrow> Inl err
      | None \<Rightarrow> Inr (mux\<lparr>mux_entries := mux_handle method pattern h (mux_entries mux)\<rparr>))"

definition default_handle ::
    "(string \<Rightarrow> string option) \<Rightarrow> string \<Rightarrow> string \<Rightarrow> handler \<Rightarrow> filter_mux \<Rightarrow> filter_mux res" where
  "default_handle compile_error method pattern h default_mux =
     (case filter_mux_handle compile_error method pattern h default_mux of
        Inl err \<Rightarrow> Inl (PanicText err)
      | Inr mux \<Rightarrow> Inr mux)"

text \<open>The filters in their order, up to the first after which a header is written.\<close>

fun run_filters :: "handler list \<Rightarrow> http_request \<Rightarrow> response_writer \<Rightarrow> http_request \<times> response_writer \<times> bool" where
  "run_filters [] r w = (r, w, False)"
| "run_filters (f # fs) r w =
     (let (r, ops) = f r; w = fold response_writer_op ops w
      in if wrote_header w then (r, w, True) else run_filters fs r w)"

text \<open>\<open>http.Error\<close>\<close>

definition http_error :: "string \<Rightarrow> int \<Rightarrow> write_op list" where
  "http_error t code = [WriteHeader code, WriteBody (t @ [CHR 0x0A])]"

text \<open>\<open>ServeHTTP\<close>; the handler writes to the writer inside.\<close>

definition mux_answer :: "filter_mux \<Rightarrow> http_request \<Rightarrow> write_op list" where
  "mux_answer mux r =
     (case serve_mux (mux_entries mux) r of
        NotAllowed \<Rightarrow> http_error ''method not allowed'' 405
      | NotFound \<Rightarrow>
          (case mux_not_found mux of
             Some h \<Rightarrow> snd (h r)
           | None \<Rightarrow> http_error ''page not found'' 404)
      | Dispatch h r' \<Rightarrow> snd (h r'))"

definition serve_http :: "filter_mux \<Rightarrow> http_request \<Rightarrow> writer \<Rightarrow> writer" where
  "serve_http mux r rw =
     (let (r, w, done) = run_filters (mux_filters mux) r \<lparr>inner = rw, wrote_header = False\<rparr>
      in if done then inner w else fold writer_op (mux_answer mux r) (inner w))"

section \<open>Filters that write no header\<close>

definition no_header :: "write_op list \<Rightarrow> bool" where
  "no_header ops \<longleftrightarrow> list_all (\<lambda>x. case x of WriteHeader _ \<Rightarrow> False | WriteBody _ \<Rightarrow> True) ops"

lemma response_writer_fold:
  "inner (fold response_writer_op ops w) = fold writer_op ops (inner w) \<and>
   wrote_header (fold response_writer_op ops w) = (wrote_header w \<or> \<not> no_header ops)"
proof (induction ops arbitrary: w)
  case (Cons x ops)
  then show ?case by (cases x) (simp_all add: no_header_def)
qed (simp add: no_header_def)

text \<open>What a sequence of filters writes, and the request they leave, when all of them run.\<close>

fun through :: "handler list \<Rightarrow> http_request \<Rightarrow> http_request \<times> write_op list" where
  "through [] r = (r, [])"
| "through (f # fs) r = (let (r, ops) = f r; (r, ops') = through fs r in (r, ops @ ops'))"

lemma run_filters_quiet:
  "no_header (snd (through fs r)) \<Longrightarrow> \<not> wrote_header w \<Longrightarrow>
     run_filters (fs @ gs) r w =
       run_filters gs (fst (through fs r)) (w\<lparr>inner := fold writer_op (snd (through fs r)) (inner w)\<rparr>)"
proof (induction fs arbitrary: r w)
  case (Cons f fs)
  obtain r1 ops where f: "f r = (r1, ops)" by (cases "f r")
  obtain r2 ops2 where rest: "through fs r1 = (r2, ops2)" by (cases "through fs r1")
  from Cons.prems f rest have q: "no_header ops" "no_header ops2" by (simp_all add: no_header_def)
  have w: "fold response_writer_op ops w = w\<lparr>inner := fold writer_op ops (inner w)\<rparr>"
    using response_writer_fold [of ops w] q(1) Cons.prems(2) by (intro response_writer.equality) simp_all
  with Cons.IH [of r1 "w\<lparr>inner := fold writer_op ops (inner w)\<rparr>"] q(2) Cons.prems(2) f rest show ?case by simp
qed simp

lemma status_stays: "sent_status w = Some code \<Longrightarrow> sent_status (fold writer_op ops w) = Some code"
proof (induction ops arbitrary: w)
  case (Cons x ops)
  then show ?case by (cases x) simp_all
qed simp

section \<open>Properties\<close>

text \<open>The first filter that writes a header has the last word: what was written up to and by it is the
  response, and neither later filters nor any handler is called.\<close>

theorem filters_gate:
  assumes "mux_filters mux = fs @ f # gs" and "no_header (snd (through fs r))"
    and "\<not> no_header (snd (f (fst (through fs r))))"
  shows "serve_http mux r w = fold writer_op (snd (through fs r) @ snd (f (fst (through fs r)))) w"
proof -
  obtain r1 ops where f: "f (fst (through fs r)) = (r1, ops)" by (cases "f (fst (through fs r))")
  let ?w = "\<lparr>inner = fold writer_op (snd (through fs r)) w, wrote_header = False\<rparr>"
  have "run_filters (mux_filters mux) r \<lparr>inner = w, wrote_header = False\<rparr> =
      run_filters (f # gs) (fst (through fs r)) ?w"
    unfolding assms(1) by (subst run_filters_quiet [OF assms(2)]) simp_all
  moreover have "wrote_header (fold response_writer_op ops ?w)"
    using response_writer_fold [of ops ?w] assms(3) f by simp
  ultimately show ?thesis
    using response_writer_fold [of ops ?w] f by (simp add: serve_http_def)
qed

text \<open>Filters that write no header let the request through, even when one of them has written a body:
  the answer of the multiplexer follows what they have written, and its status is lost, since the
  body has gone out with status 200.\<close>

theorem filters_pass:
  assumes "no_header (snd (through (mux_filters mux) r))"
  shows "serve_http mux r w =
      fold writer_op (snd (through (mux_filters mux) r) @ mux_answer mux (fst (through (mux_filters mux) r))) w \<and>
    (snd (through (mux_filters mux) r) \<noteq> [] \<longrightarrow> sent_status (serve_http mux r fresh_writer) = Some 200)"
proof -
  have all: "serve_http mux r w =
      fold writer_op (snd (through (mux_filters mux) r) @ mux_answer mux (fst (through (mux_filters mux) r))) w" for w
    using run_filters_quiet [OF assms, of "\<lparr>inner = w, wrote_header = False\<rparr>" "[]"]
    by (simp add: serve_http_def)
  moreover have "sent_status (serve_http mux r fresh_writer) = Some 200"
    if first: "snd (through (mux_filters mux) r) = x # ops" for x ops
  proof -
    obtain s where "x = WriteBody s" using assms first by (cases x) (simp_all add: no_header_def)
    with all [of fresh_writer] first show ?thesis by (simp add: status_stays fresh_writer_def)
  qed
  ultimately show ?thesis by (cases "snd (through (mux_filters mux) r)") auto
qed

text \<open>A filter that greets, and one that refuses requests without the header \<open>Accept\<close>, before a multiplexer
  without routes.\<close>

definition greeter :: handler where
  "greeter r = (r, [WriteBody ''hello''])"

definition refuser :: handler where
  "refuser r = (r, if haccept r = [] then [WriteHeader 406, WriteBody ''no''] else [])"

definition filtered_mux :: filter_mux where
  "filtered_mux = handle_filter refuser (handle_filter greeter new_filter_mux)"

abbreviation bare_request :: "string \<Rightarrow> http_request" where
  "bare_request accept \<equiv> \<lparr>hmethod = ''GET'', hpath = ''/v1/keys'', hquery = [], hcontent_type = [], haccept = accept, hbody = Inl ''EOF''\<rparr>"

lemmas filtered_defs = filtered_mux_def handle_filter_def new_filter_mux_def new_serve_mux_def greeter_def
  refuser_def no_header_def

theorem filters_gate_witness:
  "serve_http filtered_mux (bare_request []) fresh_writer = \<lparr>sent_status = Some 200, sent_body = ''hellono''\<rparr>"
  using filters_gate [of filtered_mux "[greeter]" refuser "[]" "bare_request []" fresh_writer]
  by (simp add: filtered_defs fresh_writer_def)

theorem filters_pass_witness:
  "serve_http filtered_mux (bare_request ''*/*'') fresh_writer =
     \<lparr>sent_status = Some 200, sent_body = ''hellomethod not allowed'' @ [CHR 0x0A]\<rparr>"
  using filters_pass [of filtered_mux "bare_request ''*/*''" fresh_writer]
  by (simp add: filtered_defs fresh_writer_def mux_answer_def serve_mux_def http_error_def)

end
