(* ===== verification/Framing.thy ===== *)
theory Framing
  imports Wire
begin

text \<open>
  The messages of \<open>server/server.go\<close> on the bytes of a connection (\<open>writeWire\<close>, \<open>readWire\<close>). Every
  call of \<open>readWire\<close> makes a new decoder, which reads as much as the connection gives at once; what it
  has read beyond the end of its message is lost with it. Messages that alternate survive this,
  whatever the pieces in which they arrive; messages sent one after the other do not. That they
  alternate is the invariant of theory \<open>Link_Inv\<close>: a connection carries one message at a time.
\<close>

section \<open>The text of a value\<close>

definition quote_char :: char where "quote_char = CHR 0x22"
definition backslash :: char where "backslash = CHR 0x5C"

definition low_hex :: "nat \<Rightarrow> char" where
  "low_hex n = (if n < 10 then char_of (48 + n) else char_of (87 + n))"

text \<open>\<open>encodeState.string\<close> on one byte of a string in UTF-8; control characters and those of HTML are escaped.\<close>

definition escape_byte :: "char \<Rightarrow> string" where
  "escape_byte c =
     (if c = quote_char \<or> c = backslash then [backslash, c]
      else if c = CHR 0x0A then [backslash, CHR ''n'']
      else if c = CHR 0x0D then [backslash, CHR ''r'']
      else if c = CHR 0x09 then [backslash, CHR ''t'']
      else if byte_of c < 0x20 \<or> c \<in> set ''<>&'' then
        backslash # ''u00'' @ [low_hex (byte_of c div 16), low_hex (byte_of c mod 16)]
      else [c])"

text \<open>The separators U+2028 and U+2029 are escaped as well.\<close>

definition line_separator :: "string \<Rightarrow> bool" where
  "line_separator s \<longleftrightarrow> 3 \<le> length s \<and> byte_of (s ! 0) = 0xE2 \<and> byte_of (s ! 1) = 0x80 \<and>
     (byte_of (s ! 2) = 0xA8 \<or> byte_of (s ! 2) = 0xA9)"

function escape_text :: "string \<Rightarrow> string" where
  "escape_text [] = []"
| "escape_text (c # s) =
     (if line_separator (c # s) then
        backslash # ''u202'' @ [low_hex (byte_of (s ! 1) mod 16)] @ escape_text (drop 2 s)
      else escape_byte c @ escape_text s)"
  by pat_completeness auto
termination
  by (relation "measure length") auto

declare escape_text.simps(2) [simp del]

fun json_text :: "(64 word \<Rightarrow> string) \<Rightarrow> json \<Rightarrow> string" where
  "json_text ft JNull = ''null''"
| "json_text ft (JBool b) = (if b then ''true'' else ''false'')"
| "json_text ft (JInt i) = int_text i"
| "json_text ft (JFloat f) = ft f"
| "json_text ft (JStr s) = quote_char # escape_text s @ [quote_char]"
| "json_text ft (JArr vs) = ''['' @ join_text '','' (map (json_text ft) vs) @ '']''"
| "json_text ft (JObj kvs) =
     ''{'' @ join_text '','' (map (\<lambda>(k, v). quote_char # escape_text k @ quote_char # '':'' @ json_text ft v) kvs) @ ''}''"

definition object_text :: "(64 word \<Rightarrow> string) \<Rightarrow> (string \<times> json) list \<Rightarrow> string" where
  "object_text ft kvs = json_text ft (JObj kvs)"

section \<open>Where a value ends\<close>

text \<open>
  The scanner of the decoder on a well-formed object: \<open>d\<close> counts the open braces and brackets, \<open>q\<close>
  says whether it is inside a string and \<open>e\<close> whether behind a backslash there. A byte leads to
  another state or ends the value.
\<close>

definition scan_step :: "nat \<Rightarrow> bool \<Rightarrow> bool \<Rightarrow> char \<Rightarrow> (nat \<times> bool \<times> bool) option" where
  "scan_step d q e c =
     (if q then
        Some (if e then (d, True, False)
              else if c = backslash then (d, True, True)
              else (d, c \<noteq> quote_char, False))
      else if c = quote_char then Some (d, True, False)
      else if c \<in> set ''{['' then Some (Suc d, False, False)
      else if c \<in> set ''}]'' then (if d \<le> 1 then None else Some (d - 1, False, False))
      else Some (d, False, False))"

text \<open>The value and what follows it.\<close>

fun scan_value :: "nat \<Rightarrow> bool \<Rightarrow> bool \<Rightarrow> string \<Rightarrow> (string \<times> string) option" where
  "scan_value d q e [] = None"
| "scan_value d q e (c # s) =
     (case scan_step d q e c of
        None \<Rightarrow> Some ([c], s)
      | Some (d', q', e') \<Rightarrow> map_option (apfst (Cons c)) (scan_value d' q' e' s))"

definition json_blank :: "char \<Rightarrow> bool" where
  "json_blank c \<longleftrightarrow> c = CHR '' '' \<or> c = CHR 0x09 \<or> c = CHR 0x0A \<or> c = CHR 0x0D"

definition first_value :: "string \<Rightarrow> (string \<times> string) option" where
  "first_value buf = scan_value 0 False False (dropWhile json_blank buf)"

section \<open>Reading and writing\<close>

text \<open>\<open>Encoder.Encode\<close> ends the value with a newline.\<close>

definition write_wire :: "string \<Rightarrow> string" where
  "write_wire t = t @ [CHR 0x0A]"

text \<open>
  \<open>Decoder.Decode\<close> of a new decoder: it reads until its buffer holds a value. \<open>sizes\<close> are the
  numbers of bytes the reads of the connection return (at least one, at most what has arrived),
  \<open>None\<close> is a reader that waits. The rest of the buffer is dropped with the decoder.
\<close>

fun read_wire :: "nat list \<Rightarrow> string \<Rightarrow> string \<Rightarrow> (string \<times> string) option" where
  "read_wire sizes buf arrived =
     (case first_value buf of
        Some (t, rest) \<Rightarrow> Some (t, arrived)
      | None \<Rightarrow>
          (case sizes of
             [] \<Rightarrow> None
           | n # sizes' \<Rightarrow>
               if arrived = [] then None
               else read_wire sizes' (buf @ take (Suc n) arrived) (drop (Suc n) arrived)))"

declare read_wire.simps [simp del]

section \<open>Texts the scanner finds the end of\<close>

text \<open>The scanner goes over \<open>s\<close> from one state to another.\<close>

definition passes :: "nat \<Rightarrow> bool \<Rightarrow> bool \<Rightarrow> string \<Rightarrow> nat \<Rightarrow> bool \<Rightarrow> bool \<Rightarrow> bool" where
  "passes d q e s d' q' e' \<longleftrightarrow>
     (\<forall>x. scan_value d q e (s @ x) = map_option (apfst (append s)) (scan_value d' q' e' x))"

lemma passes_Nil [simp]: "passes d q e [] d q e"
proof -
  have "apfst (append []) = (id :: string \<times> string \<Rightarrow> string \<times> string)" by (auto simp: fun_eq_iff)
  then show ?thesis by (simp add: passes_def option.map_id)
qed

lemma prefix_append:
  "map_option (apfst (append (s @ t))) r = map_option (apfst (append s)) (map_option (apfst (append t)) r)"
  by (cases r) auto

lemma passes_append:
  "passes d q e s d1 q1 e1 \<Longrightarrow> passes d1 q1 e1 t d2 q2 e2 \<Longrightarrow> passes d q e (s @ t) d2 q2 e2"
  by (simp add: passes_def prefix_append)

lemma passes_Cons:
  "passes d q e [c] d1 q1 e1 \<Longrightarrow> passes d1 q1 e1 t d2 q2 e2 \<Longrightarrow> passes d q e (c # t) d2 q2 e2"
  using passes_append [of d q e "[c]" d1 q1 e1 t d2 q2 e2] by simp

definition inert :: "char \<Rightarrow> bool" where
  "inert c \<longleftrightarrow> c \<noteq> quote_char \<and> c \<notin> set ''{}[]''"

lemma apfst_Cons: "apfst (append [c]) = apfst (Cons c)"
  by (simp add: fun_eq_iff)

lemma passes_one:
  "inert c \<Longrightarrow> passes d False False [c] d False False"
  "passes d False False [quote_char] d True False"
  "c \<noteq> quote_char \<Longrightarrow> c \<noteq> backslash \<Longrightarrow> passes d True False [c] d True False"
  "passes d True False [quote_char] d False False"
  "passes d True False [backslash] d True True"
  "passes d True True [c] d True False"
  "c \<in> set ''{['' \<Longrightarrow> passes d False False [c] (Suc d) False False"
  "c \<in> set ''}]'' \<Longrightarrow> 1 < d \<Longrightarrow> passes d False False [c] (d - 1) False False"
  by (auto simp: passes_def scan_step_def inert_def apfst_Cons quote_char_def backslash_def)

lemma passes_inert: "list_all inert s \<Longrightarrow> passes d False False s d False False"
  by (induction s) (auto intro: passes_Cons passes_one)

lemma char_of_eq: "n < 256 \<Longrightarrow> char_of n = c \<longleftrightarrow> n = byte_of c"
  by auto

lemma low_hex_plain: "n < 16 \<Longrightarrow> low_hex n \<noteq> quote_char \<and> low_hex n \<noteq> backslash"
  by (simp add: low_hex_def quote_char_def backslash_def char_of_eq)

text \<open>Bytes that are shown as they are.\<close>

definition plain_byte :: "char \<Rightarrow> bool" where
  "plain_byte c \<longleftrightarrow> 0x20 \<le> byte_of c \<and> byte_of c < 0x80 \<and> c \<noteq> quote_char \<and> c \<noteq> backslash \<and> c \<notin> set ''<>&''"

lemma escape_text_plain: "list_all plain_byte s \<Longrightarrow> escape_text s = s"
proof (induction s rule: escape_text.induct)
  case (2 c s)
  have "\<not> line_separator (c # s)" using "2.prems" by (simp add: plain_byte_def line_separator_def)
  moreover have "escape_byte c = [c]" using "2.prems" by (auto simp: plain_byte_def escape_byte_def)
  ultimately show ?case using 2 by (simp add: escape_text.simps(2))
qed simp

lemma passes_escape_byte: "passes d True False (escape_byte c) d True False"
proof -
  have "byte_of c div 16 < 16" by (rule less_mult_imp_div_less) simp
  with low_hex_plain have digits: "passes d True False [low_hex (byte_of c div 16), low_hex (byte_of c mod 16)] d True False"
    by (intro passes_Cons [OF passes_one(3)] passes_one(3)) simp_all
  have plain: "CHR ''u'' \<noteq> quote_char" "CHR ''u'' \<noteq> backslash" "CHR ''0'' \<noteq> quote_char" "CHR ''0'' \<noteq> backslash"
    by (simp_all add: quote_char_def backslash_def)
  have "passes d True False (''00'' @ [low_hex (byte_of c div 16), low_hex (byte_of c mod 16)]) d True False"
    using digits plain by (auto intro!: passes_Cons [OF passes_one(3)])
  then have "passes d True False (backslash # ''u00'' @ [low_hex (byte_of c div 16), low_hex (byte_of c mod 16)]) d True False"
    by (auto intro!: passes_Cons [OF passes_one(5)] passes_Cons [OF passes_one(6)])
  then show ?thesis
    by (auto simp: escape_byte_def intro!: passes_Cons [OF passes_one(5)] passes_one(3,6))
qed

lemma passes_escape_text: "passes d True False (escape_text s) d True False"
proof (induction s rule: escape_text.induct)
  case (2 c s)
  show ?case
  proof (cases "line_separator (c # s)")
    case True
    have "passes d True False (''202'' @ low_hex (byte_of (s ! 1) mod 16) # escape_text (drop 2 s)) d True False"
      using 2(1) [OF True] low_hex_plain [of "byte_of (s ! 1) mod 16"]
      by (auto intro!: passes_Cons [OF passes_one(3)] simp: quote_char_def backslash_def)
    then show ?thesis
      using True by (auto simp: escape_text.simps(2) intro!: passes_Cons [OF passes_one(5)] passes_Cons [OF passes_one(6)])
  next
    case False
    with 2(2) show ?thesis by (auto simp: escape_text.simps(2) intro: passes_append passes_escape_byte)
  qed
qed simp

lemma passes_string: "passes d False False (quote_char # escape_text s @ [quote_char]) d False False"
  by (intro passes_Cons [OF passes_one(2)] passes_append [OF passes_escape_text] passes_one)

lemma inert_digit: "d < 10 \<Longrightarrow> inert (digit d)"
  by (simp add: inert_def quote_char_def digit_def char_of_eq)

lemma inert_nat_text: "list_all inert (nat_text n)"
proof (induction n rule: nat_text.induct)
  case (1 n)
  then show ?case by (cases "n < 10") (simp_all add: nat_text.simps [of n] inert_digit)
qed

lemma inert_int_text: "list_all inert (int_text i)"
  using inert_nat_text by (simp add: int_text_def inert_def quote_char_def)

lemma passes_join:
  "(\<And>s. s \<in> set ss \<Longrightarrow> passes d False False s d False False) \<Longrightarrow>
     passes d False False (join_text '','' ss) d False False"
proof (induction "'','' :: string" ss rule: join_text.induct)
  case (3 x y xs)
  have "inert (CHR '','')" by (simp add: inert_def quote_char_def)
  with 3 show ?case by (auto intro!: passes_append passes_Cons [OF passes_one(1)])
qed simp_all

lemma passes_json_text:
  assumes "\<And>f. list_all inert (ft f)"
  shows "1 \<le> d \<Longrightarrow> passes d False False (json_text ft v) d False False"
proof (induction v arbitrary: d)
  case (JArr vs)
  have "passes (Suc d) False False (join_text '','' (map (json_text ft) vs)) (Suc d) False False"
    using JArr by (intro passes_join) auto
  with JArr.prems show ?case
    using passes_one(8) [of "CHR '']''" "Suc d"]
    by (auto intro!: passes_Cons [OF passes_one(7)] passes_append)
next
  case (JObj kvs)
  have "passes (Suc d) False False (quote_char # escape_text k @ quote_char # '':'' @ json_text ft v) (Suc d) False False"
    if "(k, v) \<in> set kvs" for k v
  proof -
    have "passes (Suc d) False False (json_text ft v) (Suc d) False False"
      using JObj.IH [OF that, of v "Suc d"] by simp
    moreover have "inert (CHR '':'')" by (simp add: inert_def quote_char_def)
    ultimately show ?thesis
      by (auto intro!: passes_Cons [OF passes_one(2)] passes_append [OF passes_escape_text]
          passes_Cons [OF passes_one(4)] passes_Cons [OF passes_one(1)])
  qed
  then have "passes (Suc d) False False (join_text '','' (map (\<lambda>(k, v). quote_char # escape_text k @ quote_char # '':'' @ json_text ft v) kvs))
      (Suc d) False False"
    by (intro passes_join) auto
  with JObj.prems show ?case
    using passes_one(8) [of "CHR ''}''" "Suc d"]
    by (auto intro!: passes_Cons [OF passes_one(7)] passes_append)
next
  case (JStr s)
  show ?case by (simp add: passes_string)
next
  case (JFloat f)
  show ?case by (simp add: passes_inert assms)
next
  case (JInt i)
  show ?case by (simp add: passes_inert inert_int_text)
qed (simp_all add: passes_inert inert_def quote_char_def)

text \<open>A text that is one object and nothing more.\<close>

definition framed :: "string \<Rightarrow> bool" where
  "framed t \<longleftrightarrow> t \<noteq> [] \<and> \<not> json_blank (hd t) \<and> scan_value 0 False False t = Some (t, [])"

lemma framed_object:
  assumes "\<And>f. list_all inert (ft f)"
  shows "framed (object_text ft kvs)"
proof -
  let ?body = "join_text '','' (map (\<lambda>(k, v). quote_char # escape_text k @ quote_char # '':'' @ json_text ft v) kvs)"
  have "passes 1 False False (quote_char # escape_text k @ quote_char # '':'' @ json_text ft v) 1 False False" for k v
  proof -
    have "inert (CHR '':'')" by (simp add: inert_def quote_char_def)
    then show ?thesis
      by (auto intro!: passes_Cons [OF passes_one(2)] passes_append [OF passes_escape_text]
          passes_Cons [OF passes_one(4)] passes_Cons [OF passes_one(1)] passes_json_text assms)
  qed
  then have "passes 1 False False ?body 1 False False" by (intro passes_join) auto
  then have "passes 0 False False (CHR ''{'' # ?body) 1 False False"
    using passes_one(7) [of "CHR ''{''" 0] by (auto intro: passes_Cons)
  then have "scan_value 0 False False ((CHR ''{'' # ?body) @ ''}'') = Some ((CHR ''{'' # ?body) @ ''}'', [])"
    unfolding passes_def by (simp add: scan_step_def quote_char_def)
  then show ?thesis by (simp add: framed_def json_blank_def object_text_def)
qed

text \<open>The scanner does not look past the end of the value, and needs all of it.\<close>

lemma prefixed_Some: "map_option (apfst (Cons c)) r = Some (t, u) \<longleftrightarrow> (\<exists>t'. r = Some (t', u) \<and> t = c # t')"
  by (cases r) auto

lemma scan_value_append: "scan_value d q e s = Some (t, r) \<Longrightarrow> scan_value d q e (s @ x) = Some (t, r @ x)"
proof (induction s arbitrary: d q e t)
  case (Cons c s)
  show ?case
  proof (cases "scan_step d q e c")
    case None
    with Cons.prems show ?thesis by auto
  next
    case (Some p)
    obtain d' q' e' where "p = (d', q', e')" by (cases p)
    with Some Cons.prems Cons.IH show ?thesis by (auto simp: prefixed_Some)
  qed
qed simp

lemma scan_value_prefix:
  assumes "scan_value d q e t = Some (t, [])" and "n < length t"
  shows "scan_value d q e (take n t) = None"
proof (rule ccontr)
  assume "scan_value d q e (take n t) \<noteq> None"
  then obtain u r where "scan_value d q e (take n t) = Some (u, r)" by auto
  from scan_value_append [OF this, of "drop n t"] assms(1) have "drop n t = []" by auto
  with assms(2) show False by simp
qed

lemma dropWhile_blank:
  assumes "list_all json_blank w" and "t \<noteq> []" and "\<not> json_blank (hd t)"
  shows "dropWhile json_blank (w @ t @ x) = t @ x"
  using assms by (induction w) (cases t; simp)+

lemma first_value_partial:
  assumes w: "list_all json_blank w" and t: "framed t" and n: "n < length w + length t"
  shows "first_value (take n (w @ t @ x)) = None"
proof (cases "n \<le> length w")
  case True
  then have "take n (w @ t @ x) = take n w" by simp
  moreover have "dropWhile json_blank (take n w) = []" using w by (auto simp: list_all_iff dest: in_set_takeD)
  ultimately have "dropWhile json_blank (take n (w @ t @ x)) = []" by (simp only:)
  then show ?thesis by (simp only: first_value_def scan_value.simps(1))
next
  case False
  then have eq: "take n (w @ t @ x) = w @ take (n - length w) t @ []" using n by simp
  have "take (n - length w) t \<noteq> []" "hd (take (n - length w) t) = hd t"
    using n t False by (auto simp: framed_def hd_conv_nth)
  with dropWhile_blank [OF w, of "take (n - length w) t" "[]"] t
  have "dropWhile json_blank (take n (w @ t @ x)) = take (n - length w) t" unfolding eq by (simp add: framed_def)
  then show ?thesis
    using scan_value_prefix [of 0 False False t "n - length w"] t n False by (simp add: first_value_def framed_def)
qed

lemma first_value_whole:
  "list_all json_blank w \<Longrightarrow> framed t \<Longrightarrow> first_value (w @ t @ x) = Some (t, x)"
  using dropWhile_blank [of w t x] scan_value_append [of 0 False False t t "[]" x]
  by (simp add: first_value_def framed_def)

lemma read_wire_first:
  assumes w: "list_all json_blank w" and t: "framed t"
    and "buf @ arrived = w @ t @ x" and "length buf \<le> length w + length t"
    and "length w + length t - length buf \<le> length sizes"
  shows "\<exists>m. read_wire sizes buf arrived = Some (t, drop m x)"
  using assms(3-5)
proof (induction sizes arbitrary: buf arrived)
  case Nil
  then have "length buf = length (w @ t)" by simp
  then have "buf = w @ t" "arrived = x" using Nil.prems(1) by (simp_all add: append_eq_append_conv flip: append_assoc)
  with first_value_whole [OF w t, of "[]"] show ?case
    by (intro exI [of _ 0]) (simp add: read_wire.simps)
next
  case (Cons n sizes)
  show ?case
  proof (cases "length buf = length (w @ t)")
    case True
    then have "buf = w @ t" "arrived = x" using Cons.prems(1) by (simp_all add: append_eq_append_conv flip: append_assoc)
    with first_value_whole [OF w t, of "[]"] show ?thesis
      by (intro exI [of _ 0]) (simp add: read_wire.simps)
  next
    case False
    have lt: "length buf < length w + length t" using False Cons.prems(2) by simp
    have "buf = take (length buf) (w @ t @ x)" using arg_cong [OF Cons.prems(1), of "take (length buf)"] by simp
    with first_value_partial [OF w t lt, of x] have none: "first_value buf = None" by simp
    have ne: "arrived \<noteq> []" using arg_cong [OF Cons.prems(1), of length] lt by auto
    let ?buf = "buf @ take (Suc n) arrived" and ?arr = "drop (Suc n) arrived"
    have step: "read_wire (n # sizes) buf arrived = read_wire sizes ?buf ?arr"
      using none ne by (simp add: read_wire.simps [of "n # sizes"])
    show ?thesis
    proof (cases "length ?buf \<le> length w + length t")
      case True
      have "length buf < length ?buf" using ne by simp
      with Cons.prems(3) have "length w + length t - length ?buf \<le> length sizes"
        by (simp only: length_Cons)
      from Cons.IH [OF _ True this] Cons.prems(1) show ?thesis unfolding step by simp
    next
      case False
      define k where "k = length ?buf - (length w + length t)"
      have all: "?buf @ ?arr = w @ t @ x" using Cons.prems(1) by simp
      then have "?buf = take (length ?buf) (w @ t @ x)" and arr: "?arr = drop (length ?buf) (w @ t @ x)"
        by (metis append_eq_conv_conj)+
      moreover have "take (length ?buf) (w @ t @ x) = w @ t @ take k x" using False by (simp add: k_def)
      ultimately have "?buf = w @ t @ take k x" by (simp only:)
      then have "first_value ?buf = Some (t, take k x)" by (simp only: first_value_whole [OF w t])
      moreover have "?arr = drop k x" unfolding arr using False by (simp add: k_def)
      ultimately show ?thesis unfolding step by (intro exI [of _ k]) (simp add: read_wire.simps)
    qed
  qed
qed

section \<open>Conversations\<close>

text \<open>
  Messages that go one way on a connection, each written when the one before has been read (the
  writer waits for the answer), with the sizes of the reads of each. The state is what has
  arrived and was not read.
\<close>

fun one_by_one :: "(nat list \<times> string) list \<Rightarrow> string \<Rightarrow> (string list \<times> string) option" where
  "one_by_one [] arrived = Some ([], arrived)"
| "one_by_one ((sizes, t) # ms) arrived =
     (case read_wire sizes [] (arrived @ write_wire t) of
        None \<Rightarrow> None
      | Some (u, rest) \<Rightarrow> map_option (apfst (Cons u)) (one_by_one ms rest))"

text \<open>Reads enough for the message, whatever they bring.\<close>

definition enough_reads :: "nat list \<times> string \<Rightarrow> bool" where
  "enough_reads m \<longleftrightarrow> length (snd m) + 2 \<le> length (fst m)"

lemma one_by_one_read:
  "list_all (\<lambda>m. framed (snd m) \<and> enough_reads m) ms \<Longrightarrow> arrived \<in> {[], [CHR 0x0A]} \<Longrightarrow>
     \<exists>rest. one_by_one ms arrived = Some (map snd ms, rest)"
proof (induction ms arbitrary: arrived)
  case (Cons m ms)
  obtain sizes t where m: "m = (sizes, t)" by (cases m)
  with Cons.prems have t: "framed t" and n: "length t + 2 \<le> length sizes" by (simp_all add: enough_reads_def)
  have "list_all json_blank arrived" "length arrived \<le> 1" using Cons.prems(2) by (auto simp: json_blank_def)
  with read_wire_first [OF _ t, of arrived "[]" "arrived @ write_wire t" "[CHR 0x0A]" sizes] n
  obtain k where read: "read_wire sizes [] (arrived @ write_wire t) = Some (t, drop k [CHR 0x0A])"
    by (auto simp: write_wire_def)
  have "drop k [CHR 0x0A] \<in> {[], [CHR 0x0A]}" by (cases k) simp_all
  with Cons read m show ?case by fastforce
qed simp

text \<open>C19. Messages between two nodes arrive one by one as the texts that were written, however the
  connection cuts them into pieces and although every decoder drops what it has read too much,
  since each is written only after the one before was read.\<close>

theorem wire_conversation:
  assumes "\<And>f. list_all inert (ft f)" and "list_all enough_reads (zip sizess (map (object_text ft) objs))"
    and "length sizess = length objs"
  shows "\<exists>rest. one_by_one (zip sizess (map (object_text ft) objs)) [] =
     Some (map (object_text ft) objs, rest)"
proof -
  let ?ms = "zip sizess (map (object_text ft) objs)"
  have "framed (snd m)" if "m \<in> set ?ms" for m
  proof -
    obtain a b where m: "m = (a, b)" by (cases m)
    then have "b \<in> set (map (object_text ft) objs)" using that by (auto dest: set_zip_rightD)
    with framed_object [of ft, OF assms(1)] show ?thesis by (auto simp: m)
  qed
  with assms(2) have "list_all (\<lambda>m. framed (snd m) \<and> enough_reads m) ?ms" by (simp add: list_all_iff)
  from one_by_one_read [OF this, of "[]"] assms(3) show ?thesis by simp
qed

text \<open>Two messages that arrive together: the second is gone with the decoder of the first.\<close>

theorem wire_pipelining_loses:
  assumes "framed t" and "framed u" and "length (write_wire t @ write_wire u) \<le> Suc n"
  shows "read_wire (n # sizes) [] (write_wire t @ write_wire u) = Some (t, [])"
proof -
  have "first_value [] = None" by (simp add: first_value_def)
  moreover have "first_value (write_wire t @ write_wire u) = Some (t, CHR 0x0A # write_wire u)"
    using first_value_whole [OF _ assms(1), of "[]" "CHR 0x0A # write_wire u"] by (simp add: write_wire_def)
  moreover have "write_wire t \<noteq> []" by (simp add: write_wire_def)
  ultimately show ?thesis
    using assms(3) by (simp add: read_wire.simps [of "n # sizes"] read_wire.simps [of sizes])
qed

text \<open>A float is shown by a digit here. The messages are a request for keys and its event.\<close>

definition some_objects :: "(string \<times> json) list list" where
  "some_objects = [[(''ID'', JStr ''1'')], [(''Action'', JStr ''keys''), (''Request'', JObj [(''ID'', JStr ''1'')])]]"

theorem wire_conversation_witness:
  "\<exists>rest. one_by_one (zip [replicate 20 0, replicate 60 3] (map (object_text (\<lambda>_. ''0'')) some_objects)) [] =
     Some (map (object_text (\<lambda>_. ''0'')) some_objects, rest)"
proof (rule wire_conversation)
  have esc: "escape_text ''ID'' = ''ID''" "escape_text ''1'' = ''1''" "escape_text ''Action'' = ''Action''"
    "escape_text ''Request'' = ''Request''" "escape_text ''keys'' = ''keys''"
    by (rule escape_text_plain; simp add: plain_byte_def quote_char_def backslash_def)+
  show "list_all enough_reads (zip [replicate 20 0, replicate 60 3] (map (object_text (\<lambda>_. ''0'')) some_objects))"
    by (simp add: enough_reads_def some_objects_def object_text_def esc)
qed (simp_all add: inert_def quote_char_def some_objects_def)

end
