(* ===== verification/Failures.thy ===== *)
theory Failures
  imports Memhashd
begin

text \<open>
  A cluster through the failure of its parts: processes that end, connections that are lost, and
  processes that are started again, in any order with the requests. What is lost with a member is
  the keys it was in charge of; what it costs is said by an abstract specification whose state
  is the table, the members that are up and the connections that are gone. No connection is ever
  dialled but by \<open>Start\<close> (\<open>server/server.go\<close>), so a member that comes back is not reached by those
  that stayed.
\<close>

section \<open>Processes and connections\<close>

text \<open>
  A member started again takes the place of the process that ended: it has dialled the
  others anew, and the connections they had to its predecessor are gone.
\<close>

definition restart :: "flags \<Rightarrow> server \<Rightarrow> world \<Rightarrow> world" where
  "restart fl s w =
     \<lparr>servers = (servers w)(fl_server_addr fl \<mapsto> s),
      closed = map (\<lambda>a. (a, fl_server_addr fl)) (fl_join fl) @
               filter (\<lambda>l. fst l \<noteq> fl_server_addr fl) (closed w)\<rparr>"

text \<open>
  What happens to a cluster: a request at a node, one whose connection breaks after the peer has
  read it, so that it is processed and its answer lost, the end of a process, the loss of the
  connection that one member dialled to another, and the start of a process, with the identifier, the
  outcomes of its dials, the identifiers of its nodes and the order in which they were joined.
\<close>

datatype fault =
    Enter runtime tcp_addr request
  | Torn runtime tcp_addr request
  | Crash tcp_addr
  | Lose tcp_addr conn
  | Restart string "tcp_addr option \<Rightarrow> nat \<Rightarrow> string + conn" "nat \<Rightarrow> string" "nat list" flags

definition unreached :: response where
  "unreached = response_zero\<lparr>status := status_internal, rerror := eof_error\<rparr>"

fun fault_step :: "world \<Rightarrow> fault \<Rightarrow> (world \<times> response option) option" where
  "fault_step w (Enter rt a req) =
     (case cluster_do 2 rt w a req of
        Some (w', Inr resp) \<Rightarrow> Some (w', Some resp)
      | _ \<Rightarrow> None)"
| "fault_step w (Torn rt a req) =
     (case (servers w a, cluster_do 2 rt w a req) of
        (Some s, Some (w', Inr resp)) \<Rightarrow>
          (case do_plan s req of
             PlanForward nd c \<Rightarrow> Some (close_link a c w', Some (do_forwarded (Inl eof_error)))
           | _ \<Rightarrow> Some (w', Some resp))
      | _ \<Rightarrow> None)"
| "fault_step w (Crash c) = Some (crash c w, None)"
| "fault_step w (Lose a c) = Some (close_link a c w, None)"
| "fault_step w (Restart i dial uuid finish fl) =
     (case boot i dial uuid finish fl of
        Inr (s, None) \<Rightarrow> Some (restart fl s w, None)
      | _ \<Rightarrow> Some (w, None))"

fun fault_run :: "world \<Rightarrow> fault list \<Rightarrow> (world \<times> response option list) option" where
  "fault_run w [] = Some (w, [])"
| "fault_run w (f # fs) =
     (case fault_step w f of
        None \<Rightarrow> None
      | Some (w', r) \<Rightarrow> map_option (apsnd (Cons r)) (fault_run w' fs))"

section \<open>The specification\<close>

record part =
  tbl :: table
  alive :: "tcp_addr set"
  cuts :: "(tcp_addr \<times> conn) set"

definition part_of :: "nat \<Rightarrow> tcp_addr list \<Rightarrow> world \<Rightarrow> part" where
  "part_of parts members w =
     \<lparr>tbl = cluster_abs parts members w, alive = {a \<in> set members. servers w a \<noteq> None},
      cuts = set (closed w)\<rparr>"

text \<open>The node a request is sent to is up and connected, or none is needed.\<close>

definition served :: "(string \<Rightarrow> tcp_addr) \<Rightarrow> part \<Rightarrow> tcp_addr \<Rightarrow> request \<Rightarrow> bool" where
  "served own p a req \<longleftrightarrow>
     req_hash req = [] \<or> own (req_hash req) = a \<or>
     own (req_hash req) \<in> alive p \<and> (a, own (req_hash req)) \<notin> cuts p"

definition part_enter ::
    "(string \<Rightarrow> tcp_addr) \<Rightarrow> part \<Rightarrow> runtime \<Rightarrow> tcp_addr \<Rightarrow> request \<Rightarrow> response \<Rightarrow> part \<Rightarrow> bool" where
  "part_enter own p rt a req resp p' \<longleftrightarrow>
     (if served own p a req then
        \<exists>m out. table_step (\<lambda>k. own k = a) rt req (tbl p) (m, out) \<and> answers out resp \<and> p' = p\<lparr>tbl := m\<rparr>
      else resp = unreached \<and> p' = p)"

fun part_step :: "(string \<Rightarrow> tcp_addr) \<Rightarrow> part \<Rightarrow> fault \<Rightarrow> response option \<Rightarrow> part \<Rightarrow> bool" where
  "part_step own p (Enter rt a req) r p' = (\<exists>resp. part_enter own p rt a req resp p' \<and> r = Some resp)"
| "part_step own p (Torn rt a req) r p' =
     (\<exists>resp p1. part_enter own p rt a req resp p1 \<and>
        (if req_hash req = [] \<or> own (req_hash req) = a then r = Some resp \<and> p' = p1
         else r = Some unreached \<and> p' = p1\<lparr>cuts := insert (a, own (req_hash req)) (cuts p1)\<rparr>))"
| "part_step own p (Crash c) r p' =
     (r = None \<and> p' = p\<lparr>tbl := (\<lambda>k. if own k = c then None else tbl p k), alive := alive p - {c}\<rparr>)"
| "part_step own p (Lose a c) r p' = (r = None \<and> p' = p\<lparr>cuts := insert (a, c) (cuts p)\<rparr>)"
| "part_step own p (Restart i dial uuid finish fl) r p' =
     (r = None \<and>
      p' = (if peers_answer dial fl then
              p\<lparr>alive := insert (fl_server_addr fl) (alive p),
                cuts := {(a, fl_server_addr fl) | a. a \<in> set (fl_join fl)} \<union>
                        {l \<in> cuts p. fst l \<noteq> fl_server_addr fl}\<rparr>
            else p))"

fun part_run :: "(string \<Rightarrow> tcp_addr) \<Rightarrow> part \<Rightarrow> fault list \<Rightarrow> response option list \<Rightarrow> part \<Rightarrow> bool" where
  "part_run own p [] [] p' = (p' = p)"
| "part_run own p (f # fs) (r # rs) p' = (\<exists>p1. part_step own p f r p1 \<and> part_run own p1 fs rs p')"
| "part_run own p _ _ p' = False"

text \<open>
  What may happen: well-formed requests enter at nodes that are up, and a process is started
  only in the place of one that ended, with flags of the same cluster. A dial that succeeds is
  answered by the address it was made to; whether one succeeds is left open.
\<close>

fun fault_ok :: "int64 \<Rightarrow> tcp_addr list \<Rightarrow> tcp_addr set \<Rightarrow> fault \<Rightarrow> bool" where
  "fault_ok n members up (Enter rt a req) = (rt_ok rt \<and> a \<in> up \<and> good_request req)"
| "fault_ok n members up (Torn rt a req) = (rt_ok rt \<and> a \<in> up \<and> good_request req)"
| "fault_ok n members up (Restart i dial uuid finish fl) =
     (fl_server_addr fl \<notin> up \<and> fl_num_partitions fl = n \<and>
      mset (fl_server_addr fl # fl_join fl) = mset members \<and>
      set finish = {0..<length (fl_join fl)} \<and>
      (\<forall>p k x. dial (Some p) k = Inr x \<longrightarrow> x = p))"
| "fault_ok n members up _ = True"

fun up_after :: "tcp_addr set \<Rightarrow> fault \<Rightarrow> tcp_addr set" where
  "up_after up (Crash c) = up - {c}"
| "up_after up (Restart i dial uuid finish fl) =
     (if peers_answer dial fl then insert (fl_server_addr fl) up else up)"
| "up_after up _ = up"

fun faults_ok :: "int64 \<Rightarrow> tcp_addr list \<Rightarrow> tcp_addr set \<Rightarrow> fault list \<Rightarrow> bool" where
  "faults_ok n members up [] = True"
| "faults_ok n members up (f # fs) =
     (fault_ok n members up f \<and> faults_ok n members (up_after up f) fs)"

section \<open>A process that is started again\<close>

lemma unanswered:
  assumes "\<not> peers_answer dial fl" and sane: "\<forall>p k x. dial (Some p) k = Inr x \<longrightarrow> x = p"
  shows "\<exists>p \<in> set (fl_join fl). \<forall>m. int m \<le> sint (fl_join_retries fl) \<longrightarrow> (\<exists>e. dial (Some p) m = Inl e)"
proof -
  from assms(1) obtain p where p: "p \<in> set (fl_join fl)"
    "\<And>m. int m \<le> sint (fl_join_retries fl) \<Longrightarrow> dial (Some p) m = Inr p \<Longrightarrow> \<exists>k < m. \<forall>e. dial (Some p) k \<noteq> Inl e"
    unfolding peers_answer_def by blast
  have "int m \<le> sint (fl_join_retries fl) \<Longrightarrow> \<exists>e. dial (Some p) m = Inl e" for m
  proof (induction m rule: less_induct)
    case (less m)
    show ?case
    proof (cases "dial (Some p) m")
      case (Inr x)
      then have "dial (Some p) m = Inr p" using sane by blast
      from p(2) [OF less.prems this] obtain k where "k < m" "\<forall>e. dial (Some p) k \<noteq> Inl e" by blast
      with less.IH [of k] less.prems show ?thesis by auto
    qed simp
  qed
  with p(1) show ?thesis by blast
qed

lemma boot_refused:
  assumes parts: "0 < sint (fl_num_partitions fl)" "sint (fl_num_partitions fl) < 2 ^ 32"
    and no: "\<not> peers_answer dial fl" and sane: "\<forall>p k x. dial (Some p) k = Inr x \<longrightarrow> x = p"
    and fin: "set finish = {0..<length (fl_join fl)}"
  shows "\<exists>s err. boot i dial uuid finish fl = Inr (s, Some err)"
proof -
  from new_ring_inv [OF parts] obtain r :: "nat ring" where r: "new_ring (fl_num_partitions fl) = Inr r" "ring_inv r"
    by blast
  obtain s where new: "new_server i (config_of fl) = Inr s" and s: "sring s = r" "retries s = fl_join_retries fl"
    "nodes s = map (\<lambda>a. node_zero\<lparr>node_addr := Some a\<rparr>) (fl_join fl)"
    using new_server_result [of "config_of fl" i] r(1) parts
    by (auto simp: new_server_def config_of_def split: sum.splits)
  from unanswered [OF no sane] obtain p where p: "p \<in> set (fl_join fl)"
    "\<And>m. int m \<le> sint (fl_join_retries fl) \<Longrightarrow> \<exists>e. dial (Some p) m = Inl e" by blast
  then obtain ii where ii: "ii < length (fl_join fl)" "fl_join fl ! ii = p" by (metis in_set_conv_nth)
  have "fst (join_node (dial (Some p)) s (nodes s ! ii)) =
      Inl (''server: all connection attempts failed to '' @ addr_string (node_addr (nodes s ! ii)))"
    using p(2) join_loop_failure [of 0 "sint (retries s)" "dial (Some p)"] by (simp add: join_node_def s(2))
  moreover have "node_addr (nodes s ! ii) = Some p" using ii by (simp add: s(3))
  moreover have "ii \<in> set finish" using fin ii by simp
  ultimately have "join_errors dial s (nodes s) finish \<noteq> []" by (force simp: join_errors_def)
  then obtain s' err where "start dial uuid finish s = Inr (s', Some err)"
    using start_result [of s dial uuid finish] r(2) s(1) by auto
  with new show ?thesis by (simp add: boot_def)
qed

lemma boot_member_again:
  assumes ok: "fault_ok n members up (Restart i dial uuid finish fl)" and dist: "distinct members"
    and parts: "0 < sint n" "sint n < 2 ^ 32"
  shows "peers_answer dial fl \<Longrightarrow> \<exists>s. boot i dial uuid finish fl = Inr (s, None) \<and>
      laddr s = fl_server_addr fl \<and> mesh_node (nat (sint n)) members s \<and> blank (sstore s)"
    and "\<not> peers_answer dial fl \<Longrightarrow> \<exists>s err. boot i dial uuid finish fl = Inr (s, Some err)"
proof -
  from ok have fl: "fl_num_partitions fl = n" "mset (fl_server_addr fl # fl_join fl) = mset members"
    "set finish = {0..<length (fl_join fl)}" "\<forall>p k x. dial (Some p) k = Inr x \<longrightarrow> x = p" by simp_all
  have "distinct (fl_server_addr fl # fl_join fl)" using mset_eq_imp_distinct_iff [OF fl(2)] dist by simp
  then show "peers_answer dial fl \<Longrightarrow> \<exists>s. boot i dial uuid finish fl = Inr (s, None) \<and>
      laddr s = fl_server_addr fl \<and> mesh_node (nat (sint n)) members s \<and> blank (sstore s)"
    using boot_mesh [OF fl(1) parts _ _ fl(3), of dial i uuid] unfolding mesh_node_members [OF fl(2)] by simp
  show "\<not> peers_answer dial fl \<Longrightarrow> \<exists>s err. boot i dial uuid finish fl = Inr (s, Some err)"
    using boot_refused [OF _ _ _ fl(4) fl(3)] parts fl(1) by simp
qed

section \<open>One step\<close>

lemma served_part:
  assumes "members \<noteq> []"
  shows "served (owner parts members) (part_of parts members w) a req \<longleftrightarrow> reaches parts members w a req"
  using owner_member [OF assms] by (simp add: served_def reaches_def linked_def part_of_def)

lemma sent_unreached:
  assumes m: "partial_mesh parts members w" and a: "a \<in> set members" "servers w a = Some s"
    and good: "good_request req" and cut: "\<not> reaches parts members w a req"
  shows "cluster_do (Suc n) rt w a req = Some (w, Inr unreached)"
proof -
  have there: "owner parts members (req_hash req) \<noteq> a" "req_hash req \<noteq> []"
    "\<not> linked w a (owner parts members (req_hash req))" using cut by (simp_all add: reaches_def)
  then have "wire_request req = Some req" using good_clean [OF good] by (auto intro: wire_clean_request)
  with partial_unreached [OF m a there] show ?thesis by (simp add: unreached_def)
qed

lemma enter_step:
  assumes inv: "degraded_inv parts members w" and up: "a \<in> alive (part_of parts members w)"
    and ok: "rt_ok rt" "good_request req"
  shows "\<exists>w' resp. cluster_do 2 rt w a req = Some (w', Inr resp) \<and> degraded_inv parts members w' \<and>
     part_enter (owner parts members) (part_of parts members w) rt a req resp (part_of parts members w')"
proof (cases "reaches parts members w a req")
  case True
  from up have a: "a \<in> set members" "servers w a \<noteq> None" by (simp_all add: part_of_def)
  from degraded_step [OF inv a True ok] obtain w' out resp where
    one: "cluster_do 2 rt w a req = Some (w', Inr resp)" "answers out resp" "degraded_inv parts members w'"
      "table_step (\<lambda>k. owner parts members k = a) rt req
        (cluster_abs parts members w) (cluster_abs parts members w', out)"
      "dom (servers w') = dom (servers w)" "closed w' = closed w" by blast
  have "part_of parts members w' = (part_of parts members w)\<lparr>tbl := cluster_abs parts members w'\<rparr>"
    using one(5,6) by (auto simp: part_of_def dom_def set_eq_iff)
  moreover have "tbl (part_of parts members w) = cluster_abs parts members w" by (simp add: part_of_def)
  ultimately have "part_enter (owner parts members) (part_of parts members w) rt a req resp
       (part_of parts members w')"
    using True one(2,4) unfolding part_enter_def served_part [OF degradedD(4) [OF inv]] by auto
  with one(1,3) show ?thesis by blast
next
  case False
  from up obtain s where a: "a \<in> set members" "servers w a = Some s" by (auto simp: part_of_def)
  have "cluster_do 2 rt w a req = Some (w, Inr unreached)"
    using sent_unreached [OF degradedD(1) [OF inv] a ok(2) False, of 1] by (simp add: numeral_2_eq_2)
  with inv False show ?thesis
    by (auto simp: part_enter_def served_part [OF degradedD(4) [OF inv]])
qed

lemma crash_step:
  assumes inv: "degraded_inv parts members w"
  shows "degraded_inv parts members (crash c w) \<and>
     part_step (owner parts members) (part_of parts members w) (Crash c) None (part_of parts members (crash c w))"
proof -
  have abs: "cluster_abs parts members (crash c w) =
      (\<lambda>k. if owner parts members k = c then None else cluster_abs parts members w k)"
    by (auto simp: cluster_abs_def)
  moreover have "partial_mesh parts members (crash c w)" "placed parts members (crash c w)"
    using degradedD(1,2) [OF inv] by (auto simp: partial_mesh_def list_all_iff placed_def)
  ultimately show ?thesis
    using degradedD(3) [OF inv] by (auto simp: degraded_inv_def good_table_def part_of_def)
qed

lemma lose_step:
  assumes "degraded_inv parts members w"
  shows "degraded_inv parts members (close_link a c w) \<and>
     part_step (owner parts members) (part_of parts members w) (Lose a c) None
       (part_of parts members (close_link a c w))"
proof -
  have "cluster_abs parts members (close_link a c w) = cluster_abs parts members w"
    by (simp add: cluster_abs_def fun_eq_iff)
  with assms show ?thesis by (simp add: degraded_inv_def partial_mesh_def placed_def part_of_def)
qed

lemma torn_step:
  assumes inv: "degraded_inv parts members w" and up: "a \<in> alive (part_of parts members w)"
    and ok: "rt_ok rt" "good_request req"
  shows "\<exists>w' resp. fault_step w (Torn rt a req) = Some (w', Some resp) \<and> degraded_inv parts members w' \<and>
     part_step (owner parts members) (part_of parts members w) (Torn rt a req) (Some resp)
       (part_of parts members w')"
proof -
  let ?b = "owner parts members (req_hash req)"
  from up obtain s where a: "a \<in> set members" "servers w a = Some s" by (auto simp: part_of_def)
  from enter_step [OF inv up ok] obtain w1 resp where
    one: "cluster_do 2 rt w a req = Some (w1, Inr resp)" "degraded_inv parts members w1"
      "part_enter (owner parts members) (part_of parts members w) rt a req resp (part_of parts members w1)"
    by blast
  note node = partial_server [OF degradedD(1) [OF inv] a]
  show ?thesis
  proof (cases "req_hash req = [] \<or> ?b = a")
    case True
    then obtain nd where "do_plan s req = PlanLocal nd"
      using mesh_plan [OF node(2) degradedD(4) [OF inv], of req] node(1) by metis
    with True a one show ?thesis by auto
  next
    case False
    then obtain nd where "do_plan s req = PlanForward nd ?b"
      using partial_plan [OF degradedD(1) [OF inv] a, of req] by blast
    moreover have "degraded_inv parts members (close_link a ?b w1)" using lose_step [OF one(2)] by blast
    moreover have "part_of parts members (close_link a ?b w1) =
        (part_of parts members w1)\<lparr>cuts := insert (a, ?b) (cuts (part_of parts members w1))\<rparr>"
      using lose_step [OF one(2), of a ?b] by simp
    ultimately show ?thesis using False a one by (auto simp: unreached_def)
  qed
qed

lemma restart_sel [simp]:
  "servers (restart fl s w) = (servers w)(fl_server_addr fl \<mapsto> s)"
  "set (closed (restart fl s w)) =
     {(a, fl_server_addr fl) | a. a \<in> set (fl_join fl)} \<union> {l \<in> set (closed w). fst l \<noteq> fl_server_addr fl}"
  by (auto simp: restart_def)

lemma restart_degraded:
  assumes inv: "degraded_inv parts members w" and down: "servers w (fl_server_addr fl) = None"
    and s: "laddr s = fl_server_addr fl" "mesh_node parts members s" "blank (sstore s)"
  shows "degraded_inv parts members (restart fl s w)"
    and "cluster_abs parts members (restart fl s w) = cluster_abs parts members w"
proof -
  show abs: "cluster_abs parts members (restart fl s w) = cluster_abs parts members w"
    using down s(3) by (auto simp: cluster_abs_def blank_def fun_eq_iff)
  have "partial_mesh parts members (restart fl s w)"
    using degradedD(1) [OF inv] s(1,2) by (simp add: partial_mesh_def list_all_iff)
  moreover have "store_abs (sstore s) k = None" for k using s(3) by (simp add: blank_def)
  then have "placed parts members (restart fl s w)"
    using degradedD(2) [OF inv] by (simp add: placed_def)
  ultimately show "degraded_inv parts members (restart fl s w)"
    using degradedD(3) [OF inv] by (simp add: degraded_inv_def abs)
qed

lemma restart_step:
  assumes inv: "degraded_inv (nat (sint n)) members w" and parts: "0 < sint n" "sint n < 2 ^ 32"
    and ok: "fault_ok n members (alive (part_of (nat (sint n)) members w)) (Restart i dial uuid finish fl)"
  shows "\<exists>w'. fault_step w (Restart i dial uuid finish fl) = Some (w', None) \<and>
     degraded_inv (nat (sint n)) members w' \<and>
     part_step (owner (nat (sint n)) members) (part_of (nat (sint n)) members w)
       (Restart i dial uuid finish fl) None (part_of (nat (sint n)) members w')"
proof -
  have "distinct members" using degradedD(1) [OF inv] by (simp add: partial_mesh_def)
  note boots = boot_member_again [OF ok this parts]
  note guard = ok [unfolded fault_ok.simps]
  have fl: "fl_server_addr fl \<notin> alive (part_of (nat (sint n)) members w)"
    "mset (fl_server_addr fl # fl_join fl) = mset members"
    by (rule conjunct1 [OF guard], rule conjunct1 [OF conjunct2 [OF conjunct2 [OF guard]]])
  have member: "fl_server_addr fl \<in> set members" using mset_eq_setD [OF fl(2)] by auto
  then have down: "servers w (fl_server_addr fl) = None" using fl(1) by (simp add: part_of_def)
  show ?thesis
  proof (cases "peers_answer dial fl")
    case True
    from boots(1) [OF True] obtain s where s: "boot i dial uuid finish fl = Inr (s, None)"
      "laddr s = fl_server_addr fl" "mesh_node (nat (sint n)) members s" "blank (sstore s)" by blast
    note new = restart_degraded [OF inv down s(2-4)]
    have "part_of (nat (sint n)) members (restart fl s w) =
        (part_of (nat (sint n)) members w)\<lparr>
          alive := insert (fl_server_addr fl) (alive (part_of (nat (sint n)) members w)),
          cuts := {(a, fl_server_addr fl) | a. a \<in> set (fl_join fl)} \<union>
                  {l \<in> cuts (part_of (nat (sint n)) members w). fst l \<noteq> fl_server_addr fl}\<rparr>"
      using member by (auto simp: part_of_def new(2))
    with True s(1) new(1) show ?thesis by (simp del: fault_ok.simps)
  next
    case False
    from boots(2) [OF False] inv False show ?thesis by auto
  qed
qed

section \<open>Sequences of failures and requests\<close>

lemma alive_after:
  assumes "part_step own p f r p'"
  shows "alive p' = up_after (alive p) f"
proof (cases f)
  case (Enter rt a req)
  with assms show ?thesis by (cases "served own p a req") (auto simp: part_enter_def)
next
  case (Torn rt a req)
  with assms show ?thesis
    by (cases "served own p a req") (auto simp: part_enter_def split: if_splits)
qed (use assms in \<open>auto split: if_splits\<close>)

lemma fault_step_part:
  assumes inv: "degraded_inv (nat (sint n)) members w" and parts: "0 < sint n" "sint n < 2 ^ 32"
    and ok: "fault_ok n members (alive (part_of (nat (sint n)) members w)) f"
  shows "\<exists>w' r. fault_step w f = Some (w', r) \<and> degraded_inv (nat (sint n)) members w' \<and>
     part_step (owner (nat (sint n)) members) (part_of (nat (sint n)) members w) f r
       (part_of (nat (sint n)) members w')"
proof (cases f)
  case (Enter rt a req)
  with ok enter_step [OF inv, of a rt req] show ?thesis by auto
next
  case (Torn rt a req)
  with ok torn_step [OF inv, of a rt req] show ?thesis by (metis fault_ok.simps(2))
next
  case (Crash c)
  with crash_step [OF inv, of c] show ?thesis by simp
next
  case (Lose a c)
  with lose_step [OF inv, of a c] show ?thesis by simp
next
  case (Restart i dial uuid finish fl)
  with restart_step [OF inv parts] ok show ?thesis by blast
qed

lemma fault_run_part:
  assumes "degraded_inv (nat (sint n)) members w" and "0 < sint n" and "sint n < 2 ^ 32"
    and "faults_ok n members (alive (part_of (nat (sint n)) members w)) fs"
  shows "\<exists>w' rs. fault_run w fs = Some (w', rs) \<and> degraded_inv (nat (sint n)) members w' \<and>
     part_run (owner (nat (sint n)) members) (part_of (nat (sint n)) members w) fs rs
       (part_of (nat (sint n)) members w')"
  using assms
proof (induction fs arbitrary: w)
  case (Cons f fs)
  let ?own = "owner (nat (sint n)) members" and ?p = "part_of (nat (sint n)) members"
  from Cons.prems(4) have ok: "fault_ok n members (alive (?p w)) f"
    "faults_ok n members (up_after (alive (?p w)) f) fs" by simp_all
  from fault_step_part [OF Cons.prems(1-3) ok(1)] obtain w1 r where
    one: "fault_step w f = Some (w1, r)" "degraded_inv (nat (sint n)) members w1"
      "part_step ?own (?p w) f r (?p w1)" by blast
  from Cons.IH [OF one(2) Cons.prems(2,3)] ok(2) alive_after [OF one(3)] obtain w' rs where
    rest: "fault_run w1 fs = Some (w', rs)" "degraded_inv (nat (sint n)) members w'"
      "part_run ?own (?p w1) fs rs (?p w')" by auto
  from rest one have "fault_run w (f # fs) = Some (w', r # rs)" "part_run ?own (?p w) (f # fs) (r # rs) (?p w')"
    by (auto simp del: part_step.simps)
  with rest(2) show ?case by blast
qed simp

text \<open>The starts of one member; no other event gives it a new connection.\<close>

fun starts :: "tcp_addr \<Rightarrow> fault \<Rightarrow> bool" where
  "starts a (Restart i dial uuid finish fl) = (fl_server_addr fl = a)"
| "starts a _ = False"

lemma part_run_Nil: "part_run own p [] rs p' \<longleftrightarrow> rs = [] \<and> p' = p"
  by (cases rs) auto

lemma cuts_kept:
  assumes "part_step own p f r p'" and "\<not> starts a f" and "(a, c) \<in> cuts p"
  shows "(a, c) \<in> cuts p'"
proof (cases f)
  case (Enter rt b req)
  with assms show ?thesis by (cases "served own p b req") (auto simp: part_enter_def)
next
  case (Torn rt b req)
  with assms show ?thesis
    by (cases "served own p b req") (auto simp: part_enter_def split: if_splits)
qed (use assms in \<open>auto split: if_splits\<close>)

lemma cuts_run:
  "part_run own p fs rs p' \<Longrightarrow> list_all (\<lambda>f. \<not> starts a f) fs \<Longrightarrow> (a, c) \<in> cuts p \<Longrightarrow> (a, c) \<in> cuts p'"
proof (induction own p fs rs p' rule: part_run.induct)
  case (2 own p f fs r rs p')
  then show ?case using cuts_kept by (auto simp del: part_step.simps)
qed simp_all

section \<open>Properties\<close>


text \<open>C31. A member that comes back is not reached by those that stayed up: whatever happens after its
  start, as long as a neighbour is not itself started again, every request on the member's keys
  that enters at that neighbour fails with an internal error.\<close>

theorem returned_member_unreached:
  assumes "degraded_inv (nat (sint n)) members w" and "0 < sint n" and "sint n < 2 ^ 32"
    and "faults_ok n members (alive (part_of (nat (sint n)) members w)) (Restart i dial uuid finish fl # fs)"
    and "peers_answer dial fl" and "a \<in> set (fl_join fl)" and "list_all (\<lambda>f. \<not> starts a f) fs"
    and "fault_run w (Restart i dial uuid finish fl # fs) = Some (w', rs)" and "servers w' a \<noteq> None"
    and "good_request req" and "req_hash req \<noteq> []"
    and "owner (nat (sint n)) members (req_hash req) = fl_server_addr fl"
  shows "cluster_do 2 rt w' a req = Some (w', Inr unreached)"
proof -
  let ?p = "part_of (nat (sint n)) members" and ?own = "owner (nat (sint n)) members"
  let ?c = "fl_server_addr fl"
  from fault_run_part [OF assms(1-4)] assms(8) have run: "degraded_inv (nat (sint n)) members w'"
    "part_run ?own (?p w) (Restart i dial uuid finish fl # fs) rs (?p w')" by auto
  then obtain p1 rs' where p1: "part_run ?own p1 fs rs' (?p w')" "(a, ?c) \<in> cuts p1"
    using assms(5,6) by (cases rs) auto
  then have cut: "(a, ?c) \<in> set (closed w')"
    using cuts_run [OF p1(1) assms(7) p1(2)] by (simp add: part_of_def)
  have ok: "mset (?c # fl_join fl) = mset members" using assms(4) unfolding faults_ok.simps fault_ok.simps by blast
  have dist: "distinct (?c # fl_join fl)"
    using mset_eq_imp_distinct_iff [OF ok] degradedD(1) [OF assms(1)] by (simp add: partial_mesh_def)
  have a: "a \<in> set members" "?c \<noteq> a" using mset_eq_setD [OF ok] assms(6) dist by auto
  obtain s where s: "servers w' a = Some s" using assms(9) by blast
  have "\<not> reaches (nat (sint n)) members w' a req"
    using cut a(2) assms(11,12) by (simp add: reaches_def linked_def)
  from sent_unreached [OF degradedD(1) [OF run(1)] a(1) s assms(10) this, of 1] show ?thesis
    by (simp add: numeral_2_eq_2)
qed

section \<open>An example\<close>

text \<open>
  The three containers: the second, which has the key \<open>k\<close>, ends and is started again. The
  requests for the key between the two and after, at two nodes.
\<close>

definition second_flags :: flags where
  "second_flags = (default_flags node2)\<lparr>fl_join := [node1, node3], fl_client_addr := TCPAddr ''172.16.239.20:8002''\<rparr>"

definition second_returns :: fault where
  "second_returns = Restart ''id'' compose_dial (\<lambda>_. ''uuid'') [1, 0] second_flags"

definition demo_faults :: "fault list" where
  "demo_faults =
     [Enter (rt_at 10) node1 (RequestStore ''1'' 0 ''k'' (VBool True)),
      Crash node2,
      Enter (rt_at 20) node1 (RequestLoad ''2'' ''k''),
      second_returns,
      Lose node3 node1,
      Enter (rt_at 30) node2 (RequestStore ''3'' 0 ''k'' (VBool False)),
      Torn (rt_at 40) node3 (RequestDelete ''4'' ''k''),
      Enter (rt_at 50) node1 (RequestLoad ''4'' ''k'')]"

lemma hash_k: "string_hasher_hash ''k'' = 84696436"
  by (simp add: string_hasher_hash_def fnv_sum32_def fnv_offset32_def fnv_prime32_def)

lemma owner_k: "owner 16384 compose_members ''k'' = node2"
  by (simp add: owner_def hash_k insort_key.simps less_eq_tcp_addr_def)

lemma second_sel [simp]:
  "fl_server_addr second_flags = node2" "fl_join second_flags = [node1, node3]"
  "fl_num_partitions second_flags = 16384"
  by (simp_all add: second_flags_def default_flags_def)

lemma ascii_texts:
  "utf8_valid ''1''" "utf8_valid ''2''" "utf8_valid ''3''" "utf8_valid ''4''" "utf8_valid ''k''"
  by (rule utf8_valid_ascii; simp)+

lemma second_answered: "peers_answer compose_dial second_flags"
  by (rule compose_answers) (simp add: compose_flags_def second_flags_def)

lemma second_ok: "node2 \<notin> up \<Longrightarrow> fault_ok 16384 compose_members up second_returns"
  by (auto simp: second_returns_def split: if_splits)

lemma compose_up: "alive (part_of 16384 compose_members compose_world) = set compose_members"
  using compose_inv(1) unfolding cluster_degraded by (auto simp: part_of_def)

lemma compose_degraded: "degraded_inv 16384 compose_members compose_world"
  using compose_inv(1) unfolding cluster_degraded by blast

lemma demo_faults_ok: "faults_ok 16384 compose_members (set compose_members) demo_faults"
proof -
  have up: "up_after up second_returns = insert node2 up" for up
    using second_answered by (simp add: second_returns_def)
  show ?thesis
    using second_ok by (simp add: demo_faults_def up good_data_def ascii_texts)
qed


theorem returned_member_unreached_witness:
  "\<exists>w' rs. fault_run (crash node2 compose_world) [second_returns] = Some (w', rs) \<and>
     cluster_do 2 (rt_at 40) w' node1 (RequestLoad ''4'' ''k'') = Some (w', Inr unreached)"
proof -
  let ?w = "crash node2 compose_world"
  have inv: "degraded_inv 16384 compose_members ?w"
    using crash_step [OF compose_degraded] by blast
  have up: "alive (part_of 16384 compose_members ?w) = {node1, node3}"
    using compose_up by (auto simp: part_of_def)
  have ok: "faults_ok 16384 compose_members (alive (part_of 16384 compose_members ?w)) [second_returns]"
    using second_ok [of "{node1, node3}"] by (simp add: up)
  obtain w' rs where run: "fault_run ?w [second_returns] = Some (w', rs)" "degraded_inv 16384 compose_members w'"
    "part_run (owner 16384 compose_members) (part_of 16384 compose_members ?w) [second_returns] rs
       (part_of 16384 compose_members w')"
    using fault_run_part [of 16384 compose_members ?w "[second_returns]"] inv ok by auto
  have "node1 \<in> alive (part_of 16384 compose_members w')"
    using run(3) up second_answered by (cases rs) (auto simp: second_returns_def part_run_Nil)
  then have "servers w' node1 \<noteq> None" by (simp add: part_of_def)
  moreover have parts: "nat (sint (16384 :: int64)) = 16384" by simp
  note unreached = returned_member_unreached [where n = 16384, unfolded parts, OF inv _ _
      ok [unfolded second_returns_def] second_answered _ _ run(1) [unfolded second_returns_def]]
  ultimately have "cluster_do 2 (rt_at 40) w' node1 (RequestLoad ''4'' ''k'') = Some (w', Inr unreached)"
    using ascii_texts owner_k by (intro unreached) simp_all
  with run(1) show ?thesis by blast
qed

end
