(* ===== verification/Fault_Net.thy ===== *)
theory Fault_Net
  imports Linearizable Failures
begin

text \<open>
  The concurrent cluster of theory \<open>Concurrent\<close> under failures: between any two steps of its
  goroutines a process may end and a connection may break, with whatever is under way on it. The
  specification is the atomic table of that theory with calls that fail: a call to a node that
  cannot be reached is answered by an internal error, and then it has taken effect, or has not, or
  still will. The last happens to at most one request for each connection.
\<close>

section \<open>Steps\<close>

datatype fault_label = Step label | Ends tcp_addr | Breaks link

inductive fault_net_step :: "net \<Rightarrow> fault_label \<Rightarrow> net \<Rightarrow> bool" where
  fn_step: "net_step n e n' \<Longrightarrow> fault_net_step n (Step e) n'"
| fn_end: "fault_net_step n (Ends c) (kill c n)"
| fn_break: "fault_net_step n (Breaks l) (n\<lparr>net_world := close_link (fst l) (snd l) (net_world n)\<rparr>)"

inductive_cases fault_net_stepE [consumes 1, case_names step stop break]: "fault_net_step n e n'"

inductive fault_net_run :: "net \<Rightarrow> fault_label list \<Rightarrow> net \<Rightarrow> bool" where
  fn_nil: "fault_net_run n [] n"
| fn_snoc: "fault_net_run n es n' \<Longrightarrow> fault_net_step n' e n'' \<Longrightarrow> fault_net_run n (es @ [e]) n''"

section \<open>A table with calls that fail\<close>

text \<open>
  A call with the node it was made at; the connections over which the member in charge cannot be
  reached; and on each connection the request that was given up and may still take effect.
\<close>

datatype fcall = FPending tcp_addr request | FDone tcp_addr request response

fun call_node :: "fcall \<Rightarrow> tcp_addr" where
  "call_node (FPending a req) = a"
| "call_node (FDone a req resp) = a"

record fobj =
  fcells :: table
  ffleeting :: "string set"
  fcalls :: "nat \<Rightarrow> fcall option"
  fup :: "tcp_addr set"
  fcuts :: "link set"
  floose :: "link \<Rightarrow> request option"

text \<open>The request has to go to another node, and cannot.\<close>

definition parted :: "(string \<Rightarrow> tcp_addr) \<Rightarrow> fobj \<Rightarrow> tcp_addr \<Rightarrow> request \<Rightarrow> bool" where
  "parted own ob a req \<longleftrightarrow> req_hash req \<noteq> [] \<and> own (req_hash req) \<noteq> a \<and>
     (own (req_hash req) \<notin> fup ob \<or> (a, own (req_hash req)) \<in> fcuts ob)"

datatype event = Did action | Ended tcp_addr | Broke link

text \<open>
  Calls take effect and return as before. Besides, one that is parted from its node may be refused,
  and is then perhaps left on the connection (\<open>fobj_refuse\<close>, \<open>fobj_abandon\<close>), or its answer is lost
  (\<open>fobj_lost\<close>); what was left takes effect once, while its node is up (\<open>fobj_late\<close>). With a node go
  its keys and the calls made at it, which may stay on their connections in the same way.
\<close>

inductive fobj_run :: "(string \<Rightarrow> tcp_addr) \<Rightarrow> fobj \<Rightarrow> event list \<Rightarrow> fobj \<Rightarrow> bool"
  for own :: "string \<Rightarrow> tcp_addr" and ob :: fobj where
  fobj_nil: "fobj_run own ob [] ob"
| fobj_call: "fobj_run own ob evs ob' \<Longrightarrow> fcalls ob' i = None \<Longrightarrow> a \<in> fup ob' \<Longrightarrow>
     fobj_run own ob (evs @ [Did (Call i a req)]) (ob'\<lparr>fcalls := (fcalls ob')(i \<mapsto> FPending a req)\<rparr>)"
| fobj_effect: "fobj_run own ob evs ob' \<Longrightarrow> fcalls ob' i = Some (FPending a req) \<Longrightarrow> rt_ok rt \<Longrightarrow>
     req_hash req = [] \<or> own (req_hash req) \<in> fup ob' \<Longrightarrow>
     table_step (\<lambda>k. own k = a) rt req (fcells ob') (m, out) \<Longrightarrow> answers out resp \<Longrightarrow>
     fobj_run own ob evs
       (ob'\<lparr>fcells := m, ffleeting := ffleeting ob' \<union> temp_keys req, fcalls := (fcalls ob')(i \<mapsto> FDone a req resp)\<rparr>)"
| fobj_refuse: "fobj_run own ob evs ob' \<Longrightarrow> fcalls ob' i = Some (FPending a req) \<Longrightarrow> parted own ob' a req \<Longrightarrow>
     fobj_run own ob evs (ob'\<lparr>fcalls := (fcalls ob')(i \<mapsto> FDone a req unreached)\<rparr>)"
| fobj_abandon: "fobj_run own ob evs ob' \<Longrightarrow> fcalls ob' i = Some (FPending a req) \<Longrightarrow> parted own ob' a req \<Longrightarrow>
     fobj_run own ob evs (ob'\<lparr>fcalls := (fcalls ob')(i \<mapsto> FDone a req unreached),
       floose := (floose ob')((a, own (req_hash req)) \<mapsto> req)\<rparr>)"
| fobj_lost: "fobj_run own ob evs ob' \<Longrightarrow> fcalls ob' i = Some (FDone a req resp) \<Longrightarrow> parted own ob' a req \<Longrightarrow>
     fobj_run own ob evs (ob'\<lparr>fcalls := (fcalls ob')(i \<mapsto> FDone a req unreached)\<rparr>)"
| fobj_late: "fobj_run own ob evs ob' \<Longrightarrow> floose ob' l = Some req \<Longrightarrow> rt_ok rt \<Longrightarrow>
     own (req_hash req) = snd l \<Longrightarrow> snd l \<in> fup ob' \<Longrightarrow>
     table_step (\<lambda>k. own k = fst l) rt req (fcells ob') (m, out) \<Longrightarrow>
     fobj_run own ob evs
       (ob'\<lparr>fcells := m, ffleeting := ffleeting ob' \<union> temp_keys req, floose := (floose ob')(l := None)\<rparr>)"
| fobj_evict: "fobj_run own ob evs ob' \<Longrightarrow> K \<subseteq> ffleeting ob' \<Longrightarrow>
     fobj_run own ob evs (ob'\<lparr>fcells := fcells ob' |` (- K)\<rparr>)"
| fobj_return: "fobj_run own ob evs ob' \<Longrightarrow> fcalls ob' i = Some (FDone a req resp) \<Longrightarrow> read_back req resp resp' \<Longrightarrow>
     fobj_run own ob (evs @ [Did (Return i (Inr resp'))]) (ob'\<lparr>fcalls := (fcalls ob')(i := None)\<rparr>)"
| fobj_end: "fobj_run own ob evs ob' \<Longrightarrow>
     (\<And>l req. L l = Some req \<Longrightarrow> floose ob' l = Some req \<or>
        fst l = c \<and> own (req_hash req) = snd l \<and> (\<exists>i. fcalls ob' i = Some (FPending c req))) \<Longrightarrow>
     fobj_run own ob (evs @ [Ended c])
       (ob'\<lparr>fcells := (\<lambda>k. if own k = c then None else fcells ob' k), fup := fup ob' - {c}, floose := L,
            fcalls := (\<lambda>i. case fcalls ob' i of None \<Rightarrow> None | Some st \<Rightarrow> if call_node st = c then None else Some st)\<rparr>)"
| fobj_break: "fobj_run own ob evs ob' \<Longrightarrow>
     fobj_run own ob (evs @ [Broke l]) (ob'\<lparr>fcuts := insert l (fcuts ob')\<rparr>)"

fun fault_trace :: "fault_label list \<Rightarrow> event list" where
  "fault_trace [] = []"
| "fault_trace (Step (Visible a) # es) = Did a # fault_trace es"
| "fault_trace (Ends c # es) = Ended c # fault_trace es"
| "fault_trace (Breaks l # es) = Broke l # fault_trace es"
| "fault_trace (e # es) = fault_trace es"

lemma fault_trace_append [simp]: "fault_trace (xs @ ys) = fault_trace xs @ fault_trace ys"
  by (induction xs rule: fault_trace.induct) simp_all

section \<open>The simulation\<close>

definition broken :: "link \<Rightarrow> net \<Rightarrow> bool" where
  "broken l n \<longleftrightarrow> cut l n \<or> servers (net_world n) (fst l) = None"

text \<open>The caller that holds the mutex of a connection and waits for its answer.\<close>

definition asks :: "net \<Rightarrow> link \<Rightarrow> nat \<Rightarrow> task \<Rightarrow> bool" where
  "asks n l i t \<longleftrightarrow> holder n l = Some (Caller i) \<and> tasks n (Caller i) = Some t \<and>
     at_node t = fst l \<and> phase t = Awaiting (snd l)"

text \<open>Its request: at one of the stages of theory \<open>Link_Inv\<close>, or lost with the connection.\<close>

definition at_fstage :: "net \<Rightarrow> link \<Rightarrow> request \<Rightarrow> bool" where
  "at_fstage n l req \<longleftrightarrow> (\<exists>st. at_stage n l req st) \<or>
     cut l n \<and> replies n l = [] \<and> tasks n (Handler l) = None"

text \<open>What nobody waits for on a broken connection: a request in service or written.\<close>

definition sent_by :: "nat \<Rightarrow> tcp_addr list \<Rightarrow> link \<Rightarrow> request \<Rightarrow> bool" where
  "sent_by parts members l req \<longleftrightarrow> good_request req \<and> asking parts members (fst l) req (snd l)"

definition orphan_served :: "nat \<Rightarrow> tcp_addr list \<Rightarrow> net \<Rightarrow> (link \<Rightarrow> request option) \<Rightarrow> link \<Rightarrow> task \<Rightarrow> bool" where
  "orphan_served parts members n L l th \<longleftrightarrow> at_node th = snd l \<and> sent_by parts members l (asked th) \<and>
     (phase th = Routing \<and> L l = Some (asked th) \<or>
      (\<exists>resp resp'. phase th = Returning (Inr resp) \<and> wire_response resp = Delivered resp'))"

definition orphan_written :: "nat \<Rightarrow> tcp_addr list \<Rightarrow> net \<Rightarrow> (link \<Rightarrow> request option) \<Rightarrow> link \<Rightarrow> bool" where
  "orphan_written parts members n L l \<longleftrightarrow>
     (\<exists>ev req. events n l = [ev] \<and> encode_event req = Some ev \<and> sent_by parts members l req \<and> L l = Some req)"

definition orphan :: "nat \<Rightarrow> tcp_addr list \<Rightarrow> net \<Rightarrow> (link \<Rightarrow> request option) \<Rightarrow> link \<Rightarrow> bool" where
  "orphan parts members n L l \<longleftrightarrow>
     (case tasks n (Handler l) of
        Some th \<Rightarrow> orphan_served parts members n L l th \<and> (cut l n \<or> events n l = [])
      | None \<Rightarrow> cut l n \<or> events n l = [] \<or> orphan_written parts members n L l)"

definition quiet :: "net \<Rightarrow> link \<Rightarrow> bool" where
  "quiet n l \<longleftrightarrow> events n l = [] \<and> replies n l = [] \<and> tasks n (Handler l) = None"

definition link_rel :: "nat \<Rightarrow> tcp_addr list \<Rightarrow> net \<Rightarrow> (link \<Rightarrow> request option) \<Rightarrow> link \<Rightarrow> bool" where
  "link_rel parts members n L l \<longleftrightarrow>
     (\<forall>i t. asks n l i t \<longrightarrow> at_fstage n l (asked t)) \<and>
     ((\<forall>i t. \<not> asks n l i t) \<longrightarrow>
        (if broken l n then orphan parts members n L l else quiet n l) \<and>
        (holder n l \<noteq> None \<longrightarrow> servers (net_world n) (fst l) = None))"

text \<open>The state of a call, by where its request is.\<close>

definition link_call :: "net \<Rightarrow> link \<Rightarrow> request \<Rightarrow> fcall \<Rightarrow> bool" where
  "link_call n l req st \<longleftrightarrow>
     (if replies n l \<noteq> [] then \<exists>resp. hd (replies n l) = Inr resp \<and> st = FDone (fst l) req resp
      else case tasks n (Handler l) of
             None \<Rightarrow> st = FPending (fst l) req \<or> cut l n \<and> (\<exists>resp. st = FDone (fst l) req resp)
           | Some th \<Rightarrow>
               (case phase th of
                  Returning (Inr resp) \<Rightarrow>
                    \<exists>resp'. wire_response resp = Delivered resp' \<and> st = FDone (fst l) req resp'
                | _ \<Rightarrow> st = FPending (fst l) req))"

fun phase_rel :: "nat \<Rightarrow> tcp_addr list \<Rightarrow> net \<Rightarrow> nat \<Rightarrow> task \<Rightarrow> fcall \<Rightarrow> phase \<Rightarrow> bool" where
  "phase_rel parts members n i t st Routing = (st = FPending (at_node t) (asked t))"
| "phase_rel parts members n i t st (Waiting c) =
     (st = FPending (at_node t) (asked t) \<and> asking parts members (at_node t) (asked t) c)"
| "phase_rel parts members n i t st (Awaiting c) =
     (holder n (at_node t, c) = Some (Caller i) \<and> asking parts members (at_node t) (asked t) c \<and>
      link_call n (at_node t, c) (asked t) st)"
| "phase_rel parts members n i t st (Returning r) = (\<exists>resp. r = Inr resp \<and> st = FDone (at_node t) (asked t) resp)"

definition caller_rel :: "nat \<Rightarrow> tcp_addr list \<Rightarrow> net \<Rightarrow> fobj \<Rightarrow> nat \<Rightarrow> bool" where
  "caller_rel parts members n ob i \<longleftrightarrow>
     (case tasks n (Caller i) of
        None \<Rightarrow> fcalls ob i = None
      | Some t \<Rightarrow> at_node t \<in> set members \<and> servers (net_world n) (at_node t) \<noteq> None \<and> good_request (asked t) \<and>
          (\<exists>st. fcalls ob i = Some st \<and> phase_rel parts members n i t st (phase t)))"

definition world_rel :: "nat \<Rightarrow> tcp_addr list \<Rightarrow> world \<Rightarrow> fobj \<Rightarrow> bool" where
  "world_rel parts members w ob \<longleftrightarrow>
     degraded_inv parts members w \<and> heaps_in members (ffleeting ob) w \<and>
     fcells ob = cluster_abs parts members w \<and>
     fup ob = {a \<in> set members. servers w a \<noteq> None} \<and> fcuts ob = set (closed w)"

definition fsim :: "nat \<Rightarrow> tcp_addr list \<Rightarrow> net \<Rightarrow> fobj \<Rightarrow> bool" where
  "fsim parts members n ob \<longleftrightarrow> world_rel parts members (net_world n) ob \<and>
     (\<forall>i. caller_rel parts members n ob i) \<and> (\<forall>l. link_rel parts members n (floose ob) l)"

section \<open>Frames\<close>

lemma fsimD:
  assumes "fsim parts members n ob"
  shows "world_rel parts members (net_world n) ob" "caller_rel parts members n ob i"
    "link_rel parts members n (floose ob) l"
  using assms unfolding fsim_def by blast+

lemma world_relD:
  assumes "world_rel parts members w ob"
  shows "degraded_inv parts members w" "heaps_in members (ffleeting ob) w"
    "fcells ob = cluster_abs parts members w" "fup ob = {a \<in> set members. servers w a \<noteq> None}"
    "fcuts ob = set (closed w)" "partial_mesh parts members w" "members \<noteq> []"
  using assms degradedD [of parts members w] unfolding world_rel_def by blast+

lemma callerE:
  assumes "caller_rel parts members n ob i" and "tasks n (Caller i) = Some t"
  obtains st where "at_node t \<in> set members" "servers (net_world n) (at_node t) \<noteq> None" "good_request (asked t)"
    "fcalls ob i = Some st" "phase_rel parts members n i t st (phase t)"
  using assms by (auto simp: caller_rel_def)

lemma caller_asks:
  assumes "caller_rel parts members n ob i" and "tasks n (Caller i) = Some t" and "phase t = Awaiting c"
  shows "asks n (at_node t, c) i t"
  using assms by (auto simp: asks_def caller_rel_def)

lemma asks_unique: "asks n l i t \<Longrightarrow> asks n l j u \<Longrightarrow> j = i \<and> u = t"
  by (auto simp: asks_def)

lemma asks_link: "asks n l i t \<Longrightarrow> asks n l' i u \<Longrightarrow> l' = l"
  by (auto simp: asks_def prod_eq_iff)

text \<open>Who does not wait for an answer asks on no connection.\<close>

lemma asks_not:
  "(\<And>t c. tasks n (Caller i) = Some t \<Longrightarrow> phase t \<noteq> Awaiting c) \<Longrightarrow> \<not> asks n l i t"
  by (auto simp: asks_def)

text \<open>The same connection, seen from before and after a step elsewhere.\<close>

definition same_link :: "net \<Rightarrow> net \<Rightarrow> link \<Rightarrow> bool" where
  "same_link n n' l \<longleftrightarrow> holder n' l = holder n l \<and> events n' l = events n l \<and>
     replies n' l = replies n l \<and> tasks n' (Handler l) = tasks n (Handler l)"

definition same_net :: "net \<Rightarrow> net \<Rightarrow> bool" where
  "same_net n n' \<longleftrightarrow> closed (net_world n') = closed (net_world n) \<and>
     (\<forall>a. servers (net_world n') a = None \<longleftrightarrow> servers (net_world n) a = None)"

lemma same_net_cut:
  assumes "same_net n n'"
  shows "cut l n' = cut l n" "broken l n' = broken l n"
  using assms by (simp_all add: same_net_def cut_def broken_def)

lemma link_call_cong:
  assumes "same_link n n' l" and "cut l n' = cut l n"
  shows "link_call n' l req st = link_call n l req st"
  using assms unfolding same_link_def link_call_def by presburger

lemma orphan_cong:
  assumes "events n' l = events n l" and "tasks n' (Handler l) = tasks n (Handler l)"
    and "cut l n' = cut l n" and "L' l = L l"
  shows "orphan parts members n' L' l = orphan parts members n L l"
proof -
  have "orphan_served parts members n' L' l th = orphan_served parts members n L l th" for th
    by (simp add: orphan_served_def assms(4))
  moreover have "orphan_written parts members n' L' l = orphan_written parts members n L l"
    by (simp add: orphan_written_def assms(1,4))
  ultimately show ?thesis unfolding orphan_def assms(1-3) by (cases "tasks n (Handler l)") simp_all
qed

lemma link_rel_cong:
  assumes "same_link n n' l" and "cut l n' = cut l n" and "broken l n' = broken l n"
    and "servers (net_world n') (fst l) = None \<longleftrightarrow> servers (net_world n) (fst l) = None"
    and "\<And>i t. asks n' l i t = asks n l i t" and "L' l = L l"
  shows "link_rel parts members n' L' l = link_rel parts members n L l"
proof -
  have stage: "at_stage n' l req st = at_stage n l req st" for req st
    using assms(1) by (cases st) (simp_all add: same_link_def)
  have "at_fstage n' l req = at_fstage n l req" for req
    using assms(1,2) by (simp add: at_fstage_def stage same_link_def)
  moreover have "orphan parts members n' L' l = orphan parts members n L l"
    using assms(1,2,6) by (intro orphan_cong) (simp_all add: same_link_def)
  moreover have "tasks n' (Handler l) = tasks n (Handler l)" "events n' l = events n l" "replies n' l = replies n l"
    "holder n' l = holder n l"
    using assms(1) by (simp_all add: same_link_def)
  ultimately show ?thesis
    unfolding link_rel_def quiet_def assms(3-5) by simp
qed

text \<open>A step of the callers in \<open>I\<close> that changes the connections in \<open>L\<close>, on which no other caller asks.\<close>

lemma fault_frame:
  assumes sim: "fsim parts members n ob" and net: "same_net n n'"
    and callers: "\<And>j. j \<notin> I \<Longrightarrow> tasks n' (Caller j) = tasks n (Caller j) \<and> fcalls ob' j = fcalls ob j"
    and links: "\<And>l. l \<notin> L \<Longrightarrow> same_link n n' l \<and> floose ob' l = floose ob l"
    and others: "\<And>l j t. l \<in> L \<Longrightarrow> asks n l j t \<Longrightarrow> j \<in> I"
    and mine: "\<And>l j t. l \<notin> L \<Longrightarrow> j \<in> I \<Longrightarrow> \<not> asks n l j t \<and> \<not> asks n' l j t"
    and caller: "\<And>j. j \<in> I \<Longrightarrow> caller_rel parts members n' ob' j"
    and link: "\<And>l. l \<in> L \<Longrightarrow> link_rel parts members n' (floose ob') l"
    and world: "world_rel parts members (net_world n') ob'"
  shows "fsim parts members n' ob'"
proof -
  note cuts = same_net_cut [OF net]
  have "caller_rel parts members n' ob' j" for j
  proof (cases "j \<in> I")
    case False
    have old: "caller_rel parts members n ob j" by (rule fsimD(2) [OF sim])
    show ?thesis
    proof (cases "tasks n (Caller j)")
      case None
      with old callers [OF False] show ?thesis by (simp add: caller_rel_def)
    next
      case (Some t)
      have same: "same_link n n' (at_node t, c)" if "phase t = Awaiting c" for c
        using links others [OF _ caller_asks [OF old Some that]] False by blast
      have "phase_rel parts members n' j t st (phase t) = phase_rel parts members n j t st (phase t)" for st
      proof (cases "phase t")
        case (Awaiting c)
        with same [OF Awaiting] link_call_cong [OF same [OF Awaiting] cuts(1)] show ?thesis
          by (simp add: same_link_def)
      qed simp_all
      with old Some callers [OF False] net show ?thesis by (simp add: caller_rel_def same_net_def)
    qed
  qed (rule caller)
  moreover have "link_rel parts members n' (floose ob') l" for l
  proof (cases "l \<in> L")
    case False
    have "asks n' l j t = asks n l j t" for j t
    proof (cases "j \<in> I")
      case True
      with mine [OF False] show ?thesis by blast
    next
      case out: False
      with callers [OF out] links [OF False] show ?thesis by (simp add: asks_def same_link_def)
    qed
    moreover have "servers (net_world n') (fst l) = None \<longleftrightarrow> servers (net_world n) (fst l) = None"
      using net by (simp add: same_net_def)
    ultimately show ?thesis
      using link_rel_cong [OF _ cuts] links [OF False] fsimD(3) [OF sim] by metis
  qed (rule link)
  ultimately show ?thesis using world by (simp add: fsim_def)
qed

end
