(* ===== verification/Fault_Sim.thy ===== *)
theory Fault_Sim
  imports Fault_Net Concurrent_Api
begin

text \<open>
  The concurrent cluster under failures refines the table with calls that fail: one lemma for each
  kind of step, and the property of a started cluster.
\<close>

section \<open>The critical section of a store\<close>

lemma world_rel_calls [simp]:
  "world_rel parts members w (ob\<lparr>fcalls := f\<rparr>) = world_rel parts members w ob"
  "world_rel parts members w (ob\<lparr>floose := L\<rparr>) = world_rel parts members w ob"
  by (simp_all add: world_rel_def)

text \<open>The world after a store has processed a request, with the table and the keys that may fade.\<close>

lemma world_rel_put:
  assumes rel: "world_rel parts members w ob" and s: "servers w c = Some s"
    and "degraded_inv parts members (put_server c s' w)" and "heaps_in members K (put_server c s' w)"
  shows "world_rel parts members (put_server c s' w)
     (ob\<lparr>fcells := cluster_abs parts members (put_server c s' w), ffleeting := K\<rparr>)"
  using assms by (auto simp: world_rel_def)

text \<open>A request processed where it entered.\<close>

lemma served_here:
  assumes rel: "world_rel parts members w ob" and a: "a \<in> set members" and s: "servers w a = Some s"
    and rt: "rt_ok rt" and good: "good_request req"
    and here: "owner parts members (req_hash req) = a \<or> req_hash req = []" and plan: "do_plan s req = PlanLocal nd"
  obtains s' out resp m where "do_local rt s nd req = (s', Inr resp)" "answers out resp"
    "table_step (here_of parts members a) rt req (fcells ob) (m, out)"
    "world_rel parts members (put_server a s' w) (ob\<lparr>fcells := m, ffleeting := ffleeting ob \<union> temp_keys req\<rparr>)"
proof -
  note w = world_relD [OF rel]
  obtain s' r where serve: "do_local rt s nd req = (s', r)" by (cases "do_local rt s nd req")
  have two: "cluster_do 2 rt w a req = Some (put_server a s' w, r)"
    using s plan serve by (simp add: numeral_2_eq_2 cluster_do.simps(2))
  have "reaches parts members w a req" using here by (auto simp: reaches_def)
  from degraded_step [OF w(1) a _ this rt good] s two obtain out resp where
    one: "r = Inr resp" "answers out resp" "degraded_inv parts members (put_server a s' w)"
      "table_step (here_of parts members a) rt req
         (cluster_abs parts members w) (cluster_abs parts members (put_server a s' w), out)" by auto
  have "heaps_in members (ffleeting ob \<union> temp_keys req) (put_server a s' w)"
    by (rule heaps_in_local [OF w(6,2) a s serve])
  from world_rel_put [OF rel s one(3) this] that serve one w(3) show thesis by metis
qed

text \<open>A request processed by the member in charge of its key, for whoever asks.\<close>

lemma served_there:
  assumes rel: "world_rel parts members w ob" and s: "servers w c = Some s"
    and rt: "rt_ok rt" and sent: "sent_by parts members (a, c) req"
  obtains nd s' resp resp' m out where "do_plan s req = PlanLocal nd" "do_local rt s nd req = (s', Inr resp)"
    "wire_response resp = Delivered resp'" "answers out resp'" "c \<in> fup ob"
    "\<forall>here. table_step here rt req (fcells ob) (m, out)"
    "world_rel parts members (put_server c s' w) (ob\<lparr>fcells := m, ffleeting := ffleeting ob \<union> temp_keys req\<rparr>)"
proof -
  note w = world_relD [OF rel]
  have good: "good_request req" and own: "owner parts members (req_hash req) = c" and key: "req_hash req \<noteq> []"
    using sent by (simp_all add: sent_by_def asking_def)
  have c: "c \<in> set members" using owner_member [OF w(7)] own by blast
  obtain nd where plan: "do_plan s req = PlanLocal nd" "node_conn nd = None"
    using plan_at [OF w(6) s c, of req] own by metis
  let ?s = "s\<lparr>sstore := fst (process store_ops rt req (sstore s))\<rparr>"
  have serve: "do_local rt s nd req = (?s, respond nd (snd (process store_ops rt req (sstore s))))"
    by (simp add: do_local_def split_beta)
  note new = degraded_process [OF w(1) _ rt good key, of s, unfolded own, OF s]
  obtain resp resp' where r: "respond nd (snd (process store_ops rt req (sstore s))) = Inr resp"
    "wire_response resp = Delivered resp'" "answers (snd (process store_ops rt req (sstore s))) resp'"
    using respond_delivered [OF new(3) plan(2)] by blast
  have "heaps_in members (ffleeting ob \<union> temp_keys req) (put_server c ?s w)"
    by (rule heaps_in_local [OF w(6,2) c s serve])
  note rel' = world_rel_put [OF rel s new(2) this]
  have "c \<in> fup ob" using c s w(4) by simp
  with that [OF plan(1) serve [unfolded r(1)] r(2,3) _ _ rel'] new(1) w(3) show thesis by simp
qed

lemma same_net_put: "servers (net_world n) c = Some s \<Longrightarrow> net_world n' = put_server c s' (net_world n) \<Longrightarrow> same_net n n'"
  by (simp add: same_net_def)

lemma same_net_refl: "net_world n' = net_world n \<Longrightarrow> same_net n n'"
  by (simp add: same_net_def)

section \<open>Steps of callers\<close>

lemma fsim_call:
  assumes sim: "fsim parts members n ob" and "tasks n (Caller i) = None"
    and "a \<in> set members" and "good_request req" and "servers (net_world n) a \<noteq> None"
  shows "fcalls ob i = None" and "a \<in> fup ob" and
    "fsim parts members (n\<lparr>tasks := (tasks n)(Caller i \<mapsto> \<lparr>at_node = a, asked = req, phase = Routing\<rparr>)\<rparr>)
       (ob\<lparr>fcalls := (fcalls ob)(i \<mapsto> FPending a req)\<rparr>)"
proof -
  note D = fsimD [OF sim]
  show "fcalls ob i = None" using D(2) [of i] assms(2) by (simp add: caller_rel_def)
  show "a \<in> fup ob" using world_relD(4) [OF D(1)] assms(3,5) by simp
  show "fsim parts members (n\<lparr>tasks := (tasks n)(Caller i \<mapsto> \<lparr>at_node = a, asked = req, phase = Routing\<rparr>)\<rparr>)
       (ob\<lparr>fcalls := (fcalls ob)(i \<mapsto> FPending a req)\<rparr>)"
    by (rule fault_frame [OF sim same_net_refl, where I = "{i}" and L = "{}"])
       (use D(1) assms in \<open>auto simp: caller_rel_def same_link_def asks_def\<close>)
qed

lemma fsim_return:
  assumes sim: "fsim parts members n ob" and t: "tasks n (Caller i) = Some t" "phase t = Returning r"
  obtains resp where "r = Inr resp" "fcalls ob i = Some (FDone (at_node t) (asked t) resp)"
    "fsim parts members (n\<lparr>tasks := (tasks n)(Caller i := None)\<rparr>) (ob\<lparr>fcalls := (fcalls ob)(i := None)\<rparr>)"
proof -
  note D = fsimD [OF sim]
  obtain resp where r: "r = Inr resp" "fcalls ob i = Some (FDone (at_node t) (asked t) resp)"
    using callerE [OF D(2) t(1)] t(2) by auto
  have "fsim parts members (n\<lparr>tasks := (tasks n)(Caller i := None)\<rparr>) (ob\<lparr>fcalls := (fcalls ob)(i := None)\<rparr>)"
    by (rule fault_frame [OF sim same_net_refl, where I = "{i}" and L = "{}"])
       (use D(1) t in \<open>auto simp: caller_rel_def same_link_def asks_def\<close>)
  with r that show thesis by blast
qed

lemma fsim_start_caller:
  assumes sim: "fsim parts members n ob" and run: "fobj_run (owner parts members) ob0 evs ob"
    and t: "tasks n (Caller i) = Some t" "phase t = Routing"
    and s: "servers (net_world n) (at_node t) = Some s" and rt: "rt_ok rt"
  shows "\<exists>ob'. fobj_run (owner parts members) ob0 evs ob' \<and> fsim parts members (do_start rt (Caller i) t s n) ob'"
proof -
  let ?a = "at_node t" and ?req = "asked t" and ?w = "net_world n"
  let ?own = "owner parts members (req_hash (asked t))"
  note D = fsimD [OF sim] and w = world_relD [OF fsimD(1) [OF sim]]
  obtain st where c: "?a \<in> set members" "good_request ?req" "fcalls ob i = Some st"
    and st: "st = FPending ?a ?req" using callerE [OF D(2) t(1)] t(2) by auto
  have free: "\<not> asks n l i u" for l u by (rule asks_not) (auto simp: t)
  obtain nd where plan: "do_plan s ?req = (if ?own = ?a \<or> req_hash ?req = [] then PlanLocal nd else PlanForward nd ?own)"
    using plan_at [OF w(6) s c(1)] by metis
  show ?thesis
  proof (cases "?own = ?a \<or> req_hash ?req = []")
    case True
    then have plan: "do_plan s ?req = PlanLocal nd" using plan by simp
    obtain s' out resp m where r: "do_local rt s nd ?req = (s', Inr resp)" "answers out resp"
      "table_step (here_of parts members ?a) rt ?req (fcells ob) (m, out)"
      "world_rel parts members (put_server ?a s' ?w) (ob\<lparr>fcells := m, ffleeting := ffleeting ob \<union> temp_keys ?req\<rparr>)"
      by (rule served_here [OF D(1) c(1) s rt c(2) True plan])
    let ?n = "at_phase (Caller i) t (Returning (Inr resp)) (n\<lparr>net_world := put_server ?a s' ?w\<rparr>)"
    let ?ob = "ob\<lparr>fcells := m, ffleeting := ffleeting ob \<union> temp_keys ?req, fcalls := (fcalls ob)(i \<mapsto> FDone ?a ?req resp)\<rparr>"
    have "?a \<in> fup ob" using c(1) s w(4) by simp
    then have "fobj_run (owner parts members) ob0 evs ?ob"
      using fobj_effect [OF run c(3) [unfolded st] rt _ r(3,2)] True by auto
    moreover have "fsim parts members ?n ?ob"
      by (rule fault_frame [OF sim same_net_put [OF s], where I = "{i}" and L = "{}"])
         (use r(4) c s free in \<open>auto simp: caller_rel_def same_link_def asks_def at_phase_def world_rel_def\<close>)
    moreover have "do_start rt (Caller i) t s n = ?n" by (simp add: do_start_def plan r(1))
    ultimately show ?thesis by metis
  next
    case False
    let ?n = "at_phase (Caller i) t (Waiting ?own) n"
    have "fsim parts members ?n ob"
      by (rule fault_frame [OF sim same_net_refl, where I = "{i}" and L = "{}"])
         (use D(1) c st s free False in \<open>auto simp: caller_rel_def same_link_def asks_def at_phase_def asking_def\<close>)
    moreover have "do_start rt (Caller i) t s n = ?n" using False by (auto simp: do_start_def plan)
    ultimately show ?thesis using run by metis
  qed
qed

text \<open>A request that was sent is understood by its peer.\<close>

lemma sent_event:
  assumes "sent_by parts members l req"
  obtains ev where "encode_event req = Some ev" "handle_event ev = HRequest req"
proof -
  have wire: "wire_request req = Some req"
    using assms good_clean [of req] by (auto simp: sent_by_def asking_def intro: wire_clean_request)
  then obtain ev where ev: "encode_event req = Some ev"
    using wire_request_None [of req] by (auto simp: encode_event_def)
  obtain req' where "wire_request req = Some req'" "handle_event ev = HRequest req'"
    by (rule encode_handle [OF ev])
  with wire ev that show thesis by simp
qed

text \<open>The node in charge cannot be reached over a connection that is cut.\<close>

lemma cut_parted:
  assumes "world_rel parts members (net_world n) ob" and "asking parts members a req c" and "cut (a, c) n"
  shows "parted (owner parts members) ob a req"
  using assms world_relD(4,5) [OF assms(1)] by (auto simp: parted_def asking_def cut_def)

lemma fsim_send:
  assumes sim: "fsim parts members n ob" and run: "fobj_run (owner parts members) ob0 evs ob"
    and t: "tasks n (Caller i) = Some t" "phase t = Waiting c" and free: "holder n (at_node t, c) = None"
  shows "\<exists>ob'. fobj_run (owner parts members) ob0 evs ob' \<and> fsim parts members (send_event (Caller i) t c n) ob'"
proof -
  let ?a = "at_node t" and ?l = "(at_node t, c)" and ?req = "asked t"
  note D = fsimD [OF sim] and w = world_relD [OF fsimD(1) [OF sim]]
  obtain st where a: "?a \<in> set members" "servers (net_world n) ?a \<noteq> None" "good_request ?req"
    "fcalls ob i = Some (FPending ?a ?req)" "asking parts members ?a ?req c"
    using callerE [OF D(2) t(1)] t(2) by auto
  have idle: "\<not> asks n l i u" for l u by (rule asks_not) (auto simp: t)
  obtain ev where ev: "encode_event ?req = Some ev"
    using sent_event [of parts members ?l ?req] a(3,5) by (auto simp: sent_by_def)
  show ?thesis
  proof (cases "cut ?l n")
    case True
    let ?n = "at_phase (Caller i) t (Returning (Inr unreached)) n"
    let ?ob = "ob\<lparr>fcalls := (fcalls ob)(i \<mapsto> FDone ?a ?req unreached)\<rparr>"
    have "fobj_run (owner parts members) ob0 evs ?ob"
      by (rule fobj_refuse [OF run a(4) cut_parted [OF D(1) a(5) True]])
    moreover have "fsim parts members ?n ?ob"
      by (rule fault_frame [OF sim same_net_refl, where I = "{i}" and L = "{}"])
         (use D(1) a idle in \<open>auto simp: caller_rel_def same_link_def asks_def at_phase_def\<close>)
    moreover have "send_event (Caller i) t c n = ?n"
      using True by (simp add: send_event_def Let_def ev unreached_def)
    ultimately show ?thesis by metis
  next
    case False
    let ?n = "at_phase (Caller i) t (Awaiting c)
        (n\<lparr>holder := (holder n)(?l \<mapsto> Caller i), events := (events n)(?l := events n ?l @ [ev])\<rparr>)"
    have "\<not> broken ?l n" using False a(2) by (simp add: broken_def)
    moreover have "\<not> asks n ?l j u" for j u using free by (simp add: asks_def)
    ultimately have quiet: "quiet n ?l" using D(3) [of ?l] by (simp add: link_rel_def)
    have asks: "asks ?n ?l j u \<longleftrightarrow> j = i \<and> u = t\<lparr>phase := Awaiting c\<rparr>" for j u
      by (auto simp: asks_def at_phase_def)
    have "at_stage ?n ?l ?req Written" using quiet ev by (simp add: quiet_def at_phase_def)
    then have "at_fstage ?n ?l ?req" unfolding at_fstage_def by blast
    then have link: "link_rel parts members ?n (floose ob) ?l" by (auto simp: link_rel_def asks)
    have "fsim parts members ?n ob"
    proof (rule fault_frame [OF sim same_net_refl, where I = "{i}" and L = "{?l}"])
      show "caller_rel parts members ?n ob j" if "j \<in> {i}" for j
        using that a quiet by (simp add: caller_rel_def at_phase_def link_call_def quiet_def)
    qed (use D(1) free idle link in \<open>auto simp: same_link_def asks_def at_phase_def\<close>)
    moreover have "send_event (Caller i) t c n = ?n"
      using False by (simp add: send_event_def Let_def ev)
    ultimately show ?thesis using run by metis
  qed
qed

text \<open>A caller that waits for an answer.\<close>

lemma awaitingE:
  assumes sim: "fsim parts members n ob" and t: "tasks n (Caller i) = Some t" "phase t = Awaiting c"
  obtains st where "asks n (at_node t, c) i t" "at_fstage n (at_node t, c) (asked t)"
    "sent_by parts members (at_node t, c) (asked t)" "asking parts members (at_node t) (asked t) c"
    "fcalls ob i = Some st" "link_call n (at_node t, c) (asked t) st"
    "at_node t \<in> set members" "servers (net_world n) (at_node t) \<noteq> None" "good_request (asked t)"
proof -
  note D = fsimD [OF sim]
  obtain st where st: "at_node t \<in> set members" "servers (net_world n) (at_node t) \<noteq> None" "good_request (asked t)"
    "fcalls ob i = Some st" "phase_rel parts members n i t st (phase t)"
    by (rule callerE [OF D(2) t(1)])
  then have c: "asking parts members (at_node t) (asked t) c" "link_call n (at_node t, c) (asked t) st"
    by (simp_all add: t(2))
  have asks: "asks n (at_node t, c) i t" by (rule caller_asks [OF D(2) t])
  then have "at_fstage n (at_node t, c) (asked t)" using D(3) [of "(at_node t, c)"] by (auto simp: link_rel_def)
  with that asks c st show thesis by (simp add: sent_by_def)
qed

text \<open>The answer, or the end of the connection, is read: nobody asks on it any more.\<close>

lemma taken_rel:
  assumes sim: "fsim parts members n ob" and asks: "asks n (at_node t, c) i t"
    and call: "at_node t \<in> set members" "servers (net_world n) (at_node t) \<noteq> None" "good_request (asked t)"
    and rest: "replies n (at_node t, c) = m # [] \<or> replies n (at_node t, c) = []"
    and link: "if broken (at_node t, c) n then orphan parts members n L (at_node t, c)
       else events n (at_node t, c) = [] \<and> tasks n (Handler (at_node t, c)) = None"
    and L: "\<And>l. l \<noteq> (at_node t, c) \<Longrightarrow> L l = floose ob l"
  shows "fsim parts members (take_reply (Caller i) t c r n)
     (ob\<lparr>fcalls := (fcalls ob)(i \<mapsto> FDone (at_node t) (asked t) (do_forwarded r)), floose := L\<rparr>)"
proof -
  let ?l = "(at_node t, c)"
  let ?n = "take_reply (Caller i) t c r n"
  let ?ob = "ob\<lparr>fcalls := (fcalls ob)(i \<mapsto> FDone (at_node t) (asked t) (do_forwarded r)), floose := L\<rparr>"
  have n: "holder ?n = (holder n)(?l := None)" "events ?n = events n" "replies ?n = (replies n)(?l := [])"
    "tasks ?n = (tasks n)(Caller i \<mapsto> t\<lparr>phase := Returning (Inr (do_forwarded r))\<rparr>)" "net_world ?n = net_world n"
    using rest by (auto simp: take_reply_def at_phase_def Let_def)
  have none: "\<not> asks ?n ?l j u" for j u by (simp add: asks_def n)
  note cuts = same_net_cut [OF same_net_refl [OF n(5)]]
  have "orphan parts members ?n L ?l = orphan parts members n L ?l"
    by (rule orphan_cong) (simp_all add: n cuts)
  then have link': "link_rel parts members ?n L ?l"
    using link none by (simp add: link_rel_def quiet_def n(1-4) cuts)
  show ?thesis
  proof (rule fault_frame [OF sim same_net_refl [OF n(5)], where I = "{i}" and L = "{?l}"])
    show "\<not> asks n l j u \<and> \<not> asks ?n l j u" if "l \<notin> {?l}" "j \<in> {i}" for l j u
      using that asks_link [OF asks, of l u] by (auto simp: asks_def n)
    show "j \<in> {i}" if "l \<in> {?l}" "asks n l j u" for l j u
      using that asks_unique [OF asks] by auto
    show "world_rel parts members (net_world ?n) ?ob" using fsimD(1) [OF sim] by (simp add: n)
    show "caller_rel parts members ?n ?ob j" if "j \<in> {i}" for j
      using that call by (simp add: caller_rel_def n)
    show "link_rel parts members ?n (floose ?ob) l" if "l \<in> {?l}" for l
      using that link' by simp
  qed (use L in \<open>auto simp: same_link_def n\<close>)
qed

lemma fsim_take:
  assumes sim: "fsim parts members n ob" and t: "tasks n (Caller i) = Some t" "phase t = Awaiting c"
    and m: "replies n (at_node t, c) = m # ms"
  shows "fsim parts members (take_reply (Caller i) t c m n) ob"
proof -
  let ?l = "(at_node t, c)"
  obtain st where c: "asks n ?l i t" "at_fstage n ?l (asked t)" "fcalls ob i = Some st" "link_call n ?l (asked t) st"
    "at_node t \<in> set members" "servers (net_world n) (at_node t) \<noteq> None" "good_request (asked t)"
    by (rule awaitingE [OF sim t])
  obtain resp where r: "m = Inr resp" "ms = []" "events n ?l = []" "tasks n (Handler ?l) = None"
  proof -
    from c(2) m obtain st where "at_stage n ?l (asked t) st" by (auto simp: at_fstage_def)
    with m that show thesis by (cases st) auto
  qed
  have "st = FDone (at_node t) (asked t) resp" using c(4) m r(1) by (simp add: link_call_def)
  then have "ob\<lparr>fcalls := (fcalls ob)(i \<mapsto> FDone (at_node t) (asked t) (do_forwarded m)), floose := floose ob\<rparr> = ob"
    using c(3) r(1) by (cases ob) (auto simp: fun_upd_idem_iff)
  with taken_rel [OF sim c(1,5-7), of m "floose ob" m] m r show ?thesis by (simp add: orphan_def)
qed

lemma fsim_eof:
  assumes sim: "fsim parts members n ob" and run: "fobj_run (owner parts members) ob0 evs ob"
    and t: "tasks n (Caller i) = Some t" "phase t = Awaiting c"
    and none: "replies n (at_node t, c) = []" and cut: "cut (at_node t, c) n"
  shows "\<exists>ob'. fobj_run (owner parts members) ob0 evs ob' \<and>
     fsim parts members (take_reply (Caller i) t c (Inl eof_error) n) ob'"
proof -
  let ?a = "at_node t" and ?req = "asked t"
  let ?l = "(?a, c)" and ?n = "take_reply (Caller i) t c (Inl eof_error) n"
  let ?calls = "(fcalls ob)(i \<mapsto> FDone ?a ?req unreached)"
  obtain st where k: "asks n ?l i t" "at_fstage n ?l ?req" "sent_by parts members ?l ?req" "asking parts members ?a ?req c"
    "fcalls ob i = Some st" "link_call n ?l ?req st"
    "?a \<in> set members" "servers (net_world n) ?a \<noteq> None" "good_request ?req"
    by (rule awaitingE [OF sim t])
  have parted: "parted (owner parts members) ob ?a ?req"
    by (rule cut_parted [OF fsimD(1) [OF sim] k(4) cut])
  have own: "owner parts members (req_hash ?req) = c" using k(4) by (simp add: asking_def)
  have eof: "do_forwarded (Inl eof_error) = unreached" by (simp add: unreached_def)
  have served: "at_node th = c \<and> asked th = ?req \<and>
      (phase th = Routing \<and> st = FPending ?a ?req \<or>
       (\<exists>resp resp'. phase th = Returning (Inr resp) \<and> wire_response resp = Delivered resp'))"
    if th: "tasks n (Handler ?l) = Some th" for th
  proof -
    from k(2) th obtain sg where "at_stage n ?l ?req sg" by (auto simp: at_fstage_def)
    with th none have "at_stage n ?l ?req (Served th)" by (cases sg) auto
    with k(6) th none show ?thesis by (auto simp: link_call_def)
  qed
  have orphan: "orphan parts members n L ?l"
    if "st = FPending ?a ?req \<Longrightarrow> L ?l = Some ?req" for L
  proof (cases "tasks n (Handler ?l)")
    case (Some th)
    have "at_node th = snd ?l" "asked th = ?req" using served [OF Some] by simp_all
    moreover have "phase th = Routing \<and> L ?l = Some (asked th) \<or>
        (\<exists>resp resp'. phase th = Returning (Inr resp) \<and> wire_response resp = Delivered resp')"
      using served [OF Some] that by auto
    ultimately have "orphan_served parts members n L ?l th"
      unfolding orphan_served_def using k(3) by simp
    with Some cut show ?thesis by (simp add: orphan_def)
  qed (use cut in \<open>simp add: orphan_def\<close>)
  have broken: "broken ?l n" using cut by (simp add: broken_def)
  have "st = FPending ?a ?req \<or> (\<exists>resp. st = FDone ?a ?req resp)"
    using k(6) none by (auto simp: link_call_def split: option.splits phase.splits sum.splits)
  then show ?thesis
  proof
    assume st: "st = FPending ?a ?req"
    have "fobj_run (owner parts members) ob0 evs (ob\<lparr>fcalls := ?calls, floose := (floose ob)(?l \<mapsto> ?req)\<rparr>)"
      using fobj_abandon [OF run k(5) [unfolded st] parted] own by simp
    moreover have "fsim parts members ?n (ob\<lparr>fcalls := ?calls, floose := (floose ob)(?l \<mapsto> ?req)\<rparr>)"
      using taken_rel [OF sim k(1,7-9), of undefined "(floose ob)(?l \<mapsto> ?req)" "Inl eof_error"] none broken orphan
      unfolding eof by simp
    ultimately show ?thesis by blast
  next
    assume "\<exists>resp. st = FDone ?a ?req resp"
    then obtain resp where st: "st = FDone ?a ?req resp" by blast
    have "fobj_run (owner parts members) ob0 evs (ob\<lparr>fcalls := ?calls\<rparr>)"
      by (rule fobj_lost [OF run k(5) [unfolded st] parted])
    moreover have "fsim parts members ?n (ob\<lparr>fcalls := ?calls, floose := floose ob\<rparr>)"
      using taken_rel [OF sim k(1,7-9), of undefined "floose ob" "Inl eof_error"] none broken orphan [of "floose ob"] st
      unfolding eof by simp
    moreover have "ob\<lparr>fcalls := ?calls, floose := floose ob\<rparr> = ob\<lparr>fcalls := ?calls\<rparr>" by simp
    ultimately show ?thesis by metis
  qed
qed

section \<open>Steps of handlers\<close>

lemma handlerE:
  assumes sim: "fsim parts members n ob" and th: "tasks n (Handler l) = Some th"
  obtains (asked) i t st where "asks n l i t" "at_stage n l (asked t) (Served th)" "sent_by parts members l (asked t)"
      "fcalls ob i = Some st" "link_call n l (asked t) st"
      "fst l \<in> set members" "servers (net_world n) (fst l) \<noteq> None" "good_request (asked t)"
    | (left) "\<And>i t. \<not> asks n l i t" "broken l n" "orphan_served parts members n (floose ob) l th"
      "cut l n \<or> events n l = []"
proof (cases "\<exists>i t. asks n l i t")
  case True
  then obtain i t where asks: "asks n l i t" by blast
  then have t: "tasks n (Caller i) = Some t" "phase t = Awaiting (snd l)" "(at_node t, snd l) = l"
    by (auto simp: asks_def)
  obtain st where k: "at_fstage n l (asked t)" "sent_by parts members l (asked t)"
    "fcalls ob i = Some st" "link_call n l (asked t) st" "at_node t \<in> set members"
    "servers (net_world n) (at_node t) \<noteq> None" "good_request (asked t)"
    using awaitingE [OF sim t(1,2), unfolded t(3)] by metis
  from k(1) th obtain sg where sg: "at_stage n l (asked t) sg" by (auto simp: at_fstage_def)
  with th have "sg = Served th" by (cases sg) auto
  moreover have "at_node t = fst l" using t(3) by (metis fst_conv)
  ultimately show thesis using asked asks sg k by metis
next
  case False
  with fsimD(3) [OF sim, of l] th left show thesis
    by (auto simp: link_rel_def orphan_def quiet_def split: if_splits)
qed

lemma fserved_reads:
  assumes "fsim parts members n ob" and "tasks n (Handler l) = Some th"
  shows "reads (asked th) r r' \<longleftrightarrow> r' = r"
proof -
  from assms have "req_hash (asked th) \<noteq> []"
  proof (cases rule: handlerE)
    case (asked i t st)
    then show ?thesis by (simp add: sent_by_def asking_def)
  qed (simp add: orphan_served_def sent_by_def asking_def)
  then show ?thesis by (rule reads_plain)
qed

lemma handler_phase:
  assumes "fsim parts members n ob" and "tasks n (Handler l) = Some th"
  shows "phase th = Routing \<or> (\<exists>resp resp'. phase th = Returning (Inr resp) \<and> wire_response resp = Delivered resp')"
  using assms by (cases rule: handlerE) (auto simp: orphan_served_def)

text \<open>A step of a handler, for a caller or for nobody.\<close>

lemma handler_frame:
  assumes sim: "fsim parts members n ob" and net: "same_net n n'"
    and tasks: "\<And>j. tasks n' (Caller j) = tasks n (Caller j)" and holder: "holder n' = holder n"
    and links: "\<And>l'. l' \<noteq> l \<Longrightarrow> same_link n n' l' \<and> floose ob' l' = floose ob l'"
    and calls: "\<And>j. (\<And>t. \<not> asks n l j t) \<Longrightarrow> fcalls ob' j = fcalls ob j"
    and asked: "\<And>i t. asks n l i t \<Longrightarrow> at_fstage n' l (asked t) \<and> (\<exists>st. fcalls ob' i = Some st \<and> link_call n' l (asked t) st)"
    and left: "(\<And>i t. \<not> asks n l i t) \<Longrightarrow> broken l n \<and> orphan parts members n' (floose ob') l"
    and world: "world_rel parts members (net_world n') ob'"
  shows "fsim parts members n' ob'"
proof -
  have asks: "asks n' l' j t = asks n l' j t" for l' j t by (simp add: asks_def tasks holder)
  have link: "link_rel parts members n' (floose ob') l"
    using asked left fsimD(3) [OF sim, of l] net
    by (auto simp: link_rel_def asks holder same_net_cut(2) [OF net] same_net_def)
  show ?thesis
  proof (rule fault_frame [OF sim net, where I = "{i. \<exists>t. asks n l i t}" and L = "{l}"])
    show "\<not> asks n l' j t \<and> \<not> asks n' l' j t" if "l' \<notin> {l}" "j \<in> {i. \<exists>t. asks n l i t}" for l' j t
      using that asks_link [of n l j _ l' t] by (auto simp: asks)
    show "caller_rel parts members n' ob' j" if j: "j \<in> {i. \<exists>t. asks n l i t}" for j
    proof -
      obtain t where t: "asks n l j t" using j by blast
      then have u: "tasks n (Caller j) = Some t" "phase t = Awaiting (snd l)" "(at_node t, snd l) = l"
        "holder n l = Some (Caller j)" by (auto simp: asks_def)
      have "caller_rel parts members n ob j" by (rule fsimD(2) [OF sim])
      with asked [OF t] u net tasks holder show ?thesis by (auto simp: caller_rel_def same_net_def)
    qed
  qed (use tasks links calls link world in auto)
qed

lemma fsim_start_handler:
  assumes sim: "fsim parts members n ob" and run: "fobj_run (owner parts members) ob0 evs ob"
    and th: "tasks n (Handler l) = Some th" "phase th = Routing"
    and s: "servers (net_world n) (at_node th) = Some s" and rt: "rt_ok rt"
  shows "\<exists>ob'. fobj_run (owner parts members) ob0 evs ob' \<and> fsim parts members (do_start rt (Handler l) th s n) ob'"
proof -
  let ?c = "snd l" and ?req = "asked th" and ?w = "net_world n"
  note D = fsimD [OF sim]
  have at: "at_node th = ?c" and sent: "sent_by parts members (fst l, ?c) ?req"
    using sim th(1) by (cases rule: handlerE; auto simp: orphan_served_def)+
  have s: "servers ?w ?c = Some s" using s at by simp
  obtain nd s' resp resp' m out where r: "do_plan s ?req = PlanLocal nd" "do_local rt s nd ?req = (s', Inr resp)"
    "wire_response resp = Delivered resp'" "answers out resp'" "?c \<in> fup ob"
    "\<forall>here. table_step here rt ?req (fcells ob) (m, out)"
    "world_rel parts members (put_server ?c s' ?w) (ob\<lparr>fcells := m, ffleeting := ffleeting ob \<union> temp_keys ?req\<rparr>)"
    by (rule served_there [OF D(1) s rt sent])
  let ?n = "at_phase (Handler l) th (Returning (Inr resp)) (n\<lparr>net_world := put_server ?c s' ?w\<rparr>)"
  let ?ob = "ob\<lparr>fcells := m, ffleeting := ffleeting ob \<union> temp_keys ?req\<rparr>"
  have own: "owner parts members (req_hash ?req) = ?c" using sent by (simp add: sent_by_def asking_def)
  have step: "do_start rt (Handler l) th s n = ?n" by (simp add: do_start_def r(1,2) at)
  have n: "holder ?n = holder n" "events ?n = events n" "replies ?n = replies n"
    "tasks ?n = (tasks n)(Handler l \<mapsto> th\<lparr>phase := Returning (Inr resp)\<rparr>)" "net_world ?n = put_server ?c s' ?w"
    by (simp_all add: at_phase_def)
  note net = same_net_put [OF s n(5)]
  note frame = handler_frame [OF sim net, where l = l]
  from sim th(1) show ?thesis
  proof (cases rule: handlerE)
    case (asked i t st)
    have eq: "asked t = ?req" "events n l = []" "replies n l = []" using asked(2) by simp_all
    have st: "st = FPending (fst l) ?req" using asked(5) th eq by (simp add: link_call_def)
    let ?ob = "?ob\<lparr>fcalls := (fcalls ob)(i \<mapsto> FDone (fst l) ?req resp')\<rparr>"
    have "fobj_run (owner parts members) ob0 evs ?ob"
      using fobj_effect [OF run asked(4) [unfolded st] rt _ spec [OF r(6)] r(4)] r(5) own by simp
    moreover have "fsim parts members ?n ?ob"
    proof (rule frame)
      show "at_fstage ?n l (asked u) \<and> (\<exists>st. fcalls ?ob j = Some st \<and> link_call ?n l (asked u) st)"
        if "asks n l j u" for j u
      proof -
        have u: "j = i" "u = t" using asks_unique [OF asked(1) that] by simp_all
        have "at_stage ?n l ?req (Served (th\<lparr>phase := Returning (Inr resp)\<rparr>))"
          using eq r(3) at by (simp add: n)
        then have "at_fstage ?n l ?req" unfolding at_fstage_def by blast
        moreover have "link_call ?n l ?req (FDone (fst l) ?req resp')"
          using eq r(3) by (simp add: link_call_def n)
        ultimately show ?thesis by (simp add: u eq)
      qed
      show "fcalls ?ob j = fcalls ob j" if "\<And>u. \<not> asks n l j u" for j
        using that asked(1) by auto
    qed (use n r(7) asked(1) in \<open>auto simp: same_link_def\<close>)
    ultimately show ?thesis unfolding step by blast
  next
    case left
    have "floose ob l = Some ?req" using left(3) th(2) by (auto simp: orphan_served_def)
    from fobj_late [OF run this rt own r(5) spec [OF r(6)]]
    have "fobj_run (owner parts members) ob0 evs (?ob\<lparr>floose := (floose ob)(l := None)\<rparr>)" by simp
    moreover have "fsim parts members ?n (?ob\<lparr>floose := (floose ob)(l := None)\<rparr>)"
    proof (rule frame)
      have "orphan parts members ?n ((floose ob)(l := None)) l"
        using left(4) sent r(3) at same_net_cut(1) [OF net]
        by (auto simp: orphan_def orphan_served_def n)
      then show "broken l n \<and> orphan parts members ?n (floose (?ob\<lparr>floose := (floose ob)(l := None)\<rparr>)) l"
        using left(2) by simp
    qed (use n r(7) left(1) in \<open>auto simp: same_link_def\<close>)
    ultimately show ?thesis unfolding step by blast
  qed
qed

lemma fsim_read:
  assumes sim: "fsim parts members n ob" and idle: "tasks n (Handler l) = None" and ev: "events n l = ev # evs"
    and open': "\<not> cut l n"
  shows "fsim parts members (read_event l ev n) ob"
proof -
  have written: "evs = [] \<and> (\<exists>req. handle_event ev = HRequest req \<and> sent_by parts members l req \<and>
      (\<forall>i t. asks n l i t \<longrightarrow> asked t = req \<and> replies n l = []) \<and>
      ((\<forall>i t. \<not> asks n l i t) \<longrightarrow> broken l n \<and> floose ob l = Some req))"
  proof (cases "\<exists>i t. asks n l i t")
    case True
    then obtain i t where asks: "asks n l i t" by blast
    then have t: "tasks n (Caller i) = Some t" "phase t = Awaiting (snd l)" "(at_node t, snd l) = l"
      by (auto simp: asks_def)
    have k: "at_fstage n l (asked t)" "sent_by parts members l (asked t)"
      using awaitingE [OF sim t(1,2), unfolded t(3)] by metis+
    from k(1) open' obtain sg where "at_stage n l (asked t) sg" by (auto simp: at_fstage_def)
    with ev idle have w: "encode_event (asked t) = Some ev" "evs = []" "replies n l = []" by (cases sg; auto)+
    have "handle_event ev = HRequest (asked t)" using sent_event [OF k(2)] w(1) by auto
    with asks w k(2) show ?thesis using asks_unique [OF asks] by metis
  next
    case False
    with fsimD(3) [OF sim, of l] ev idle open' have o: "broken l n" "orphan_written parts members n (floose ob) l"
      by (auto simp: link_rel_def orphan_def quiet_def split: if_splits)
    then obtain req where req: "evs = []" "encode_event req = Some ev" "sent_by parts members l req" "floose ob l = Some req"
      using ev by (auto simp: orphan_written_def)
    have "handle_event ev = HRequest req" using sent_event [OF req(3)] req(2) by auto
    with req o(1) False show ?thesis by blast
  qed
  then obtain req where req: "evs = []" "handle_event ev = HRequest req" "sent_by parts members l req"
    "\<And>i t. asks n l i t \<Longrightarrow> asked t = req \<and> replies n l = []"
    "(\<And>i t. \<not> asks n l i t) \<Longrightarrow> broken l n \<and> floose ob l = Some req" by blast
  let ?th = "\<lparr>at_node = snd l, asked = req, phase = Routing\<rparr>" and ?n = "read_event l ev n"
  have n: "holder ?n = holder n" "events ?n = (events n)(l := [])" "replies ?n = replies n"
    "tasks ?n = (tasks n)(Handler l \<mapsto> ?th)" "net_world ?n = net_world n"
    using ev req(1) by (simp_all add: read_event_def req(2))
  show ?thesis
  proof (rule handler_frame [OF sim same_net_refl [OF n(5)], where l = l])
    show "at_fstage ?n l (asked t) \<and> (\<exists>st. fcalls ob i = Some st \<and> link_call ?n l (asked t) st)"
      if asks: "asks n l i t" for i t
    proof -
      have t: "tasks n (Caller i) = Some t" "phase t = Awaiting (snd l)" "(at_node t, snd l) = l"
        using asks by (auto simp: asks_def)
      obtain st where st: "fcalls ob i = Some st" "link_call n l (asked t) st"
        using awaitingE [OF sim t(1,2), unfolded t(3)] by metis
      have "at_stage ?n l (asked t) (Served ?th)" using req(4) [OF asks] by (simp add: n)
      moreover have "link_call ?n l (asked t) st" using st(2) req(4) [OF asks] idle open' by (simp add: link_call_def n)
      ultimately show ?thesis using st(1) unfolding at_fstage_def by blast
    qed
    show "broken l n \<and> orphan parts members ?n (floose ob) l" if "\<And>i t. \<not> asks n l i t"
      using req(3,5) that by (simp add: orphan_def orphan_served_def n)
  qed (use n fsimD(1) [OF sim] in \<open>auto simp: same_link_def\<close>)
qed

lemma fsim_reply:
  assumes sim: "fsim parts members n ob" and th: "tasks n (Handler l) = Some th" "phase th = Returning r"
  shows "fsim parts members (write_reply l r n) ob"
proof -
  obtain resp resp' where r: "r = Inr resp" "wire_response resp = Delivered resp'"
    using handler_phase [OF sim th(1)] th(2) by auto
  let ?n = "write_reply l r n"
  have n: "holder ?n = holder n" "events ?n = events n" "replies ?n = (replies n)(l := replies n l @ [Inr resp'])"
    "tasks ?n = (tasks n)(Handler l := None)" "net_world ?n = net_world n"
    by (simp_all add: write_reply_def r)
  note frame = handler_frame [OF sim same_net_refl [OF n(5)], where l = l]
  from sim th(1) show ?thesis
  proof (cases rule: handlerE)
    case (asked i t st)
    have eq: "events n l = []" "replies n l = []" using asked(2) by simp_all
    show ?thesis
    proof (rule frame)
      show "at_fstage ?n l (asked u) \<and> (\<exists>st. fcalls ob j = Some st \<and> link_call ?n l (asked u) st)"
        if "asks n l j u" for j u
      proof -
        have u: "j = i" "u = t" using asks_unique [OF asked(1) that] by simp_all
        have "at_stage ?n l (asked t) (Replied resp')" using eq by (simp add: n)
        then have "at_fstage ?n l (asked t)" unfolding at_fstage_def by blast
        moreover have "st = FDone (fst l) (asked t) resp'"
          using asked(5) eq th r by (simp add: link_call_def)
        then have "link_call ?n l (asked t) st" unfolding link_call_def n(3) using eq(2) by simp
        ultimately show ?thesis using asked(4) by (simp add: u)
      qed
    qed (use n asked(1) fsimD(1) [OF sim] in \<open>auto simp: same_link_def\<close>)
  next
    case left
    show ?thesis
    proof (rule frame)
      have "cut l ?n = cut l n" by (rule same_net_cut(1) [OF same_net_refl [OF n(5)]])
      then show "broken l n \<and> orphan parts members ?n (floose ob) l"
        using left(2,4) by (auto simp: orphan_def n)
    qed (use n left(1) fsimD(1) [OF sim] in \<open>auto simp: same_link_def\<close>)
  qed
qed

section \<open>Timers\<close>

lemma fsim_background:
  assumes sim: "fsim parts members n ob" and s: "servers (net_world n) b = Some s" and f: "fades (sstore s) st"
  shows "\<exists>K \<subseteq> ffleeting ob. fsim parts members ((put_store b s st n)\<lparr>callbacks := cbs\<rparr>)
           (ob\<lparr>fcells := fcells ob |` (- K)\<rparr>)"
proof -
  let ?n = "(put_store b s st n)\<lparr>callbacks := cbs\<rparr>"
  note w = world_relD [OF fsimD(1) [OF sim]]
  note new = fades_degraded [OF w(1,2) s f]
  have nw: "net_world ?n = put_server b (s\<lparr>sstore := st\<rparr>) (net_world n)" by (simp add: put_store_def)
  obtain K where K: "K \<subseteq> ffleeting ob" "cluster_abs parts members (net_world ?n) = fcells ob |` (- K)"
    using new(3) w(3) nw by auto
  have "world_rel parts members (net_world ?n) (ob\<lparr>fcells := fcells ob |` (- K)\<rparr>)"
    using new(1,2) K(2) s w(4,5) by (auto simp: world_rel_def nw)
  then have "fsim parts members ?n (ob\<lparr>fcells := fcells ob |` (- K)\<rparr>)"
    by (intro fault_frame [OF sim same_net_put [OF s nw], where I = "{}" and L = "{}"])
       (auto simp: same_link_def put_store_def)
  with K(1) show ?thesis by blast
qed

section \<open>Failures\<close>

text \<open>What a connection keeps when others break, or it does.\<close>

lemma orphan_mono:
  assumes "orphan parts members n L l" and "events n' l = events n l"
    and "tasks n' (Handler l) = tasks n (Handler l) \<or> tasks n' (Handler l) = None \<and> cut l n'"
    and "cut l n \<Longrightarrow> cut l n'" and "L' l = L l"
  shows "orphan parts members n' L' l"
  using assms(3)
proof
  assume same: "tasks n' (Handler l) = tasks n (Handler l)"
  show ?thesis
  proof (cases "tasks n (Handler l)")
    case (Some th)
    with assms same show ?thesis by (auto simp: orphan_def orphan_served_def)
  next
    case None
    with assms same show ?thesis by (auto simp: orphan_def orphan_written_def)
  qed
qed (simp add: orphan_def)

lemma quiet_orphan:
  "quiet n l \<Longrightarrow> events n' l = events n l \<Longrightarrow>
     tasks n' (Handler l) = tasks n (Handler l) \<or> tasks n' (Handler l) = None \<Longrightarrow> orphan parts members n' L l"
  by (auto simp: quiet_def orphan_def)

lemma stage_mono:
  assumes "at_fstage n l req" and "events n' l = events n l" and "replies n' l = replies n l"
    and "tasks n' (Handler l) = tasks n (Handler l) \<or> tasks n' (Handler l) = None \<and> cut l n'"
    and "cut l n \<Longrightarrow> cut l n'"
  shows "at_fstage n' l req"
proof -
  consider (stage) st where "at_stage n l req st" | (lost) "cut l n" "replies n l = []" "tasks n (Handler l) = None"
    using assms(1) unfolding at_fstage_def by (elim disjE exE conjE)
  then show ?thesis
  proof cases
    case lost
    with assms show ?thesis by (auto simp: at_fstage_def)
  next
    case stage
    show ?thesis
    proof (cases "tasks n' (Handler l) = tasks n (Handler l)")
      case True
      then have "at_stage n' l req st" using stage assms(2,3) by (cases st) simp_all
      then show ?thesis unfolding at_fstage_def by blast
    next
      case False
      then have "tasks n' (Handler l) = None" "cut l n'" using assms(4) by auto
      then show ?thesis using stage assms(2,3) False by (cases st) (auto simp: at_fstage_def)
    qed
  qed
qed

lemma call_mono:
  assumes "link_call n l req st" and "at_fstage n l req" and "replies n' l = replies n l"
    and "tasks n' (Handler l) = tasks n (Handler l) \<or> tasks n' (Handler l) = None \<and> cut l n'"
    and "cut l n \<Longrightarrow> cut l n'"
  shows "link_call n' l req st"
proof (cases "replies n l = []")
  case True
  with assms(1) have "st = FPending (fst l) req \<or> (\<exists>resp. st = FDone (fst l) req resp)"
    by (auto simp: link_call_def split: option.splits phase.splits sum.splits)
  moreover have ?thesis if "tasks n' (Handler l) = tasks n (Handler l)"
    using assms(1,3,5) True that by (cases "tasks n (Handler l)") (auto simp: link_call_def)
  ultimately show ?thesis using assms(3,4) True by (auto simp: link_call_def)
next
  case False
  with assms(1,3) show ?thesis by (simp add: link_call_def)
qed

lemma fsim_break:
  assumes sim: "fsim parts members n ob"
  shows "fsim parts members (n\<lparr>net_world := close_link (fst l0) (snd l0) (net_world n)\<rparr>) (ob\<lparr>fcuts := insert l0 (fcuts ob)\<rparr>)"
proof -
  let ?n = "n\<lparr>net_world := close_link (fst l0) (snd l0) (net_world n)\<rparr>" and ?ob = "ob\<lparr>fcuts := insert l0 (fcuts ob)\<rparr>"
  note D = fsimD [OF sim] and w = world_relD [OF fsimD(1) [OF sim]]
  have cut: "cut l n \<Longrightarrow> cut l ?n" for l by (auto simp: cut_def)
  have broken: "broken l n \<Longrightarrow> broken l ?n" for l by (auto simp: broken_def cut_def)
  have asks: "asks ?n l i t = asks n l i t" for l i t by (simp add: asks_def)
  have "cluster_abs parts members (net_world ?n) = cluster_abs parts members (net_world n)"
    by (simp add: cluster_abs_def fun_eq_iff)
  then have "world_rel parts members (net_world ?n) ?ob"
    using lose_step [OF w(1), of "fst l0" "snd l0"] w(2-5) by (auto simp: world_rel_def heaps_in_def)
  moreover have "caller_rel parts members ?n ?ob i" for i
  proof (cases "tasks n (Caller i)")
    case None
    with D(2) [of i] show ?thesis by (simp add: caller_rel_def)
  next
    case (Some t)
    have "phase_rel parts members ?n i t st (phase t)" if "phase_rel parts members n i t st (phase t)" for st
    proof (cases "phase t")
      case (Awaiting c)
      have "at_fstage n (at_node t, c) (asked t)" using awaitingE [OF sim Some Awaiting] by blast
      from call_mono [OF _ this, of st ?n] that Awaiting cut [of "(at_node t, c)"] show ?thesis by simp
    qed (use that in simp_all)
    with D(2) [of i] Some show ?thesis by (auto simp: caller_rel_def)
  qed
  moreover have "link_rel parts members ?n (floose ?ob) l" for l
  proof -
    have "at_fstage ?n l (asked t)" if "asks n l i t" for i t
      using D(3) [of l] that by (intro stage_mono [of n l "asked t" ?n]) (auto simp: link_rel_def intro: cut)
    moreover have "holder n l \<noteq> None \<longrightarrow> servers (net_world n) (fst l) = None" if "\<forall>i t. \<not> asks n l i t"
      using D(3) [of l] that by (simp add: link_rel_def)
    moreover have "if broken l ?n then orphan parts members ?n (floose ob) l else quiet ?n l"
      if none: "\<forall>i t. \<not> asks n l i t"
    proof (cases "broken l n")
      case True
      then have "orphan parts members n (floose ob) l" using D(3) [of l] none by (simp add: link_rel_def)
      with broken [OF True] show ?thesis by (auto intro: orphan_mono cut)
    next
      case False
      then have "quiet n l" using D(3) [of l] none by (simp add: link_rel_def)
      then show ?thesis by (auto intro: quiet_orphan simp: quiet_def)
    qed
    ultimately show ?thesis unfolding link_rel_def asks by simp
  qed
  ultimately show ?thesis by (simp add: fsim_def)
qed

text \<open>What the end of a process leaves on its connections.\<close>

definition left_by :: "net \<Rightarrow> fobj \<Rightarrow> tcp_addr \<Rightarrow> link \<Rightarrow> request option" where
  "left_by n ob c l =
     (case holder n l of
        Some (Caller i) \<Rightarrow>
          (case tasks n (Caller i) of
             Some t \<Rightarrow>
               if asks n l i t \<and> fst l = c \<and> fcalls ob i = Some (FPending c (asked t)) then Some (asked t)
               else floose ob l
           | None \<Rightarrow> floose ob l)
      | _ \<Rightarrow> floose ob l)"

lemma left_by_asks: "asks n l i t \<Longrightarrow> fst l = c \<Longrightarrow> fcalls ob i = Some (FPending c (asked t)) \<Longrightarrow>
    left_by n ob c l = Some (asked t)"
  by (simp add: left_by_def asks_def)

lemma left_by_none: "(\<And>i t. \<not> asks n l i t) \<Longrightarrow> left_by n ob c l = floose ob l"
  by (auto simp: left_by_def split: option.split goroutine.split)

lemma left_by_some:
  assumes sim: "fsim parts members n ob" and "left_by n ob c l = Some req"
  shows "floose ob l = Some req \<or>
    fst l = c \<and> owner parts members (req_hash req) = snd l \<and> (\<exists>i. fcalls ob i = Some (FPending c req))"
proof (cases "\<exists>i t. asks n l i t \<and> fst l = c \<and> fcalls ob i = Some (FPending c (asked t))")
  case True
  then obtain i t where t: "asks n l i t" "fst l = c" "fcalls ob i = Some (FPending c (asked t))" by blast
  then have k: "tasks n (Caller i) = Some t" "phase t = Awaiting (snd l)" "(at_node t, snd l) = l"
    by (auto simp: asks_def)
  have "sent_by parts members l (asked t)" using awaitingE [OF sim k(1,2), unfolded k(3)] by metis
  with left_by_asks [OF t] assms(2) t show ?thesis by (auto simp: sent_by_def asking_def)
next
  case False
  then have "left_by n ob c l = floose ob l"
    by (auto simp: left_by_def split: option.split goroutine.split)
  with assms(2) show ?thesis by simp
qed

lemma phase_call_node:
  assumes sim: "fsim parts members n ob" and t: "tasks n (Caller i) = Some t" and "fcalls ob i = Some st"
  shows "call_node st = at_node t"
proof -
  have rel: "phase_rel parts members n i t st (phase t)"
    using callerE [OF fsimD(2) [OF sim] t] assms(3) by (metis option.inject)
  show ?thesis
  proof (cases "phase t")
    case (Awaiting c)
    then have "link_call n (at_node t, c) (asked t) st" using rel by simp
    then show ?thesis by (auto simp: link_call_def split: if_splits option.splits phase.splits sum.splits)
  qed (use rel in auto)
qed

lemma kill_sel:
  "holder (kill c n) = holder n" "events (kill c n) = events n" "replies (kill c n) = replies n"
  "net_world (kill c n) = crash c (net_world n)"
  "tasks (kill c n) g = (case tasks n g of None \<Rightarrow> None | Some t \<Rightarrow> if at_node t = c then None else Some t)"
  by (simp_all add: kill_def)

lemma kill_links:
  "cut l (kill c n) \<longleftrightarrow> cut l n \<or> snd l = c"
  "broken l (kill c n) \<longleftrightarrow> broken l n \<or> snd l = c \<or> fst l = c"
  "asks (kill c n) l i t \<longleftrightarrow> asks n l i t \<and> fst l \<noteq> c"
  by (auto simp: cut_def broken_def asks_def kill_sel split: option.splits if_splits)

lemma kill_handler:
  assumes "fsim parts members n ob"
  shows "tasks (kill c n) (Handler l) = (if snd l = c then None else tasks n (Handler l))"
proof (cases "tasks n (Handler l)")
  case (Some th)
  from assms Some have "at_node th = snd l" by (cases rule: handlerE) (auto simp: orphan_served_def)
  with Some show ?thesis by (simp add: kill_sel)
qed (simp add: kill_sel)

text \<open>Nobody asked on the connection before the process ended.\<close>

lemma end_unasked:
  assumes sim: "fsim parts members n ob" and none: "\<forall>i t. \<not> asks n l i t"
  shows "if broken l (kill c n) then orphan parts members (kill c n) (left_by n ob c) l else quiet (kill c n) l"
proof -
  have L: "left_by n ob c l = floose ob l" using none by (auto intro: left_by_none)
  have rel: "if broken l n then orphan parts members n (floose ob) l else quiet n l"
    using fsimD(3) [OF sim, of l] none by (simp add: link_rel_def)
  have kept: "tasks (kill c n) (Handler l) = tasks n (Handler l) \<or>
      tasks (kill c n) (Handler l) = None \<and> cut l (kill c n)"
    by (simp add: kill_handler [OF sim] kill_links)
  show ?thesis
  proof (cases "broken l n")
    case True
    then have "orphan parts members n (floose ob) l" using rel by simp
    then have "orphan parts members (kill c n) (left_by n ob c) l"
      by (rule orphan_mono) (use kept L in \<open>simp_all add: kill_sel kill_links\<close>)
    with True show ?thesis by (simp add: kill_links)
  next
    case False
    then have quiet: "quiet n l" using rel by simp
    then have "orphan parts members (kill c n) (left_by n ob c) l"
      by (rule quiet_orphan) (use kept in \<open>auto simp: kill_sel\<close>)
    moreover have "quiet (kill c n) l" using quiet by (simp add: quiet_def kill_sel(2,3) kill_handler [OF sim])
    ultimately show ?thesis by simp
  qed
qed

text \<open>The caller that asked on it ended with its process.\<close>

lemma end_asked:
  assumes sim: "fsim parts members n ob" and a: "asks n l i t" "fst l = c"
  shows "orphan parts members (kill c n) (left_by n ob c) l"
proof -
  have k: "tasks n (Caller i) = Some t" "phase t = Awaiting (snd l)" "(at_node t, snd l) = l"
    using a(1) by (auto simp: asks_def)
  obtain st where s: "at_fstage n l (asked t)" "sent_by parts members l (asked t)" "fcalls ob i = Some st"
    "link_call n l (asked t) st" using awaitingE [OF sim k(1,2), unfolded k(3)] by metis
  have "snd l \<noteq> c" using s(2) a(2) by (auto simp: sent_by_def asking_def)
  then have same: "tasks (kill c n) (Handler l) = tasks n (Handler l)" "cut l (kill c n) = cut l n"
    by (simp_all add: kill_handler [OF sim] kill_links)
  show ?thesis
  proof (cases "tasks n (Handler l)")
    case (Some th)
    then obtain sg where "at_stage n l (asked t) sg" using s(1) by (auto simp: at_fstage_def)
    with Some have served: "at_stage n l (asked t) (Served th)" by (cases sg) auto
    have "left_by n ob c l = Some (asked t)" if "phase th = Routing"
      using s(3,4) served Some that a by (intro left_by_asks) (auto simp: link_call_def)
    then show ?thesis using Some served s(2) by (auto simp: orphan_def orphan_served_def same kill_sel)
  next
    case None
    show ?thesis
    proof (cases "cut l n")
      case False
      then obtain sg where stage: "at_stage n l (asked t) sg" using s(1) by (auto simp: at_fstage_def)
      show ?thesis
      proof (cases sg)
        case Written
        have "left_by n ob c l = Some (asked t)"
          using s(3,4) stage False Written None a by (intro left_by_asks) (auto simp: link_call_def)
        then have "orphan_written parts members (kill c n) (left_by n ob c) l"
          using stage Written s(2) by (auto simp: orphan_written_def kill_sel)
        with None show ?thesis by (simp add: orphan_def same)
      qed (use stage None in \<open>simp_all add: orphan_def same kill_sel\<close>)
    qed (use None in \<open>simp add: orphan_def same\<close>)
  qed
qed

lemma end_link:
  assumes sim: "fsim parts members n ob"
  shows "link_rel parts members (kill c n) (left_by n ob c) l"
proof -
  note rel = fsimD(3) [OF sim, of l]
  have "at_fstage (kill c n) l (asked t)" if "asks n l i t" for i t
    using rel that by (intro stage_mono [of n l "asked t" "kill c n"])
      (auto simp: link_rel_def kill_sel(1-4) kill_links kill_handler [OF sim])
  moreover have "if broken l (kill c n) then orphan parts members (kill c n) (left_by n ob c) l else quiet (kill c n) l"
    if none: "\<forall>i t. \<not> (asks n l i t \<and> fst l \<noteq> c)"
  proof (cases "\<exists>i t. asks n l i t")
    case True
    then obtain i t where "asks n l i t" "fst l = c" using none by blast
    with end_asked [OF sim this] show ?thesis by (simp add: kill_links)
  qed (use end_unasked [OF sim] in blast)
  moreover have "holder n l \<noteq> None \<longrightarrow> servers (net_world (kill c n)) (fst l) = None"
    if "\<forall>i t. \<not> (asks n l i t \<and> fst l \<noteq> c)"
    using rel that by (auto simp: link_rel_def kill_sel)
  ultimately show ?thesis unfolding link_rel_def kill_links(3) kill_sel(1) by blast
qed

lemma end_caller:
  assumes sim: "fsim parts members n ob"
    and calls: "fcalls ob' i = (case fcalls ob i of None \<Rightarrow> None | Some st \<Rightarrow> if call_node st = c then None else Some st)"
  shows "caller_rel parts members (kill c n) ob' i"
proof (cases "tasks n (Caller i)")
  case None
  with fsimD(2) [OF sim, of i] calls show ?thesis by (simp add: caller_rel_def kill_sel)
next
  case (Some t)
  obtain st where st: "at_node t \<in> set members" "servers (net_world n) (at_node t) \<noteq> None" "good_request (asked t)"
    "fcalls ob i = Some st" "phase_rel parts members n i t st (phase t)"
    by (rule callerE [OF fsimD(2) [OF sim] Some])
  have node: "call_node st = at_node t" by (rule phase_call_node [OF sim Some st(4)])
  have "phase_rel parts members (kill c n) i t st (phase t)"
  proof (cases "phase t")
    case (Awaiting d)
    have "at_fstage n (at_node t, d) (asked t)" using awaitingE [OF sim Some Awaiting] by blast
    from call_mono [OF _ this, of st "kill c n"] st(5) Awaiting show ?thesis
      by (simp add: kill_sel(1-3) kill_links kill_handler [OF sim])
  qed (use st(5) in simp_all)
  with st Some node calls show ?thesis by (auto simp: caller_rel_def kill_sel)
qed

lemma fsim_end:
  assumes sim: "fsim parts members n ob"
  shows "fsim parts members (kill c n)
     (ob\<lparr>fcells := (\<lambda>k. if owner parts members k = c then None else fcells ob k), fup := fup ob - {c},
         floose := left_by n ob c,
         fcalls := (\<lambda>i. case fcalls ob i of None \<Rightarrow> None | Some st \<Rightarrow> if call_node st = c then None else Some st)\<rparr>)"
    (is "fsim _ _ _ ?ob")
proof -
  note w = world_relD [OF fsimD(1) [OF sim]]
  have "cluster_abs parts members (net_world (kill c n)) =
      (\<lambda>k. if owner parts members k = c then None else fcells ob k)"
    by (auto simp: cluster_abs_def kill_sel w(3))
  then have "world_rel parts members (net_world (kill c n)) ?ob"
    using crash_step [OF w(1), of c] w(2,4,5) by (auto simp: world_rel_def heaps_in_def kill_sel)
  moreover have "caller_rel parts members (kill c n) ?ob i" for i by (rule end_caller [OF sim]) simp
  ultimately show ?thesis using end_link [OF sim] by (simp add: fsim_def)
qed

section \<open>Runs\<close>

lemma goroutine_phase:
  assumes "fsim parts members n ob" and "tasks n g = Some t" and "phase t = Waiting c \<or> phase t = Awaiting c"
  obtains i where "g = Caller i"
  using handler_phase [OF assms(1)] assms(2,3) by (cases g) fastforce+

lemma fsim_net_step:
  assumes step: "net_step n e n'" and sim: "fsim parts members n ob" and ok: "label_ok members e"
    and run: "fobj_run (owner parts members) ob0 evs ob"
  shows "\<exists>ob'. fobj_run (owner parts members) ob0 (evs @ fault_trace [Step e]) ob' \<and> fsim parts members n' ob'"
proof -
  have background: "\<exists>ob'. fobj_run (owner parts members) ob0 evs ob' \<and>
      fsim parts members ((put_store b s st n)\<lparr>callbacks := cbs\<rparr>) ob'"
    if "servers (net_world n) b = Some s" and "fades (sstore s) st" for b s st cbs
    using fsim_background [OF sim that, of cbs] fobj_evict [OF run] by blast
  from step show ?thesis
  proof (cases rule: net_stepE)
    case (call i a req)
    from call(1) ok have a: "a \<in> set members" "good_request req" by simp_all
    have "servers (net_world n) a \<noteq> None" using call(4) by simp
    note new = fsim_call [OF sim call(3) a this]
    from fobj_call [OF run new(1,2), of req] new(3) call(1,2) show ?thesis by auto
  next
    case (return i t r r')
    obtain resp where r: "r = Inr resp" "fcalls ob i = Some (FDone (at_node t) (asked t) resp)"
      "fsim parts members n' (ob\<lparr>fcalls := (fcalls ob)(i := None)\<rparr>)"
      using fsim_return [OF sim return(3,4)] return(2) by metis
    then obtain resp' where "r' = Inr resp'" "read_back (asked t) resp resp'"
      using return(5) by (auto simp: reads_Inr)
    with fobj_return [OF run r(2)] r(3) return(1) show ?thesis by auto
  next
    case (start g t s rt)
    show ?thesis
    proof (cases g)
      case (Caller i)
      with fsim_start_caller [OF sim run] start show ?thesis by simp
    next
      case (Handler l)
      with fsim_start_handler [OF sim run] start show ?thesis by simp
    qed
  next
    case (send g t c)
    obtain i where "g = Caller i" using goroutine_phase [OF sim send(3)] send(4) by metis
    with fsim_send [OF sim run] send show ?thesis by simp
  next
    case (take g t c m ms)
    obtain i where "g = Caller i" using goroutine_phase [OF sim take(3)] take(4) by metis
    with fsim_take [OF sim] run take show ?thesis by auto
  next
    case (eof g t c)
    obtain i where "g = Caller i" using goroutine_phase [OF sim eof(3)] eof(4) by metis
    with fsim_eof [OF sim run] eof show ?thesis by simp
  next
    case (read l ev evs)
    with fsim_read [OF sim read(3-5)] run show ?thesis by auto
  next
    case (reply l t r r')
    with fsim_reply [OF sim reply(3,4)] fserved_reads [OF sim reply(3)] run show ?thesis by auto
  next
    case (fire b s now c tm)
    with background [OF fire(3) fades_timer] show ?thesis by simp
  next
    case (sweep b s c)
    obtain st where st: "delete_expired_keys c (sstore s) = Inr st" "fades (sstore s) st"
      using fades_sweep by blast
    with background [OF sweep(3) st(2)] sweep(1,2) show ?thesis by (simp add: timer_goes_def)
  next
    case (resched b s now)
    obtain st where st: "reschedule now (sstore s) = Inr st" "fades (sstore s) st"
      using fades_resched by blast
    with background [OF resched(3) st(2)] resched(1,2) show ?thesis by (simp add: timer_goes_def)
  qed
qed

fun fault_label_ok :: "tcp_addr list \<Rightarrow> fault_label \<Rightarrow> bool" where
  "fault_label_ok members (Step e) = label_ok members e"
| "fault_label_ok members e = True"

lemma fsim_step:
  assumes step: "fault_net_step n e n'" and sim: "fsim parts members n ob" and ok: "fault_label_ok members e"
    and run: "fobj_run (owner parts members) ob0 evs ob"
  shows "\<exists>ob'. fobj_run (owner parts members) ob0 (evs @ fault_trace [e]) ob' \<and> fsim parts members n' ob'"
  using step
proof (cases rule: fault_net_stepE)
  case (step e)
  with fsim_net_step [OF step(2) sim _ run] ok show ?thesis by simp
next
  case (stop c)
  from fobj_end [OF run, of "left_by n ob c" c] left_by_some [OF sim] fsim_end [OF sim, of c] stop
  show ?thesis by auto
next
  case (break l)
  with fobj_break [OF run, of l] fsim_break [OF sim, of l] show ?thesis by auto
qed

lemma fsim_run:
  assumes "fault_net_run n es n'" and "fsim parts members n ob" and "list_all (fault_label_ok members) es"
  shows "\<exists>ob'. fobj_run (owner parts members) ob (fault_trace es) ob' \<and> fsim parts members n' ob'"
  using assms
proof (induction rule: fault_net_run.induct)
  case (fn_snoc n es n' e n'')
  then obtain ob' where "fobj_run (owner parts members) ob (fault_trace es) ob'" "fsim parts members n' ob'"
    by auto
  with fsim_step [OF fn_snoc.hyps(2)] fn_snoc.prems(2) show ?case by (auto simp del: fault_trace.simps)
qed (auto intro: fobj_nil)

section \<open>No call is stuck\<close>

lemma asks_step:
  assumes sim: "fsim parts members n ob" and asks: "asks n l i t"
  shows "\<exists>e n'. works e \<and> net_step n e n'"
proof -
  have t: "tasks n (Caller i) = Some t" "phase t = Awaiting (snd l)" "(at_node t, snd l) = l"
    using asks by (auto simp: asks_def)
  have stage: "at_fstage n l (asked t)" using awaitingE [OF sim t(1,2), unfolded t(3)] by metis
  show ?thesis
  proof (cases "replies n l")
    case (Cons m ms)
    with take [OF t(1,2)] t(3) show ?thesis by (metis works.simps(2))
  next
    case none: Nil
    show ?thesis
    proof (cases "cut l n")
      case True
      with eof [OF t(1,2)] none t(3) show ?thesis by (metis works.simps(2))
    next
      case False
      then obtain sg where sg: "at_stage n l (asked t) sg" using stage by (auto simp: at_fstage_def)
      show ?thesis
      proof (cases sg)
        case Written
        with sg obtain ev where "events n l = [ev]" "tasks n (Handler l) = None" by auto
        from read [OF this(2,1) False] show ?thesis by (metis works.simps(2))
      next
        case (Served th)
        with sg have th: "tasks n (Handler l) = Some th" "at_node th = snd l"
          "phase th = Routing \<or> (\<exists>resp. phase th = Returning (Inr resp))" by auto
        obtain s where s: "servers (net_world n) (snd l) = Some s" using False by (auto simp: cut_def)
        show ?thesis
          using th start [OF th(1) _ _ rt_ok_rt_at, of s 0] reply [OF th(1)] reads_total s by (metis works.simps(2))
      qed (use sg none in simp)
    qed
  qed
qed

lemma fsim_never_stuck:
  assumes sim: "fsim parts members n ob" and t: "tasks n (Caller i) = Some t"
  shows "\<exists>e n'. works e \<and> net_step n e n'"
proof -
  have up: "servers (net_world n) (at_node t) \<noteq> None" using callerE [OF fsimD(2) [OF sim] t] by metis
  show ?thesis
  proof (cases "phase t")
    case Routing
    from up start [OF t Routing _ rt_ok_rt_at] show ?thesis by (metis option.exhaust works.simps(2))
  next
    case (Waiting c)
    show ?thesis
    proof (cases "holder n (at_node t, c)")
      case None
      from send [OF t Waiting None] show ?thesis by (metis works.simps(2))
    next
      case (Some g)
      then obtain j u where "asks n (at_node t, c) j u"
        using fsimD(3) [OF sim, of "(at_node t, c)"] up by (auto simp: link_rel_def)
      then show ?thesis by (rule asks_step [OF sim])
    qed
  next
    case (Awaiting c)
    from asks_step [OF sim caller_asks [OF fsimD(2) [OF sim] t Awaiting]] show ?thesis .
  next
    case (Returning r)
    from return [OF t Returning] reads_total show ?thesis by (metis works.simps(1))
  qed
qed

section \<open>Properties\<close>

definition failing_obj :: "tcp_addr list \<Rightarrow> fobj" where
  "failing_obj members = \<lparr>fcells = Map.empty, ffleeting = {}, fcalls = Map.empty, fup = set members, fcuts = {},
     floose = (\<lambda>_. None)\<rparr>"

lemma booted_fsim:
  assumes "sound_start parts dial finish fls"
  shows "fsim (nat (sint parts)) (map fl_server_addr fls) (booted i dial uuid finish fls)
     (failing_obj (map fl_server_addr fls))"
proof -
  let ?ms = "map fl_server_addr fls" and ?p = "nat (sint parts)" and ?n = "booted i dial uuid finish fls"
  note w = sim_worldD [OF booted_sim [OF assms, of i uuid]]
  have net: "net_world ?n = boot_world i dial uuid finish fls" by (simp add: net_init_def)
  note d = w(2) [unfolded cluster_degraded]
  have "world_rel ?p ?ms (net_world ?n) (failing_obj ?ms)"
    using d w(3,5) by (auto simp: world_rel_def failing_obj_def obj_init_def)
  then show ?thesis
    by (simp add: fsim_def caller_rel_def link_rel_def asks_def quiet_def orphan_def failing_obj_def net_init_def)
qed

text \<open>C2. Failures under load: while well-formed requests (\<open>good_request\<close>: a non-empty key and an identifier of
  valid UTF-8, JSON-shaped data that is not null) of a started cluster are under way in any
  interleaving, processes end and connections break at any moment, and the calls and returns are still
  those of one table on which every call takes effect at once (of the list of a \<open>Keys\<close> request only the
  length is certain). A call that cannot reach the member in charge is answered by an internal error;
  then it has taken effect before, or never does, or does so once later, one such request on a
  connection at most. What a process takes with it is its own keys. As long as a call is under way at
  a member that is up some goroutine can take a step for a request.\<close>

theorem failures_linearizable:
  assumes "sound_start parts dial finish fls"
    and "fault_net_run (booted i dial uuid finish fls) es n"
    and "list_all (fault_label_ok (map fl_server_addr fls)) es"
  shows "(\<exists>ob. fobj_run (owner (nat (sint parts)) (map fl_server_addr fls)) (failing_obj (map fl_server_addr fls))
        (fault_trace es) ob \<and>
      fcells ob = cluster_abs (nat (sint parts)) (map fl_server_addr fls) (net_world n)) \<and>
    (tasks n (Caller j) \<noteq> None \<longrightarrow> (\<exists>e n'. works e \<and> net_step n e n'))"
proof -
  obtain ob where ob: "fobj_run (owner (nat (sint parts)) (map fl_server_addr fls)) (failing_obj (map fl_server_addr fls))
      (fault_trace es) ob" "fsim (nat (sint parts)) (map fl_server_addr fls) n ob"
    using fsim_run [OF assms(2) booted_fsim [OF assms(1)] assms(3)] by blast
  with world_relD(3) [OF fsimD(1) [OF ob(2)]] fsim_never_stuck [OF ob(2)] show ?thesis by blast
qed

text \<open>A store that waits at the first container when the second, which has the key, ends.\<close>

theorem failures_linearizable_witness:
  "\<exists>n ob e n'. fault_net_run compose_net [Step (Visible (Call 1 node1 put_k)), Ends node2] n \<and>
     fobj_run (owner 16384 compose_members) (failing_obj compose_members)
       [Did (Call 1 node1 put_k), Ended node2] ob \<and>
     fcells ob = cluster_abs 16384 compose_members (net_world n) \<and> works e \<and> net_step n e n'"
proof -
  obtain n1 where one: "net_step compose_net (Visible (Call 1 node1 put_k)) n1"
    by (rule call_step [OF compose_sim compose_idle(2,1), of node1 put_k 1]) (simp_all add: k_good)
  let ?es = "[Step (Visible (Call 1 node1 put_k)), Ends node2]" and ?n = "kill node2 n1"
  have "fault_net_run compose_net (([] @ [Step (Visible (Call 1 node1 put_k))]) @ [Ends node2]) ?n"
    by (intro fn_snoc [OF _ fn_end] fn_snoc [OF _ fn_step [OF one]] fn_nil)
  then have run: "fault_net_run compose_net ?es ?n" by (simp only: append.simps)
  have "tasks n1 (Caller 1) = Some \<lparr>at_node = node1, asked = put_k, phase = Routing\<rparr>"
    using one by (cases rule: net_stepE) auto
  then have busy: "tasks ?n (Caller 1) \<noteq> None" by (simp add: kill_sel)
  have "list_all (fault_label_ok compose_members) ?es" by (simp add: k_good)
  from failures_linearizable [OF compose_sound run, unfolded compose_addrs, OF this, of 1] obtain ob e n' where
    "fobj_run (owner (nat (sint (16384 :: int64))) compose_members) (failing_obj compose_members) (fault_trace ?es) ob"
    "fcells ob = cluster_abs (nat (sint (16384 :: int64))) compose_members (net_world ?n)" "works e" "net_step ?n e n'"
    using busy by blast
  with run show ?thesis by (intro exI [of _ ?n] exI [of _ ob] exI [of _ e] exI [of _ n']) simp
qed

end
