(* ===== verification/Deadlock.thy ===== *)
theory Deadlock
  imports Concurrent_Api
begin

text \<open>
  Two requests that lock one another out (\<open>server/server.go\<close>, \<open>roundTrip\<close>). A node forwards the bytes
  of a key by their hash, and the member that reads the event gets the key as JSON has repaired it:
  every byte that is no UTF-8 is now U+FFFD. If the repaired key belongs to the node that asked, the
  event is forwarded back to it, by a goroutine that waits for the mutex of that connection. Two such
  requests in opposite directions each hold the mutex the other waits for, and \<open>roundTrip\<close> waits
  without a deadline.
\<close>

section \<open>The state\<close>

text \<open>A request of node \<open>a\<close> that goes to \<open>b\<close> and belongs to \<open>a\<close> once it is read there.\<close>

definition comes_back :: "nat \<Rightarrow> tcp_addr list \<Rightarrow> tcp_addr \<Rightarrow> tcp_addr \<Rightarrow> request \<Rightarrow> bool" where
  "comes_back parts members a b req \<longleftrightarrow> a \<in> set members \<and> asking parts members a req b \<and>
     encode_event req \<noteq> None \<and>
     (case wire_request req of None \<Rightarrow> False | Some req' \<Rightarrow> owner parts members (req_hash req') = a)"

text \<open>Both callers await a reply; both handlers wait for a mutex; nothing is on the connections.\<close>

definition waits_in_circle :: "nat \<Rightarrow> tcp_addr \<Rightarrow> nat \<Rightarrow> tcp_addr \<Rightarrow> goroutine \<Rightarrow> task \<Rightarrow> bool" where
  "waits_in_circle i a j b g t \<longleftrightarrow>
     (g, at_node t, phase t) \<in>
       {(Caller i, a, Awaiting b), (Caller j, b, Awaiting a), (Handler (a, b), b, Waiting a), (Handler (b, a), a, Waiting b)}"

definition locked :: "nat \<Rightarrow> tcp_addr \<Rightarrow> nat \<Rightarrow> tcp_addr \<Rightarrow> net \<Rightarrow> bool" where
  "locked i a j b n \<longleftrightarrow>
     (\<forall>g t. tasks n g = Some t \<longrightarrow> waits_in_circle i a j b g t) \<and>
     holder n (a, b) \<noteq> None \<and> holder n (b, a) \<noteq> None \<and> \<not> cut (a, b) n \<and> \<not> cut (b, a) n \<and>
     (\<forall>l. events n l = [] \<and> replies n l = [])"

text \<open>No request can take a step, and the timers of the stores change none of this.\<close>

lemma locked_stuck:
  assumes "locked i a j b n" and "net_step n e n'"
  shows "\<not> works e"
  using assms(2)
proof (cases rule: net_stepE)
  case (return k t r r')
  with assms(1) have "waits_in_circle i a j b (Caller k) t" by (simp add: locked_def)
  with return(4) show ?thesis by (auto simp: waits_in_circle_def)
next
  case (start g t s rt)
  with assms(1) have "waits_in_circle i a j b g t" by (simp add: locked_def)
  with start(4) show ?thesis by (auto simp: waits_in_circle_def)
next
  case (send g t c)
  with assms(1) have "waits_in_circle i a j b g t" by (simp add: locked_def)
  with send(4,5) assms(1) show ?thesis by (auto simp: waits_in_circle_def locked_def)
next
  case (take g t c m ms)
  with assms(1) show ?thesis by (simp add: locked_def)
next
  case (eof g t c)
  with assms(1) have "waits_in_circle i a j b g t" by (simp add: locked_def)
  with eof(4,6) assms(1) show ?thesis by (auto simp: waits_in_circle_def locked_def)
next
  case (read l ev evs)
  moreover have "events n l = []" using assms(1) unfolding locked_def by blast
  ultimately show ?thesis by simp
next
  case (reply l t r r')
  with assms(1) have "waits_in_circle i a j b (Handler l) t" by (simp add: locked_def)
  with reply(4) show ?thesis by (auto simp: waits_in_circle_def)
qed simp_all

lemma timer_harmless:
  assumes "servers (net_world n) c = Some s"
  shows "tasks ((put_store c s st n)\<lparr>callbacks := cbs\<rparr>) = tasks n"
    and "locked i a j b ((put_store c s st n)\<lparr>callbacks := cbs\<rparr>) = locked i a j b n"
  using assms by (simp_all add: locked_def put_store_def cut_def)

lemma locked_step:
  assumes lock: "locked i a j b n" and step: "net_step n e n'" and "\<not> is_call e"
  shows "locked i a j b n' \<and> tasks n' = tasks n"
  using step
proof (cases rule: net_stepE)
  case (call k c req)
  with assms(3) show ?thesis by simp
next
  case (fire c s now d tm)
  with lock timer_harmless [OF fire(3)] show ?thesis by simp
next
  case (sweep c s d)
  obtain st where "delete_expired_keys d (sstore s) = Inr st" using fades_sweep by blast
  with sweep(2) lock timer_harmless [OF sweep(3)] show ?thesis by (simp add: timer_goes_def)
next
  case (resched c s now)
  obtain st where "reschedule now (sstore s) = Inr st" using fades_resched by blast
  with resched(2) lock timer_harmless [OF resched(3)] show ?thesis by (simp add: timer_goes_def)
qed (use locked_stuck [OF lock step] in simp_all)

lemma locked_run:
  "net_run n es n' \<Longrightarrow> locked i a j b n \<Longrightarrow> list_all (\<lambda>e. \<not> is_call e) es \<Longrightarrow>
     locked i a j b n' \<and> tasks n' = tasks n"
proof (induction rule: net_run.induct)
  case (net_snoc n es n' e n'')
  then have "locked i a j b n'" "tasks n' = tasks n" by simp_all
  moreover have "\<not> is_call e" using net_snoc.prems(2) by simp
  ultimately show ?case using locked_step [OF _ net_snoc.hyps(2)] by metis
qed simp

section \<open>The way there\<close>

text \<open>A request that is called, routed, sent and read by the member it was sent to, which forwards it.\<close>

lemma comes_backE:
  assumes "comes_back parts members a b req"
  obtains ev req' where "encode_event req = Some ev" "handle_event ev = HRequest req'"
    "asking parts members a req b" "asking parts members b req' a"
proof -
  obtain ev where ev: "encode_event req = Some ev" using assms by (auto simp: comes_back_def)
  obtain req' where req': "wire_request req = Some req'" "handle_event ev = HRequest req'"
    by (rule encode_handle [OF ev])
  have ask: "asking parts members a req b" using assms by (simp add: comes_back_def)
  then have "a \<noteq> b" "req_hash req' \<noteq> []"
    using req_hash_wire [OF req'(1)] by (auto simp: asking_def utf8_fix_Nil_iff)
  then have "asking parts members b req' a"
    using assms req'(1) by (simp add: comes_back_def asking_def)
  with that ev req'(2) ask show thesis by blast
qed

lemma routed:
  assumes m: "partial_mesh parts members (net_world n)" and a: "a \<in> set members"
    and up: "servers (net_world n) a \<noteq> None"
    and t: "tasks n g = Some t" "at_node t = a" "asked t = req" "phase t = Routing"
    and ask: "asking parts members a req c"
  shows "net_step n (Work g) (at_phase g t (Waiting c) n)"
proof -
  obtain s where s: "servers (net_world n) a = Some s" using up by blast
  obtain nd where "do_plan s req = PlanForward nd c"
    using plan_at [OF m s a, of req] ask by (auto simp: asking_def)
  then have "do_start (rt_at 0) g t s n = at_phase g t (Waiting c) n" by (simp add: do_start_def t)
  with start [OF t(1,4) _ rt_ok_rt_at, of s 0] s t(2) show ?thesis by simp
qed

text \<open>From the call to the handler that waits at the other end, on an idle connection.\<close>

lemma halfway:
  assumes m: "partial_mesh parts members (net_world n)"
    and returns: "comes_back parts members a b req"
    and up: "servers (net_world n) a \<noteq> None" "servers (net_world n) b \<noteq> None" "(a, b) \<notin> set (closed (net_world n))"
    and idle: "holder n (a, b) = None" "events n (a, b) = []" "tasks n (Handler (a, b)) = None"
    and t: "tasks n (Caller i) = Some t" "at_node t = a" "asked t = req" "phase t = Routing"
  shows "\<exists>n' req'. net_run n (map Work [Caller i, Caller i, Handler (a, b)]) n' \<and> asking parts members b req' a \<and>
     n' = n\<lparr>holder := (holder n)((a, b) \<mapsto> Caller i),
            tasks := (tasks n)(Caller i \<mapsto> t\<lparr>phase := Awaiting b\<rparr>,
              Handler (a, b) \<mapsto> \<lparr>at_node = b, asked = req', phase = Routing\<rparr>)\<rparr>"
proof -
  obtain ev req' where ev: "encode_event req = Some ev" "handle_event ev = HRequest req'"
    "asking parts members a req b" "asking parts members b req' a" by (rule comes_backE [OF returns])
  let ?n1 = "at_phase (Caller i) t (Waiting b) n" and ?t1 = "t\<lparr>phase := Waiting b\<rparr>"
  have "a \<in> set members" using returns by (simp add: comes_back_def)
  have one: "net_step n (Work (Caller i)) ?n1"
    by (rule routed [OF m \<open>a \<in> set members\<close> up(1) t ev(3)])
  let ?n2 = "send_event (Caller i) ?t1 b ?n1"
  have two: "net_step ?n1 (Work (Caller i)) ?n2"
    by (rule send) (simp_all add: at_phase_def idle t(2))
  have n2: "?n2 = n\<lparr>tasks := (tasks n)(Caller i \<mapsto> t\<lparr>phase := Awaiting b\<rparr>),
      holder := (holder n)((a, b) \<mapsto> Caller i), events := (events n)((a, b) := [ev])\<rparr>"
    using up idle by (auto simp: send_event_def at_phase_def t ev(1) cut_def Let_def)
  let ?n3 = "read_event (a, b) ev ?n2"
  have three: "net_step ?n2 (Work (Handler (a, b))) ?n3"
    by (rule read) (use up idle in \<open>simp_all add: n2 cut_def\<close>)
  have "?n3 = n\<lparr>holder := (holder n)((a, b) \<mapsto> Caller i),
      tasks := (tasks n)(Caller i \<mapsto> t\<lparr>phase := Awaiting b\<rparr>,
        Handler (a, b) \<mapsto> \<lparr>at_node = b, asked = req', phase = Routing\<rparr>)\<rparr>"
    unfolding read_event_def Let_def n2 using idle(2) by (cases n) (simp add: ev(2) fun_upd_idem)
  moreover have "net_run n ((([] @ [Work (Caller i)]) @ [Work (Caller i)]) @ [Work (Handler (a, b))]) ?n3"
    by (intro net_snoc [OF _ three] net_snoc [OF _ two] net_snoc [OF _ one] net_nil)
  ultimately show ?thesis using ev(4) by (intro exI [of _ ?n3] exI [of _ req']) simp
qed

text \<open>The second forwarding, in both directions, ends the circle.\<close>

lemma circle_closes:
  assumes m: "partial_mesh parts members (net_world n)"
    and up: "a \<in> set members" "b \<in> set members" "closed (net_world n) = []"
      "servers (net_world n) a \<noteq> None" "servers (net_world n) b \<noteq> None"
    and ask: "asking parts members b q1 a" "asking parts members a q2 b"
    and quiet: "\<forall>l. events n l = [] \<and> replies n l = []" "holder n (a, b) \<noteq> None" "holder n (b, a) \<noteq> None"
    and tasks: "tasks n = (\<lambda>_. None)(Caller i \<mapsto> \<lparr>at_node = a, asked = r1, phase = Awaiting b\<rparr>,
      Caller j \<mapsto> \<lparr>at_node = b, asked = r2, phase = Awaiting a\<rparr>,
      Handler (a, b) \<mapsto> \<lparr>at_node = b, asked = q1, phase = Routing\<rparr>,
      Handler (b, a) \<mapsto> \<lparr>at_node = a, asked = q2, phase = Routing\<rparr>)"
    and "i \<noteq> j"
  shows "\<exists>n'. net_run n (map Work [Handler (a, b), Handler (b, a)]) n' \<and> locked i a j b n' \<and>
     tasks n' (Caller i) \<noteq> None \<and> tasks n' (Caller j) \<noteq> None"
proof -
  have "a \<noteq> b" using ask by (simp add: asking_def)
  let ?t1 = "\<lparr>at_node = b, asked = q1, phase = Routing\<rparr>" and ?t2 = "\<lparr>at_node = a, asked = q2, phase = Routing\<rparr>"
  let ?n1 = "at_phase (Handler (a, b)) ?t1 (Waiting a) n"
  have one: "net_step n (Work (Handler (a, b))) ?n1"
    by (rule routed [OF m up(2,5) _ _ _ _ ask(1)]) (simp_all add: tasks \<open>a \<noteq> b\<close>)
  let ?n2 = "at_phase (Handler (b, a)) ?t2 (Waiting b) ?n1"
  have two: "net_step ?n1 (Work (Handler (b, a))) ?n2"
  proof (rule routed [where a = a and req = q2 and parts = parts and members = members])
    show "tasks ?n1 (Handler (b, a)) = Some ?t2" using \<open>a \<noteq> b\<close> by (simp add: at_phase_def tasks)
    show "partial_mesh parts members (net_world ?n1)" "servers (net_world ?n1) a \<noteq> None"
      using m up(4) by (simp_all add: at_phase_def)
  qed (simp_all add: up(1) ask(2))
  have n2: "tasks ?n2 = (tasks n)(Handler (a, b) \<mapsto> ?t1\<lparr>phase := Waiting a\<rparr>, Handler (b, a) \<mapsto> ?t2\<lparr>phase := Waiting b\<rparr>)"
    "net_world ?n2 = net_world n" "holder ?n2 = holder n" "events ?n2 = events n" "replies ?n2 = replies n"
    by (simp_all add: at_phase_def)
  have "waits_in_circle i a j b g t" if "tasks ?n2 g = Some t" for g t
    using that unfolding n2(1) tasks by (simp add: waits_in_circle_def split: if_split_asm) auto
  then have "locked i a j b ?n2"
    using up quiet unfolding locked_def cut_def n2(2-5) by simp
  moreover have "net_run n (([] @ [Work (Handler (a, b))]) @ [Work (Handler (b, a))]) ?n2"
    by (intro net_snoc [OF _ two] net_snoc [OF _ one] net_nil)
  moreover have "tasks ?n2 (Caller i) \<noteq> None" "tasks ?n2 (Caller j) \<noteq> None"
    by (simp_all add: at_phase_def tasks)
  ultimately show ?thesis by (intro exI [of _ ?n2]) simp
qed

lemma idle_deadlocks:
  assumes m: "partial_mesh parts members w" "closed w = []" "\<forall>c \<in> set members. servers w c \<noteq> None"
    and r: "comes_back parts members a b r1" "comes_back parts members b a r2" and "i \<noteq> j"
  shows "\<exists>es n. net_run (net_init w) ([Visible (Call i a r1), Visible (Call j b r2)] @ es) n \<and>
     list_all works es \<and> locked i a j b n \<and> tasks n (Caller i) \<noteq> None \<and> tasks n (Caller j) \<noteq> None"
proof -
  have ab: "a \<in> set members" "b \<in> set members" "a \<noteq> b" using r by (auto simp: comes_back_def asking_def)
  let ?t1 = "\<lparr>at_node = a, asked = r1, phase = Routing\<rparr>" and ?t2 = "\<lparr>at_node = b, asked = r2, phase = Routing\<rparr>"
  let ?n1 = "(net_init w)\<lparr>tasks := (tasks (net_init w))(Caller i \<mapsto> ?t1)\<rparr>"
  let ?n2 = "?n1\<lparr>tasks := (tasks ?n1)(Caller j \<mapsto> ?t2)\<rparr>"
  have up: "servers w a \<noteq> None" "servers w b \<noteq> None" using m(3) ab by auto
  have one: "net_step (net_init w) (Visible (Call i a r1)) ?n1"
    by (rule call) (use up in \<open>simp_all add: net_init_def\<close>)
  have two: "net_step ?n1 (Visible (Call j b r2)) ?n2"
    by (rule call) (use up \<open>i \<noteq> j\<close> in \<open>simp_all add: net_init_def\<close>)
  have start: "net_run (net_init w) [Visible (Call i a r1), Visible (Call j b r2)] ?n2"
    using net_snoc [OF net_snoc [OF net_nil one] two] by simp
  obtain n3 q1 where three: "net_run ?n2 (map Work [Caller i, Caller i, Handler (a, b)]) n3" "asking parts members b q1 a"
    "n3 = ?n2\<lparr>holder := (holder ?n2)((a, b) \<mapsto> Caller i),
      tasks := (tasks ?n2)(Caller i \<mapsto> ?t1\<lparr>phase := Awaiting b\<rparr>,
        Handler (a, b) \<mapsto> \<lparr>at_node = b, asked = q1, phase = Routing\<rparr>)\<rparr>"
    using halfway [of parts members ?n2 a b r1 i ?t1] m r up \<open>i \<noteq> j\<close> by (auto simp: net_init_def)
  obtain n4 q2 where four: "net_run n3 (map Work [Caller j, Caller j, Handler (b, a)]) n4" "asking parts members a q2 b"
    "n4 = n3\<lparr>holder := (holder n3)((b, a) \<mapsto> Caller j),
      tasks := (tasks n3)(Caller j \<mapsto> ?t2\<lparr>phase := Awaiting a\<rparr>,
        Handler (b, a) \<mapsto> \<lparr>at_node = a, asked = q2, phase = Routing\<rparr>)\<rparr>"
    using halfway [of parts members n3 b a r2 j ?t2] m r up \<open>i \<noteq> j\<close> ab(3)
    by (auto simp: net_init_def three(3))
  obtain n5 where five: "net_run n4 (map Work [Handler (a, b), Handler (b, a)]) n5" "locked i a j b n5"
    "tasks n5 (Caller i) \<noteq> None" "tasks n5 (Caller j) \<noteq> None"
  proof -
    have "tasks n4 = (\<lambda>_. None)(Caller i \<mapsto> \<lparr>at_node = a, asked = r1, phase = Awaiting b\<rparr>,
        Caller j \<mapsto> \<lparr>at_node = b, asked = r2, phase = Awaiting a\<rparr>,
        Handler (a, b) \<mapsto> \<lparr>at_node = b, asked = q1, phase = Routing\<rparr>,
        Handler (b, a) \<mapsto> \<lparr>at_node = a, asked = q2, phase = Routing\<rparr>)"
      using \<open>i \<noteq> j\<close> by (auto simp: four(3) three(3) net_init_def fun_eq_iff)
    from circle_closes [OF _ ab(1,2) _ _ _ three(2) four(2) _ _ _ this \<open>i \<noteq> j\<close>] m up ab(3) that show thesis
      by (auto simp: four(3) three(3) net_init_def)
  qed
  from net_run_trans [OF five(1) net_run_trans [OF four(1) net_run_trans [OF three(1) start]]] five(2-4)
  show ?thesis by (intro exI [of _ "map Work [Caller i, Caller i, Handler (a, b), Caller j, Caller j, Handler (b, a),
      Handler (a, b), Handler (b, a)]"] exI [of _ n5]) simp
qed

section \<open>Properties\<close>

text \<open>C10. Deadlock: in a started cluster let two requests be sent by two members to one another, each with
  a key that belongs to its sender once JSON has repaired it. They can come to a point at which both
  wait for ever: no step of any request is possible then, and until another call is made none ever
  becomes possible, whatever the timers of the stores do.\<close>

theorem repaired_keys_deadlock:
  assumes "sound_start parts dial finish fls"
    and "comes_back (nat (sint parts)) (map fl_server_addr fls) a b r1"
    and "comes_back (nat (sint parts)) (map fl_server_addr fls) b a r2" and "k \<noteq> j"
  shows "\<exists>es n. net_run (booted i dial uuid finish fls) ([Visible (Call k a r1), Visible (Call j b r2)] @ es) n \<and>
     list_all works es \<and>
     (\<forall>es' n'. net_run n es' n' \<and> list_all (\<lambda>e. \<not> is_call e) es' \<longrightarrow>
        tasks n' (Caller k) \<noteq> None \<and> tasks n' (Caller j) \<noteq> None \<and> (\<forall>e n''. works e \<longrightarrow> \<not> net_step n' e n''))"
proof -
  let ?w = "boot_world i dial uuid finish fls" and ?ms = "map fl_server_addr fls"
  note w = sim_worldD [OF booted_sim [OF assms(1), of i uuid]]
  have m: "mesh (nat (sint parts)) ?ms ?w" using w(4) by (simp add: net_init_def)
  have "partial_mesh (nat (sint parts)) ?ms ?w" "closed ?w = []" "\<forall>c \<in> set ?ms. servers ?w c \<noteq> None"
    using mesh_server [OF m] m w(7) by (auto simp: mesh_def net_init_def)
  from idle_deadlocks [OF this assms(2-4)] locked_run locked_stuck show ?thesis by metis
qed

text \<open>\<open>GET /v1/keys/%feh\<close> at the first container and \<open>GET /v1/keys/%fei\<close> at the second.\<close>

definition get_feh :: request where
  "get_feh = RequestLoad ''1'' [CHR 0xFE, CHR ''h'']"

definition get_fei :: request where
  "get_fei = RequestLoad ''2'' [CHR 0xFE, CHR ''i'']"

lemma repaired:
  "utf8_fix [CHR 0xFE, CHR ''h''] = [CHR 0xEF, CHR 0xBF, CHR 0xBD, CHR ''h'']"
  "utf8_fix [CHR 0xFE, CHR ''i''] = [CHR 0xEF, CHR 0xBF, CHR 0xBD, CHR ''i'']"
  by code_simp+

lemma repaired_owners:
  "owner 16384 compose_members [CHR 0xFE, CHR ''h''] = node2"
  "owner 16384 compose_members [CHR 0xEF, CHR 0xBF, CHR 0xBD, CHR ''h''] = node1"
  "owner 16384 compose_members [CHR 0xFE, CHR ''i''] = node1"
  "owner 16384 compose_members [CHR 0xEF, CHR 0xBF, CHR 0xBD, CHR ''i''] = node2"
  by (simp_all add: owner_def insort_key.simps less_eq_tcp_addr_def
      string_hasher_hash_def fnv_sum32_def fnv_offset32_def fnv_prime32_def)

lemma compose_comes_back:
  "comes_back 16384 compose_members node1 node2 get_feh" "comes_back 16384 compose_members node2 node1 get_fei"
  by (simp_all add: comes_back_def asking_def get_feh_def get_fei_def encode_event_def repaired repaired_owners)

theorem repaired_keys_deadlock_witness:
  "\<exists>es n. net_run compose_net ([Visible (Call 1 node1 get_feh), Visible (Call 2 node2 get_fei)] @ es) n \<and>
     list_all works es \<and> tasks n (Caller 1) \<noteq> None \<and> tasks n (Caller 2) \<noteq> None \<and>
     (\<forall>e n'. works e \<longrightarrow> \<not> net_step n e n')"
proof -
  have "comes_back (nat (sint (16384 :: int64))) compose_members node1 node2 get_feh"
    "comes_back (nat (sint (16384 :: int64))) compose_members node2 node1 get_fei" "(1 :: nat) \<noteq> 2"
    using compose_comes_back by simp_all
  from repaired_keys_deadlock [where i = "\<lambda>_. ''id''" and uuid = "\<lambda>_ _. ''uuid''",
      OF compose_sound, unfolded compose_addrs, OF this]
  obtain es n where run: "net_run compose_net ([Visible (Call 1 node1 get_feh), Visible (Call 2 node2 get_fei)] @ es) n"
    "list_all works es"
    "\<forall>es' n'. net_run n es' n' \<and> list_all (\<lambda>e. \<not> is_call e) es' \<longrightarrow>
        tasks n' (Caller 1) \<noteq> None \<and> tasks n' (Caller 2) \<noteq> None \<and> (\<forall>e n''. works e \<longrightarrow> \<not> net_step n' e n'')"
    by blast
  from run(3) [rule_format, of "[]" n] net_nil have "tasks n (Caller 1) \<noteq> None" "tasks n (Caller 2) \<noteq> None"
    "\<forall>e n'. works e \<longrightarrow> \<not> net_step n e n'" by auto
  with run(1,2) show ?thesis by blast
qed

end
