(* ===== verification/Spec2Isabelle.thy ===== *)
theory Spec2Isabelle
  imports Store_Machine Http_Api Concurrent_Api Keys_Slice Launch Filters Framing Fault_Sim Deadlock
begin

text \<open>
  A verification development of memhashd, a key-value storage sharded over the nodes of a cluster
  (the Go program under \<open>src/\<close>).

  \<^bold>\<open>The program.\<close> A node keeps its keys in a hash table (\<open>container/hash/hash.go\<close>) wrapped in a store
  with expiration (\<open>container/store/store.go\<close>), which orders the expirations in a heap and runs
  sweeps from a timer (\<open>container/store/time.go\<close>). Requests (\<open>container/store/request.go\<close>, errors in
  \<open>error.go\<close>) are processed against any implementation of \<open>hash.Hash\<close>. A server
  (\<open>server/server.go\<close>) joins all other nodes, sorts them by address and assigns the partitions of
  a ring (\<open>container/ring/ring.go\<close>) to their positions; a request whose key belongs to another node
  is sent there as a JSON event and the answer is handed back. The main program
  (\<open>memhashd.go\<close>) turns flags into the configuration and starts the server, and after it an HTTP server
  (\<open>httprest/server.go\<close>): a multiplexer (\<open>httprest/httputil/mux.go\<close>) finds the handler of a request, and the
  handler turns it into a call of the storage server and the result into a response. Package
  \<open>client\<close> is the other end of these exchanges.

  \<^bold>\<open>The theories.\<close>
  \<^item> \<open>Prelude\<close>: panics, instants and durations, the readings a run takes from its environment.
  \<^item> \<open>Go_Value\<close>, \<open>Go_Text\<close>: values of \<open>interface{}\<close>, the parts of package \<open>reflect\<close> and \<open>fmt\<close> in use.
  \<^item> \<open>Hash_Table\<close> (\<open>hash.go\<close>): \<open>unsafeHash\<close> with its list of keys and the dirty flag; the interface
    \<open>hash.Hash\<close> as the locale \<open>hash_impl\<close>, provided by the table here and by the store in \<open>Store\<close>;
    refinement of a partial map. \<open>Keys_Slice\<close>: the list of keys as a slice in memory that \<open>Keys\<close>
    shares with its callers, and what a rebuild does to the lists handed out before.
  \<^item> \<open>Ring\<close> (\<open>ring.go\<close>): FNV-1, insertion, removal and lookup, the even share of partitions.
  \<^item> \<open>Time_Heap\<close>, \<open>Timer\<close> (\<open>time.go\<close>): the heap with \<open>heap.Push\<close> of the library written out, its contract
    as the locale \<open>expiry_queue\<close>; the refreshing timer.
  \<^item> \<open>Store\<close> (\<open>store.go\<close>): the operations, each atomic under the lock, and the sweeps;
    \<open>Store_Machine\<close>: operations, timer and sweeps interleaved, one step per critical section, with
    the invariant \<open>sys_inv\<close> and its consequences for runs.
  \<^item> \<open>Requests\<close> (\<open>request.go\<close>, \<open>error.go\<close>): the six requests and their processing; \<open>Utf8\<close> and \<open>Wire\<close>:
    their encoding as JSON and what arrives of it; \<open>Framing\<close> (\<open>readWire\<close>, \<open>writeWire\<close> of \<open>server.go\<close>): the
    texts on the bytes of a connection, and what the decoder of each message drops; \<open>Table\<close>: the abstract table and its refinement
    by one store.
  \<^item> \<open>Server\<close> (\<open>server.go\<close>, one node): joining, starting, routing and local processing; the contract
    of sorting as the locale \<open>sorter\<close>. \<open>Netutil\<close> (\<open>system/netutil\<close>): the dial of a neighbour with the
    options of its socket, and the choice of TLS, by what the operating system answers. \<open>Lifecycle\<close>
    (\<open>server.go\<close>): the listener and its accept loop, the connections that \<open>Stop\<close> and a failed start close.
  \<^item> \<open>Cluster\<close> (\<open>server.go\<close>, \<open>Do\<close>, \<open>roundTrip\<close>, \<open>handle\<close>): requests travelling between nodes;
    \<open>Cluster_Table\<close>: the cluster refines the abstract table.
  \<^item> \<open>Concurrent\<close> (the same code as goroutines): calls of \<open>Do\<close> under way at the same time, the mutex of each
    node, the queues of the connections and the timers of the stores as a step relation, and the
    atomic table as an automaton of calls and returns; \<open>Link_Inv\<close>: the invariant of mutexes and
    connections; \<open>Linearizable\<close>: the simulation; \<open>Progress\<close>: no well-formed request is stuck, and seven
    steps are enough for each; \<open>Concurrent_Api\<close>: the properties of a started cluster. \<open>Deadlock\<close>: two
    requests with invalid UTF-8 in their keys that lock one another out.
  \<^item> \<open>Memhashd\<close> (\<open>memhashd.go\<close>): flags and start, and the cluster of \<open>docker-compose.yml\<close> as an example.
    \<open>Command\<close>: the command line, its values and help, and \<open>main\<close> from the arguments to the end;
    \<open>Launch\<close>: a cluster of such processes. \<open>Failures\<close>: the cluster while processes end, connections are
    lost and members are started again, one request at a time, against a table with the members that are up.
    \<open>Fault_Net\<close>: the steps of \<open>Concurrent\<close> with processes that end and connections that break at any
    moment, the table with calls that fail and its simulation relation; \<open>Fault_Sim\<close>: the simulation.
  \<^item> \<open>Log\<close> (\<open>system/log/log.go\<close>): levels, the lines of the log and the panics of its fatal functions.
  \<^item> \<open>Url\<close>, \<open>Httputil\<close> (\<open>httputil/mux.go\<close>, \<open>format.go\<close>, \<open>json.go\<close>): escapes and queries of package \<open>net/url\<close>; formats,
    patterns, and dispatch with the parts of the path put into the query. \<open>Filters\<close> (\<open>mux.go\<close>): filters,
    the writer that watches them, the default multiplexer.
  \<^item> \<open>Duration_Json\<close>, \<open>Client_Data\<close> (\<open>client/duration.go\<close>, the types of \<open>client/client.go\<close>): durations and
    options as JSON, the bodies of responses and what each decoder reads from them.
  \<^item> \<open>Httprest\<close> (\<open>httprest/server.go\<close>): the handlers and routes; \<open>Rest_Table\<close>: an HTTP request has the
    outcome of the abstract table.
  \<^item> \<open>Client\<close> (\<open>client/client.go\<close>): one exchange, the operations on a key, \<open>Keys\<close> with its goroutines;
    \<open>Client_Table\<close>: the cluster refines the table for its clients, and the keys that do not arrive
    as they are; \<open>Client_Keys\<close>: what \<open>Keys\<close> collects; \<open>Http_Api\<close>: the properties of this interface.

  \<^bold>\<open>Conventions.\<close> A Go \<open>int\<close>, \<open>int64\<close> or duration is a 64-bit word read with \<open>sint\<close>, a hash a 32-bit
  word; an instant is an unbounded integer of nanoseconds. A panic is the left summand of the type
  \<open>res\<close>; an error value is the left summand of a sum inside it. Every reading of the clock, the
  order of a \<open>range\<close> over a map and the text of a double come from the record \<open>runtime\<close>; the outcome
  of a dial, the order in which goroutines finish and the identifiers of \<open>uuid.New\<close> are arguments.

  The environment of a handler (\<open>rest_env\<close>) holds besides the runtime \<open>fmt.Errorf\<close> on a format without operands, the product of
  doubles with which \<open>time.ParseDuration\<close> reads a fraction (it matters only where it is exact,
  \<open>frac_exact\<close>) and the identifier of \<open>uuid.New\<close>. The standard library is that of Go 1.7 to 1.10, for
  which the project is built.

  \<^bold>\<open>Well-formed requests.\<close> The properties of a cluster that serves the table are about requests with
  \<open>good_request\<close>: the key is not empty and, like the identifier, valid UTF-8; the item asked for and the
  data stored are JSON-shaped, the data is not null and no list of \<open>2 ^ 63\<close> elements. The HTTP
  interface lets others in, and what they do has theorems of its own: null data and an index
  (\<open>process_panics_iff\<close>, \<open>null_data_kills_owner\<close>), keys that JSON repairs on their way
  (\<open>repaired_keys_deadlock\<close>), keys with special characters (\<open>client_keys_collide\<close>).

  \<^bold>\<open>The list of the keys.\<close> What \<open>Keys\<close> returns shares its array with the table after the lock has been
  given back. \<open>Keys_Slice\<close> has the array and what becomes of the list. In \<open>Concurrent\<close> a list is read
  with any strings in it (\<open>read_back\<close>), which covers every interleaving of its reading with later
  rebuilds, torn strings included (\<open>late_listing_read\<close> has it for those of \<open>Keys_Slice\<close>); only its length is
  that of the answer. Where one request is
  followed at a time (\<open>Cluster\<close>, \<open>Httprest\<close>, \<open>Client\<close>) nothing is rebuilt before the list is read.

  \<^bold>\<open>Fuel.\<close> \<open>cluster_do\<close> counts the nested calls of \<open>Do\<close>. Three are enough in a cluster whose nodes agree
  on its members, two if the key is valid UTF-8; more fuel never changes an answer. Without that
  agreement no fuel may be enough: the nodes then forward for ever. All other loops are total.

  \<^bold>\<open>Not modelled.\<close> The TLS protocol (only whether it is used: a node with TLS and one without connect
  here, and fail at their first message in fact); which lines of the log the operations on data
  write (theory \<open>Log\<close> has the functions, \<open>Lifecycle\<close> and \<open>Command\<close> the lines of the start and the end of a
  node); the vendored \<open>go-uuid\<close>, whose identifiers are arguments; the difference of a nil and an
  empty slice; any relation between the clocks of different nodes; the failure of a connection that neither
  end notices (the caller then waits), and the start of a process while requests are under way (theory
  \<open>Failures\<close> has it as one step between requests; before its end the node is the one of
  \<open>unstarted_node_crashes\<close>). The texts of errors that come
  from connections and codecs stand for those of the library, times come back from JSON as they
  were, and a decimal number of the data is represented by the double it denotes.
\<close>

section \<open>The cluster\<close>


definition demo_requests :: "(runtime \<times> tcp_addr \<times> request) list" where
  "demo_requests =
     [(rt_at 10, node1, RequestStore ''1'' 0 ''k'' (VSlice TyInterface [VBool True])),
      (rt_at 20, node2, RequestListIndex ''2'' ''k'' 0),
      (rt_at 30, node3, RequestDelete ''3'' ''k''),
      (rt_at 40, node1, RequestLoad ''4'' ''k''),
      (rt_at 50, node2, RequestKeys ''5'')]"

lemma demo_requests_ok: "requests_ok compose_members demo_requests"
  by (simp add: requests_ok_def demo_requests_def good_data_def ascii_texts)




text \<open>C7. What a well-formed request (\<open>good_request\<close>: a non-empty key and an identifier of valid UTF-8,
  JSON-shaped data that is not null) stores without an expiration through one node of a cluster is
  loaded through any other right after it, unchanged, with the metadata the store returned.\<close>

theorem put_get:
  assumes "cluster_inv parts members w" and "a \<in> set members" and "b \<in> set members"
    and "rt_ok rt" and "rt_ok rt'"
    and "good_request (RequestStore i e k d)" and "utf8_valid j" and "sint e \<le> 0"
  shows "\<exists>w1 w2 r1 r2. cluster_do 2 rt w a (RequestStore i e k d) = Some (w1, Inr r1) \<and>
     cluster_do 2 rt' w1 b (RequestLoad j k) = Some (w2, Inr r2) \<and>
     status r1 = status_ok \<and> status r2 = status_ok \<and>
     rdata (rrecord r2) = d \<and> rrecord r2 = touch (now_at rt' 0) (rrecord r1)"
proof -
  obtain w1 out1 r1 where one: "cluster_do 2 rt w a (RequestStore i e k d) = Some (w1, Inr r1)"
    "answers out1 r1" "cluster_inv parts members w1"
    "table_step (\<lambda>x. owner parts members x = a) rt (RequestStore i e k d)
       (cluster_abs parts members w) (cluster_abs parts members w1, out1)"
    using cluster_step [OF assms(1,2,4,6)] by blast
  have load: "good_request (RequestLoad j k)" using assms(6,7) by simp
  obtain w2 out2 r2 where two: "cluster_do 2 rt' w1 b (RequestLoad j k) = Some (w2, Inr r2)"
    "answers out2 r2"
    "table_step (\<lambda>x. owner parts members x = b) rt' (RequestLoad j k)
       (cluster_abs parts members w1) (cluster_abs parts members w2, out2)"
    using cluster_step [OF one(3) assms(3,5) load] by blast
  let ?r = "stored_request rt (cluster_abs parts members w k) e d"
  have out1: "out1 = Inr (Inr ?r)" and at: "cluster_abs parts members w1 k = Some ?r"
    using one(4) by (simp_all add: Let_def)
  have "is_permanent ?r" using assms(8) by (simp add: is_permanent_def record_zero_def meta_zero_def)
  then have "out2 = Inr (Inr (touch (now_at rt' 0) ?r))"
    using two(3) at by (simp add: table_read_def table_load_def is_expired_def)
  with one(1,2) two(1,2) out1 show ?thesis
    by (auto simp: answers_def record_zero_def)
qed

theorem put_get_witness:
  "\<exists>w1 w2 r1 r2.
     cluster_do 2 (rt_at 10) compose_world node1 (RequestStore ''1'' 0 ''k'' (VBool True)) = Some (w1, Inr r1) \<and>
     cluster_do 2 (rt_at 20) w1 node3 (RequestLoad ''2'' ''k'') = Some (w2, Inr r2) \<and>
     status r1 = status_ok \<and> status r2 = status_ok \<and>
     rdata (rrecord r2) = VBool True \<and> rrecord r2 = touch 20 (rrecord r1)"
  using put_get [OF compose_inv(1), of node1 node3 "rt_at 10" "rt_at 20" "''1''" 0 "''k''" "VBool True" "''2''"]
  by (simp add: good_data_def ascii_texts)


text \<open>C20. The nodes of a cluster agree on the address in charge of every request, whatever the
  order in which their neighbours were configured: no request is ever routed in two ways.\<close>

theorem routing_agrees:
  assumes "mesh_node parts members s" and "mesh_node parts members s'"
  shows "\<exists>nd nd'. route s req = Inr nd \<and> route s' req = Inr nd' \<and>
     node_addr nd = Some (owner parts members (req_hash req)) \<and> node_addr nd' = node_addr nd"
proof -
  have "members \<noteq> []" using assms(1) by (auto simp: mesh_node_def)
  then show ?thesis using mesh_route [OF assms(1), of req] mesh_route [OF assms(2), of req] by metis
qed

lemma compose_mesh: "mesh 16384 compose_members compose_world"
  using compose_inv(1) by (simp add: cluster_inv_def)


theorem routing_agrees_witness:
  "\<exists>s s' nd nd'. servers compose_world node1 = Some s \<and> servers compose_world node2 = Some s' \<and>
     route s (RequestLoad ''1'' ''k'') = Inr nd \<and> route s' (RequestLoad ''1'' ''k'') = Inr nd' \<and>
     node_addr nd' = node_addr nd"
proof -
  obtain s s' where s: "servers compose_world node1 = Some s" "mesh_node 16384 compose_members s"
    "servers compose_world node2 = Some s'" "mesh_node 16384 compose_members s'"
    using mesh_server [OF compose_mesh] by (metis list.set_intros)
  with routing_agrees [OF s(2,4), of "RequestLoad ''1'' ''k''"] show ?thesis by blast
qed

section \<open>Messages between nodes\<close>

text \<open>C18. A request with valid texts and JSON-shaped data survives the wire: the peer decodes from the
  event the very request that was encoded.\<close>

theorem event_roundtrip:
  assumes "clean_request req"
  shows "\<exists>ev. encode_event req = Some ev \<and> handle_event ev = HRequest req"
proof -
  have wire: "wire_request req = Some req" by (rule wire_clean_request [OF assms])
  then obtain ev where ev: "encode_event req = Some ev"
    using wire_request_None [of req] by (auto simp: encode_event_def)
  obtain req' where "wire_request req = Some req'" "handle_event ev = HRequest req'"
    by (rule encode_handle [OF ev])
  with wire ev show ?thesis by simp
qed

theorem event_roundtrip_witness:
  "\<exists>ev. encode_event (RequestStore ''1'' 5000 ''k'' (VMap TyString TyInterface [(VString ''1'', VFloat 0)])) = Some ev \<and>
     handle_event ev = HRequest (RequestStore ''1'' 5000 ''k'' (VMap TyString TyInterface [(VString ''1'', VFloat 0)]))"
  by (rule event_roundtrip) (simp add: ascii_texts float_finite_def)

text \<open>An event that names an action and carries no request crashes the node that reads it; an
  unknown action is never answered.\<close>

theorem event_without_request:
  "handle_event (JObj [(''Action'', JStr action)]) =
     (if action \<in> fst ` set request_map then HCrash NilDereference else HSilent)"
proof -
  have "decode_event (JObj [(''Action'', JStr action)]) = Some (action, None)"
    by (simp add: field_is_def)
  then show ?thesis
    by (auto simp: handle_event_def make_request_def fst_set_map_of split: option.split)
qed

section \<open>Where the cluster fails\<close>

text \<open>C30. A node that is listening but has not joined all its neighbours yet has an empty ring, and the
  first request a peer forwards to it ends its process.\<close>

theorem unstarted_node_crashes:
  assumes "new_server i cfg = Inr s" and "0 < sint (num_partitions cfg)" and "sint (num_partitions cfg) < 2 ^ 32"
    and "servers w b = Some s" and "(a, b) \<notin> set (closed w)" and "encode_event req = Some ev"
  shows "round_trip (Suc n) rt w a b req = Some (crash b w, Inl eof_error)"
proof -
  obtain req' where req': "handle_event ev = HRequest req'" using encode_handle [OF assms(6)] by blast
  obtain r :: "nat ring" where "new_ring (num_partitions cfg) = Inr r" "ring_inv r" "elements r = []"
    using new_ring_inv [OF assms(2,3)] by blast
  with assms(1) have "ring_inv (sring s)" "elements (sring s) = []"
    by (auto simp: new_server_def split: sum.splits)
  then have "do_plan s req' = PlanPanic IndexOutOfRange"
    by (simp add: do_plan_def route_def ring_find_empty)
  then show ?thesis
    using assms(4-6) by (simp add: round_trip.simps handle_conn.simps cluster_do.simps(2) req')
qed

text \<open>The second container as long as it waits for the third.\<close>

definition waiting_server :: server where
  "waiting_server = (case new_server ''id'' (config_of (compose_flags ! 1)) of Inr s \<Rightarrow> s | Inl _ \<Rightarrow> lonely_server)"

theorem unstarted_node_crashes_witness:
  "round_trip 1 (rt_at 0) (put_server node2 waiting_server compose_world) node1 node2 (RequestLoad ''1'' ''k'') =
     Some (crash node2 (put_server node2 waiting_server compose_world), Inl eof_error)"
proof -
  have parts: "num_partitions (config_of (compose_flags ! 1)) = 16384"
    by (simp add: compose_flags_def default_flags_def config_of_def)
  then obtain s where s: "new_server ''id'' (config_of (compose_flags ! 1)) = Inr s"
    using new_server_result [of "config_of (compose_flags ! 1)" "''id''"] by auto
  obtain ev where "encode_event (RequestLoad ''1'' ''k'') = Some ev"
    by (simp add: encode_event_def)
  from unstarted_node_crashes [OF s _ _ _ _ this, of "put_server node2 waiting_server compose_world" node2 node1 0 "rt_at 0"]
  show ?thesis using s compose_mesh by (simp add: parts [simplified] waiting_server_def mesh_def)
qed

text \<open>C28. Asking through another node for an element of a key whose data is null ends the process of
  the node that holds the key; the caller sees an internal error.\<close>

theorem null_data_kills_owner:
  assumes "mesh parts members w" and "a \<in> set members" and "owner parts members k \<noteq> a" and "k \<noteq> []"
    and "utf8_valid i" and "utf8_valid k"
    and "servers w (owner parts members k) = Some s" and "store_abs (sstore s) k = Some r"
    and "rdata r = VNil" and "is_permanent r"
  shows "\<exists>w' resp. cluster_do 2 rt w a (RequestListIndex i k ix) = Some (w', Inr resp) \<and>
     servers w' (owner parts members k) = None \<and> status resp = status_internal"
proof -
  let ?b = "owner parts members k" and ?req = "RequestListIndex i k ix"
  have ne: "members \<noteq> []" using assms(1) by (simp add: mesh_def)
  have "snd (op_load store_ops rt (sstore s) k) = Some (touch (now_at rt 0) r)"
    by (rule st.load_permanent [OF assms(8,10)])
  then have out: "snd (process store_ops rt ?req (sstore s)) = Inl NilDereference"
    using st.process_found(2) assms(9) by (simp add: select_index_other del: process.simps)
  obtain w1 where "cluster_do (Suc 0) rt w ?b ?req = Some (w1, Inl NilDereference)"
    using cluster_local [OF assms(1) owner_member [OF ne] _ assms(7), of ?req 0 rt] out
    by (auto simp: respond_def simp del: process.simps)
  with cluster_forward [OF assms(1,2), of ?req "Suc 0" rt] wire_clean_request [of ?req] assms(3-6)
  show ?thesis by (simp add: numeral_2_eq_2)
qed

text \<open>C32. When the nodes that a request visits keep forwarding it among themselves, nobody ever answers:
  each waits for the next one.\<close>

theorem forwarding_loop:
  assumes "clean_request req" and "closed w = []" and "a \<in> A"
    and "\<forall>a \<in> A. \<exists>s nd c. servers w a = Some s \<and> do_plan s req = PlanForward nd c \<and> c \<in> A"
  shows "cluster_do n rt w a req = None"
  using assms(3)
proof (induction n arbitrary: a)
  case (Suc n)
  obtain s nd c where s: "servers w a = Some s" "do_plan s req = PlanForward nd c" "c \<in> A"
    using assms(4) Suc.prems by blast
  obtain sc where sc: "servers w c = Some sc" using assms(4) s(3) by blast
  have "wire_request req = Some req" by (rule wire_clean_request [OF assms(1)])
  then obtain ev where ev: "encode_event req = Some ev"
    using wire_request_None [of req] by (auto simp: encode_event_def)
  obtain req' where "wire_request req = Some req'" "handle_event ev = HRequest req'"
    by (rule encode_handle [OF ev])
  with \<open>wire_request req = Some req\<close> have "handle_event ev = HRequest req" by simp
  then show ?case
    using s sc ev assms(2) Suc.IH [OF s(3)]
    by (simp add: cluster_do.simps(2) round_trip.simps handle_conn.simps)
qed simp

text \<open>A node that was told to join itself, with two partitions.\<close>

definition selfish_flags :: flags where
  "selfish_flags = (default_flags node1)\<lparr>fl_join := [node1], fl_num_partitions := 2\<rparr>"

definition selfish_world :: world where
  "selfish_world = boot_world (\<lambda>_. ''id'') (\<lambda>_. compose_dial) (\<lambda>_ _. ''uuid'') (\<lambda>_. [0]) [selfish_flags]"

lemma ring_of_two: "new_ring 2 = Inr \<lparr>ratio = 2, virtual = [0, 0], elements = []\<rparr>"
  by (simp add: new_ring_def) (simp add: numeral_2_eq_2)

lemmas boot_defs = boot_world_def boot_member_def boot_def default_flags_def config_of_def
  new_server_def new_store_def start_def join_n_def join_done_def join_node_def join_loop.simps
  sort_nodes_def nodes_len_def nodes_less_def ring_insert_def repartition_def node_zero_def

lemma selfish_plan:
  "\<exists>s nd. servers selfish_world node1 = Some s \<and> do_plan s (RequestLoad ''1'' ''k'') = PlanForward nd node1"
  by (simp add: selfish_world_def selfish_flags_def boot_defs ring_of_two Let_def
      do_plan_def route_def hash_k ring_find_def upt_rec)

theorem forwarding_loop_witness: "cluster_do 1000 (rt_at 0) selfish_world node1 (RequestLoad ''1'' ''k'') = None"
proof (rule forwarding_loop [where A = "{node1}"])
  show "clean_request (RequestLoad ''1'' ''k'')" by (simp add: ascii_texts)
  show "closed selfish_world = []" by (simp add: selfish_world_def boot_world_def)
  show "\<forall>a \<in> {node1}. \<exists>s nd c. servers selfish_world a = Some s \<and>
      do_plan s (RequestLoad ''1'' ''k'') = PlanForward nd c \<and> c \<in> {node1}"
    using selfish_plan by auto
qed simp

theorem null_data_kills_owner_witness:
  "\<exists>w a w' resp. cluster_do 2 (rt_at 1) w a (RequestListIndex ''1'' ''k'' 0) = Some (w', Inr resp) \<and>
     servers w' (owner 16384 compose_members ''k'') = None \<and> status resp = status_internal"
proof -
  let ?b = "owner 16384 compose_members ''k''"
  have b: "?b \<in> set compose_members" by (rule owner_member) simp
  obtain a where a: "a \<in> set compose_members" "?b \<noteq> a"
    by (cases "?b = node1") auto
  obtain s where s: "servers compose_world ?b = Some s" "mesh_node 16384 compose_members s"
    using mesh_server [OF compose_mesh b] by blast
  let ?req = "RequestStore ''0'' 0 ''k'' VNil"
  let ?st = "fst (process store_ops (rt_at 0) ?req (sstore s))"
  let ?w = "put_server ?b (s\<lparr>sstore := ?st\<rparr>) compose_world"
  have "store_inv ?st" using s(2) by (intro st.process_inv) (simp_all add: mesh_node_def)
  with mesh_update [OF compose_mesh b s(1)] have "mesh 16384 compose_members ?w" by blast
  from null_data_kills_owner [OF this a(1,2), of "''1''" "s\<lparr>sstore := ?st\<rparr>" _ "rt_at 1" 0]
  show ?thesis
    using ascii_texts
    by (auto simp: st.process_store is_permanent_def record_zero_def meta_zero_def simp del: process.simps)
qed

section \<open>Lists of keys that are read late\<close>

text \<open>What \<open>read_back\<close> lets a caller find in a list of keys includes what any later operations on the table
  leave in its memory.\<close>

theorem late_listing_read:
  assumes "runs_ok xs" and "slice_keys grow rt (fst (hash_run (slice_ops grow) xs new_slice_hash)) = (h, s)"
  shows "listing_read (VSlice TyString (map VString (slice_read (smem h) s)))
     (VSlice TyString (map VString (slice_read (smem (fst (hash_run (slice_ops grow) ys h))) s)))"
proof -
  have "holds_slice s h" using handed_out [OF reached_ok [OF assms(1)], of grow rt grow] assms(2) by simp
  then have "mem_ok h" "slice_ok (smem h) s" by (simp_all add: holds_slice_def)
  from run_keeps_length [OF this, of grow ys] show ?thesis by (simp add: listing_read_def list_all_iff)
qed

theorem late_listing_read_witness:
  "listing_read (VSlice TyString (map VString [''a'', ''b'', ''c'']))
     (VSlice TyString (map VString (slice_read (smem (fst (hash_run (slice_ops room_for_three)
        (two_more @ [(rt_at 0, HKeys)]) (fst listed)))) (snd listed))))"
proof -
  have "runs_ok three_keys" by (simp add: three_keys_def runs_ok_def)
  from late_listing_read [OF this prod.collapse [symmetric]] listed_facts(1) show ?thesis by metis
qed

end
